(* ===== verification/Radiata_Prelude.thy ===== *)
theory Radiata_Prelude
  imports Main "HOL-Library.Word"
begin

section \<open>Shared types, error values and automation\<close>

text \<open>
  What every component of the development shares: the fixed-width integers and byte
  strings of the source, the error type of \<^verbatim>\<open>src/src/error.rs\<close> with its constructors, the
  result type with its bind, and generic lemmas on lists and words.

  A Rust \<^verbatim>\<open>Result<T>\<close> is \<open>error + 'a\<close> with \<open>Inl\<close> for the error. A slice or vector length
  (\<^verbatim>\<open>usize\<close>) is a \<open>nat\<close>: Rust bounds every allocation by \<^verbatim>\<open>isize::MAX\<close>, so lengths never
  wrap. Counters that the source updates with wrapping operations stay words.
\<close>

named_theorems result_simps \<open>unfolding of the result bind and of the error constructors\<close>

type_synonym u8 = "8 word"
type_synonym u16 = "16 word"
type_synonym u32 = "32 word"
type_synonym u64 = "64 word"
type_synonym bytes = "8 word list"

subsection \<open>Errors\<close>

datatype error_kind =
    InvalidInput | Conflict | NotFound | NotReady | NotTrusted | Revoked
  | Unsupported | UnsupportedSchema | UnsupportedCapability | AuthenticationFailed
  | RouteUnavailable | StreamInterrupted | Overloaded | FrameTooLarge
  | ResourceExhausted | StorageLocked | StorageCorrupt | PermissionDenied | Io
  | CommitUnknown | Cancelled | ShuttingDown | CallerError | Internal

datatype error = Error (err_kind: error_kind) (err_context: string)

type_synonym 'a result = "error + 'a"

definition invalid_input :: "string \<Rightarrow> error" where
  [result_simps]: "invalid_input c = Error InvalidInput c"

definition conflict :: "string \<Rightarrow> error" where
  [result_simps]: "conflict c = Error Conflict c"

definition not_found :: "string \<Rightarrow> error" where
  [result_simps]: "not_found c = Error NotFound c"

definition internal :: "string \<Rightarrow> error" where
  [result_simps]: "internal c = Error Internal c"

definition resource_exhausted :: "string \<Rightarrow> error" where
  [result_simps]: "resource_exhausted c = Error ResourceExhausted c"

definition shutting_down :: "string \<Rightarrow> error" where
  [result_simps]: "shutting_down c = Error ShuttingDown c"

definition overloaded_error :: "string \<Rightarrow> error" where
  [result_simps]: "overloaded_error c = Error Overloaded c"

definition frame_too_large :: "string \<Rightarrow> error" where
  [result_simps]: "frame_too_large c = Error FrameTooLarge c"

text \<open>\<^verbatim>\<open>fixed_bytes::<LENGTH>\<close>: the exact-length slice conversion every decoder uses.\<close>

definition fixed_bytes :: "nat \<Rightarrow> bytes \<Rightarrow> string \<Rightarrow> bytes result" where
  "fixed_bytes len bs c = (if length bs = len then Inr bs else Inl (invalid_input c))"

subsection \<open>The result bind\<close>

text \<open>The question-mark operator: stop at the first error.\<close>

definition rbind :: "'e + 'a \<Rightarrow> ('a \<Rightarrow> 'e + 'b) \<Rightarrow> 'e + 'b" where
  "rbind m f = (case m of Inl e \<Rightarrow> Inl e | Inr x \<Rightarrow> f x)"

lemma rbind_simps [simp]:
  "rbind (Inl e) f = Inl e"
  "rbind (Inr x) f = f x"
  by (simp_all add: rbind_def)

lemma rbind_eq_Inr [simp]: "rbind m f = Inr y \<longleftrightarrow> (\<exists>x. m = Inr x \<and> f x = Inr y)"
  by (cases m) simp_all

lemma rbind_eq_Inl: "rbind m f = Inl e \<longleftrightarrow> m = Inl e \<or> (\<exists>x. m = Inr x \<and> f x = Inl e)"
  by (cases m) simp_all

lemma rbind_cong [fundef_cong]:
  "m = m' \<Longrightarrow> (\<And>x. m' = Inr x \<Longrightarrow> f x = f' x) \<Longrightarrow> rbind m f = rbind m' f'"
  by (cases m') simp_all

text \<open>A guard: the early return of the source.\<close>

definition guard :: "bool \<Rightarrow> error \<Rightarrow> unit result" where
  "guard b e = (if b then Inr () else Inl e)"

lemma guard_simps [simp]: "guard True e = Inr ()" "guard False e = Inl e"
  by (simp_all add: guard_def)

lemma guard_eq_Inr [simp]: "guard b e = Inr u \<longleftrightarrow> b"
  by (simp add: guard_def)

lemma fixed_bytes_eq_Inr [simp]: "fixed_bytes n bs c = Inr r \<longleftrightarrow> r = bs \<and> length bs = n"
  by (auto simp: fixed_bytes_def)

text \<open>\<^verbatim>\<open>iter().map(f).collect::<Result<Vec<_>>>()\<close>: map, stopping at the first error.\<close>

fun rmap :: "('a \<Rightarrow> 'e + 'b) \<Rightarrow> 'a list \<Rightarrow> 'e + 'b list" where
  "rmap f [] = Inr []"
| "rmap f (x # xs) = rbind (f x) (\<lambda>y. rbind (rmap f xs) (\<lambda>ys. Inr (y # ys)))"

lemma rmap_length: "rmap f xs = Inr ys \<Longrightarrow> length ys = length xs"
  by (induction xs arbitrary: ys) auto

subsection \<open>Codecs\<close>

text \<open>
  The contract of an encoder and its decoder. A \<open>codec\<close> decodes what it encodes, so its
  encoding is injective; a \<open>canonical_codec\<close> also accepts nothing but its own encodings, so
  decoding is injective too: one byte string per value.
\<close>

locale codec =
  fixes enc :: "'a \<Rightarrow> 'b" and dec :: "'b \<Rightarrow> 'e + 'a" and dom_enc :: "'a \<Rightarrow> bool"
  assumes dec_enc: "dom_enc x \<Longrightarrow> dec (enc x) = Inr x"
begin

lemma enc_inject: "dom_enc x \<Longrightarrow> dom_enc y \<Longrightarrow> enc x = enc y \<Longrightarrow> x = y"
  using dec_enc by (metis sum.inject(2))

end

locale canonical_codec = codec +
  assumes enc_dec: "dec b = Inr x \<Longrightarrow> dom_enc x \<and> enc x = b"
begin

lemma dec_inject: "dec b = Inr x \<Longrightarrow> dec b' = Inr x \<Longrightarrow> b = b'"
  using enc_dec by metis

lemma dec_iff: "dec b = Inr x \<longleftrightarrow> dom_enc x \<and> enc x = b"
  using enc_dec dec_enc by metis

end

subsection \<open>Big-endian bytes\<close>

text \<open>\<^verbatim>\<open>to_be_bytes\<close> and \<^verbatim>\<open>from_be_bytes\<close> as positional numerals in base 256.\<close>

fun be_bytes :: "nat \<Rightarrow> nat \<Rightarrow> bytes" where
  "be_bytes 0 v = []"
| "be_bytes (Suc n) v = be_bytes n (v div 256) @ [of_nat (v mod 256)]"

definition of_be_bytes :: "bytes \<Rightarrow> nat" where
  "of_be_bytes bs = foldl (\<lambda>acc b. acc * 256 + unat b) 0 bs"

lemma length_be_bytes [simp]: "length (be_bytes n v) = n"
  by (induction n arbitrary: v) auto

lemma unat_of_nat_mod256 [simp]: "unat (of_nat (v mod 256) :: u8) = v mod 256"
  by (simp add: unat_of_nat)

lemma unat_u8_less [simp]: "unat (b :: u8) < 256"
  using unsigned_less [of b] by simp

lemma of_be_bytes_Nil [simp]: "of_be_bytes [] = 0"
  by (simp add: of_be_bytes_def)

lemma of_be_bytes_snoc [simp]: "of_be_bytes (bs @ [b]) = of_be_bytes bs * 256 + unat b"
  by (simp add: of_be_bytes_def)

lemma of_be_bytes_be_bytes: "v < 256 ^ n \<Longrightarrow> of_be_bytes (be_bytes n v) = v"
proof (induction n arbitrary: v)
  case (Suc n)
  then have "v div 256 < 256 ^ n"
    by (simp add: less_mult_imp_div_less mult.commute)
  with Suc.IH show ?case by simp
qed simp

lemma of_be_bytes_less: "of_be_bytes bs < 256 ^ length bs"
proof (induction bs rule: rev_induct)
  case (snoc b bs)
  have "unat b < 256" by (rule unat_u8_less)
  with snoc show ?case unfolding of_be_bytes_snoc length_append_singleton power_Suc by linarith
qed simp

lemma be_bytes_of_be_bytes [simp]: "be_bytes (length bs) (of_be_bytes bs) = bs"
proof (induction bs rule: rev_induct)
  case (snoc b bs)
  have b: "unat b < 256" by (rule unat_u8_less)
  then have "(of_nat (unat b mod 256) :: u8) = b" by simp
  moreover have "(of_be_bytes bs * 256 + unat b) mod 256 = unat b" using b by simp
  ultimately show ?case using b snoc by simp
qed simp

subsection \<open>Strings\<close>

text \<open>
  A Rust string is the list of its UTF-8 bytes. \<open>ascii\<close> gives the bytes of an ASCII literal;
  \<open>utf8_valid\<close> is the well-formedness table that \<^verbatim>\<open>core::str::from_utf8\<close> checks.
\<close>

definition ascii :: "string \<Rightarrow> bytes" where
  "ascii s = map of_char s"

definition continuation :: "u8 \<Rightarrow> bool" where
  "continuation b \<longleftrightarrow> 0x80 \<le> b \<and> b \<le> 0xBF"

fun utf8_valid :: "bytes \<Rightarrow> bool" where
  "utf8_valid [] = True"
| "utf8_valid (a # r) =
    (if a \<le> 0x7F then utf8_valid r
     else if 0xC2 \<le> a \<and> a \<le> 0xDF then
       (case r of b # r' \<Rightarrow> continuation b \<and> utf8_valid r' | _ \<Rightarrow> False)
     else if 0xE0 \<le> a \<and> a \<le> 0xEF then
       (case r of b # c # r' \<Rightarrow> continuation b \<and> continuation c \<and> (a = 0xE0 \<longrightarrow> 0xA0 \<le> b) \<and>
          (a = 0xED \<longrightarrow> b \<le> 0x9F) \<and> utf8_valid r' | _ \<Rightarrow> False)
     else if 0xF0 \<le> a \<and> a \<le> 0xF4 then
       (case r of b # c # d # r' \<Rightarrow> continuation b \<and> continuation c \<and> continuation d \<and>
          (a = 0xF0 \<longrightarrow> 0x90 \<le> b) \<and> (a = 0xF4 \<longrightarrow> b \<le> 0x8F) \<and> utf8_valid r' | _ \<Rightarrow> False)
     else False)"

lemma utf8_valid_ascii: "list_all (\<lambda>b. b \<le> 0x7F) bs \<Longrightarrow> utf8_valid bs"
  by (induction bs) simp_all

text \<open>ASCII classes and \<^verbatim>\<open>to_ascii_lowercase\<close>.\<close>

definition is_ascii_digit :: "u8 \<Rightarrow> bool" where
  "is_ascii_digit b \<longleftrightarrow> 48 \<le> b \<and> b \<le> 57"

definition is_ascii_lowercase :: "u8 \<Rightarrow> bool" where
  "is_ascii_lowercase b \<longleftrightarrow> 97 \<le> b \<and> b \<le> 122"

definition is_ascii_uppercase :: "u8 \<Rightarrow> bool" where
  "is_ascii_uppercase b \<longleftrightarrow> 65 \<le> b \<and> b \<le> 90"

definition is_ascii_alphanumeric :: "u8 \<Rightarrow> bool" where
  "is_ascii_alphanumeric b \<longleftrightarrow> is_ascii_digit b \<or> is_ascii_lowercase b \<or> is_ascii_uppercase b"

definition ascii_lower :: "u8 \<Rightarrow> u8" where
  "ascii_lower b = (if is_ascii_uppercase b then b + 32 else b)"

definition to_ascii_lowercase :: "bytes \<Rightarrow> bytes" where
  "to_ascii_lowercase bs = map ascii_lower bs"

lemma ascii_lower_not_upper: "\<not> is_ascii_uppercase (ascii_lower b)"
proof (cases "is_ascii_uppercase b")
  case True
  then have "65 \<le> unat b" "unat b \<le> 90" by (simp_all add: is_ascii_uppercase_def word_le_nat_alt)
  moreover from this have "unat (b + 32) = unat b + 32" by (simp add: unat_word_ariths)
  ultimately show ?thesis using True by (simp add: ascii_lower_def is_ascii_uppercase_def word_le_nat_alt)
qed (simp add: ascii_lower_def)

lemma to_ascii_lowercase_id: "list_all (\<lambda>b. \<not> is_ascii_uppercase b) bs \<Longrightarrow> to_ascii_lowercase bs = bs"
  by (induction bs) (simp_all add: to_ascii_lowercase_def ascii_lower_def)

lemma to_ascii_lowercase_idem [simp]: "to_ascii_lowercase (to_ascii_lowercase bs) = to_ascii_lowercase bs"
  by (rule to_ascii_lowercase_id) (simp add: to_ascii_lowercase_def list_all_iff ascii_lower_not_upper)

lemma length_to_ascii_lowercase [simp]: "length (to_ascii_lowercase bs) = length bs"
  by (simp add: to_ascii_lowercase_def)

subsection \<open>Splitting and joining\<close>

text \<open>\<^verbatim>\<open>str::split(c)\<close> always yields at least one part; \<open>join_with\<close> is its inverse.\<close>

fun split_on :: "'a \<Rightarrow> 'a list \<Rightarrow> 'a list list" where
  "split_on c [] = [[]]"
| "split_on c (x # xs) = (if x = c then [] # split_on c xs
     else (case split_on c xs of p # ps \<Rightarrow> (x # p) # ps | [] \<Rightarrow> [[x]]))"

fun join_with :: "'a \<Rightarrow> 'a list list \<Rightarrow> 'a list" where
  "join_with c [] = []"
| "join_with c [p] = p"
| "join_with c (p # q # ps) = p @ c # join_with c (q # ps)"

lemma split_on_not_Nil [simp]: "split_on c xs \<noteq> []"
  by (induction xs) (auto split: list.splits)

lemma join_split [simp]: "join_with c (split_on c xs) = xs"
proof (induction xs)
  case (Cons x xs)
  obtain p ps where "split_on c xs = p # ps" by (cases "split_on c xs") auto
  with Cons show ?case by (cases ps) auto
qed simp

lemma split_on_parts: "p \<in> set (split_on c xs) \<Longrightarrow> c \<notin> set p"
  by (induction xs arbitrary: p) (auto split: if_splits list.splits)

lemma split_on_append: "c \<notin> set p \<Longrightarrow> split_on c (p @ c # xs) = p # split_on c xs"
  by (induction p) auto

lemma split_on_single: "c \<notin> set p \<Longrightarrow> split_on c p = [p]"
  by (induction p) auto

lemma split_join: "ps \<noteq> [] \<Longrightarrow> (\<And>p. p \<in> set ps \<Longrightarrow> c \<notin> set p) \<Longrightarrow> split_on c (join_with c ps) = ps"
  by (induction c ps rule: join_with.induct) (simp_all add: split_on_append split_on_single)

lemma split_on_iff:
  "split_on c xs = ps \<longleftrightarrow> ps \<noteq> [] \<and> xs = join_with c ps \<and> (\<forall>p \<in> set ps. c \<notin> set p)"
proof
  assume "split_on c xs = ps"
  then show "ps \<noteq> [] \<and> xs = join_with c ps \<and> (\<forall>p \<in> set ps. c \<notin> set p)"
    using split_on_parts [of _ c xs] by (metis join_split split_on_not_Nil)
qed (simp add: split_join)

text \<open>\<^verbatim>\<open>str::split_once(c)\<close>: cut at the first occurrence.\<close>

fun split_once :: "'a \<Rightarrow> 'a list \<Rightarrow> ('a list \<times> 'a list) option" where
  "split_once c [] = None"
| "split_once c (x # xs) = (if x = c then Some ([], xs)
     else (case split_once c xs of None \<Rightarrow> None | Some (p, r) \<Rightarrow> Some (x # p, r)))"

lemma split_once_append: "c \<notin> set p \<Longrightarrow> split_once c (p @ c # r) = Some (p, r)"
  by (induction p) auto

lemma split_once_Some: "split_once c xs = Some (p, r) \<Longrightarrow> xs = p @ c # r \<and> c \<notin> set p"
  by (induction xs arbitrary: p) (auto split: if_splits option.splits)

lemma split_once_None: "split_once c xs = None \<longleftrightarrow> c \<notin> set xs"
  by (induction xs) (auto split: option.splits)

text \<open>A half-open slice \<^verbatim>\<open>xs[a..b]\<close>; callers stay in range.\<close>

definition slice :: "nat \<Rightarrow> nat \<Rightarrow> 'a list \<Rightarrow> 'a list" where
  "slice a b xs = take (b - a) (drop a xs)"

subsection \<open>Lists\<close>

text \<open>\<^verbatim>\<open>as_chunks::<2>().0\<close>: the whole pairs, dropping an odd remainder.\<close>

fun pairs :: "'a list \<Rightarrow> ('a \<times> 'a) list" where
  "pairs (x # y # r) = (x, y) # pairs r"
| "pairs _ = []"

lemma pairs_concat [simp]: "pairs (concat (map (\<lambda>(k, v). [k, v]) kvs)) = kvs"
  by (induction kvs) auto

text \<open>\<^verbatim>\<open>slice.chunks(n)\<close>.\<close>

function chunks :: "nat \<Rightarrow> 'a list \<Rightarrow> 'a list list" where
  "chunks n xs = (if xs = [] then [] else if n = 0 then [xs] else take n xs # chunks n (drop n xs))"
  by pat_completeness auto
termination
  by (relation "measure (\<lambda>(n, xs). length xs)") (auto simp: length_greater_0_conv [symmetric] simp del: length_greater_0_conv)

declare chunks.simps [simp del]

lemma chunks_Nil [simp]: "chunks n [] = []"
  by (simp add: chunks.simps)

lemma concat_chunks [simp]: "concat (chunks n xs) = xs"
proof (induction n xs rule: chunks.induct)
  case (1 n xs)
  then show ?case by (cases "xs = [] \<or> n = 0") (auto simp: chunks.simps [of n xs])
qed

lemma chunks_eq_Nil [simp]: "chunks n xs = [] \<longleftrightarrow> xs = []"
  by (simp add: chunks.simps [of n xs])

lemma chunks_bound: "0 < n \<Longrightarrow> c \<in> set (chunks n xs) \<Longrightarrow> c \<noteq> [] \<and> length c \<le> n"
proof (induction n xs rule: chunks.induct)
  case (1 n xs)
  show ?case
  proof (cases "xs = []")
    case False
    with "1.prems" have "c = take n xs \<or> c \<in> set (chunks n (drop n xs))"
      by (simp add: chunks.simps [of n xs])
    with False "1" show ?thesis by auto
  qed (use "1.prems" in simp)
qed

subsection \<open>Entries sorted by key\<close>

text \<open>
  \<^verbatim>\<open>slice.partition_point(p)\<close> on a partitioned slice: how many leading elements satisfy the
  predicate. The maps of the source that are sorted vectors look a key up there.
\<close>

definition partition_point :: "('a \<Rightarrow> bool) \<Rightarrow> 'a list \<Rightarrow> nat" where
  "partition_point P xs = length (takeWhile P xs)"

abbreviation sorted_keys :: "('k::linorder \<times> 'v) list \<Rightarrow> bool" where
  "sorted_keys es \<equiv> sorted_wrt (<) (map fst es)"

lemma sorted_keys_split:
  assumes "sorted_keys es"
  obtains ls rs where "es = ls @ rs" "partition_point (\<lambda>e. fst e < k) es = length ls"
    "takeWhile (\<lambda>e. fst e < k) es = ls"
    "\<forall>e\<in>set ls. fst e < k" "\<forall>e\<in>set rs. k \<le> fst e"
    "sorted_keys ls" "sorted_keys rs" "rs = [] \<or> (\<forall>e\<in>set (tl rs). k < fst e)"
proof -
  let ?l = "takeWhile (\<lambda>e. fst e < k) es" and ?r = "dropWhile (\<lambda>e. fst e < k) es"
  have "sorted_keys (?l @ ?r)"
    using assms by (simp only: takeWhile_dropWhile_id)
  then have srt: "sorted_keys ?l" "sorted_keys ?r"
    unfolding map_append sorted_wrt_append by blast+
  have left: "\<forall>e\<in>set ?l. fst e < k" by (auto dest: set_takeWhileD)
  have right: "\<forall>e\<in>set ?r. k \<le> fst e \<and> (?r = [] \<or> (\<forall>e\<in>set (tl ?r). k < fst e))"
  proof (cases ?r)
    case (Cons x xs)
    then have "k \<le> fst x" using hd_dropWhile [of "\<lambda>e. fst e < k" es] by (auto simp: not_less)
    with Cons srt(2) show ?thesis by fastforce
  next
    case Nil
    show ?thesis unfolding Nil by simp
  qed
  have tail: "?r = [] \<or> (\<forall>e\<in>set (tl ?r). k < fst e)"
    using right by (cases ?r) simp_all
  show ?thesis
    by (rule that [of ?l ?r]) (use srt left right tail in \<open>simp_all add: partition_point_def\<close>)
qed

lemma sorted_keys_distinct: "sorted_keys es \<Longrightarrow> distinct (map fst es)"
  by (simp add: strict_sorted_iff)

text \<open>A key is either at its partition point, or absent and to be inserted there.\<close>

lemma sorted_keys_cases:
  assumes "sorted_keys es"
  obtains (hit) ls v rs where "es = ls @ (k, v) # rs" "partition_point (\<lambda>e. fst e < k) es = length ls"
      "\<forall>e\<in>set ls. fst e < k" "\<forall>e\<in>set rs. k < fst e" "sorted_keys ls" "sorted_keys rs"
  | (miss) ls rs where "es = ls @ rs" "partition_point (\<lambda>e. fst e < k) es = length ls"
      "\<forall>e\<in>set ls. fst e < k" "\<forall>e\<in>set rs. k < fst e" "sorted_keys ls" "sorted_keys rs"
proof -
  obtain ls rs where split: "es = ls @ rs" "partition_point (\<lambda>e. fst e < k) es = length ls"
    "takeWhile (\<lambda>e. fst e < k) es = ls" "\<forall>e\<in>set ls. fst e < k" "\<forall>e\<in>set rs. k \<le> fst e" "sorted_keys ls" "sorted_keys rs"
    "rs = [] \<or> (\<forall>e\<in>set (tl rs). k < fst e)"
    by (rule sorted_keys_split [OF assms, of k])
  show ?thesis
  proof (cases "rs \<noteq> [] \<and> fst (hd rs) = k")
    case True
    then obtain v rs' where "rs = (k, v) # rs'" by (cases rs) auto
    with split show ?thesis by (intro hit [of ls v rs']) simp_all
  next
    case False
    with split(5,8) have "\<forall>e\<in>set rs. k < fst e" by (cases rs) force+
    with split show ?thesis by (intro miss [of ls rs]) simp_all
  qed
qed

lemma sorted_keys_between:
  assumes "\<forall>e\<in>set ls. fst e < k" "\<forall>e\<in>set rs. k < fst e" "sorted_keys ls" "sorted_keys rs"
  shows "sorted_keys (ls @ (k, v) # rs)" "sorted_keys (ls @ rs)"
proof -
  have "fst a < fst b" if "a \<in> set ls" "b \<in> set rs" for a b
    using assms(1,2) that by (meson less_trans)
  with assms show "sorted_keys (ls @ (k, v) # rs)" "sorted_keys (ls @ rs)"
    by (simp_all add: sorted_wrt_append)
qed

lemma map_of_outside: "\<forall>e\<in>set es. fst e \<noteq> k \<Longrightarrow> map_of es k = None"
  by (auto simp: map_of_eq_None_iff)

lemma map_of_all_less: "\<forall>e\<in>set es. fst e < (k::'k::linorder) \<Longrightarrow> map_of es k = None"
  by (rule map_of_outside) auto

lemma map_of_all_greater: "\<forall>e\<in>set es. (k::'k::linorder) < fst e \<Longrightarrow> map_of es k = None"
  by (rule map_of_outside) auto

end
