(* ===== verification/Hex_Codec.thy ===== *)
theory Hex_Codec
  imports Radiata_Prelude
begin

text \<open>
  The canonical lowercase hexadecimal codec of \<^verbatim>\<open>src/hex.rs\<close>. A Rust string is the list of its
  bytes, which is what \<^verbatim>\<open>len\<close>, \<^verbatim>\<open>bytes\<close> and \<^verbatim>\<open>as_bytes\<close> read.
\<close>

unbundle bit_operations_syntax

subsection \<open>Operations\<close>

definition HEX :: bytes where
  "HEX = ascii ''0123456789abcdef''"

definition hex_encode :: "bytes \<Rightarrow> bytes" where
  "hex_encode bs = concat (map (\<lambda>b. [HEX ! unat (drop_bit 4 b), HEX ! unat (b AND 0x0F)]) bs)"

definition is_hex_digit :: "u8 \<Rightarrow> bool" where
  "is_hex_digit b \<longleftrightarrow> (48 \<le> b \<and> b \<le> 57) \<or> (97 \<le> b \<and> b \<le> 102)"

definition hex_value :: "u8 \<Rightarrow> string \<Rightarrow> u8 result" where
  "hex_value b c = (if 48 \<le> b \<and> b \<le> 57 then Inr (b - 48)
     else if 97 \<le> b \<and> b \<le> 102 then Inr (b - 97 + 10) else Inl (invalid_input c))"

definition hex_decode :: "bytes \<Rightarrow> string \<Rightarrow> bytes result" where
  "hex_decode s c = (if \<not> even (length s) \<or> \<not> list_all is_hex_digit s then Inl (invalid_input c)
     else rmap (\<lambda>(h, l). rbind (hex_value h c) (\<lambda>x. rbind (hex_value l c) (\<lambda>y. Inr (push_bit 4 x OR y))))
       (pairs s))"

definition hex_decode_array :: "nat \<Rightarrow> bytes \<Rightarrow> string \<Rightarrow> bytes result" where
  "hex_decode_array len s c = rbind (hex_decode s c) (\<lambda>bs. fixed_bytes len bs c)"

subsection \<open>One digit\<close>

lemma less_16_cases:
  "(n::nat) < 16 \<Longrightarrow> n \<in> {0, 1, 2, 3, 4, 5, 6, 7, 8, 9, 10, 11, 12, 13, 14, 15}"
  by simp presburger

lemma HEX_list: "HEX = [48, 49, 50, 51, 52, 53, 54, 55, 56, 57, 97, 98, 99, 100, 101, 102]"
  by (simp add: HEX_def ascii_def)

lemma HEX_length: "length HEX = 16"
  by (simp add: HEX_list)

lemma hex_value_HEX: "n < 16 \<Longrightarrow> hex_value (HEX ! n) c = Inr (of_nat n) \<and> is_hex_digit (HEX ! n)"
  by (drule less_16_cases) (auto simp: HEX_list hex_value_def is_hex_digit_def)

lemma is_hex_digit_HEX: "is_hex_digit b \<Longrightarrow> \<exists>n<16. b = HEX ! n"
proof -
  assume "is_hex_digit b"
  then have "(48 \<le> unat b \<and> unat b \<le> 57) \<or> (97 \<le> unat b \<and> unat b \<le> 102)"
    by (simp add: is_hex_digit_def word_le_nat_alt)
  then have "unat b \<in> {48, 49, 50, 51, 52, 53, 54, 55, 56, 57, 97, 98, 99, 100, 101, 102}"
    by simp presburger
  then have "unat b \<in> unat ` set HEX" by (simp add: HEX_list)
  then have "b \<in> set HEX" by (auto simp: word_unat_eq_iff [symmetric])
  then obtain n where "n < length HEX" "HEX ! n = b" by (auto simp only: in_set_conv_nth)
  then show ?thesis by (auto simp only: HEX_length)
qed

lemma hex_value_Inr:
  assumes "hex_value b c = Inr x"
  shows "is_hex_digit b \<and> unat x < 16 \<and> b = HEX ! unat x"
proof -
  from assms have hd: "is_hex_digit b"
    by (simp add: hex_value_def is_hex_digit_def split: if_splits)
  with is_hex_digit_HEX obtain n where n: "n < 16" "b = HEX ! n" by blast
  with hex_value_HEX [of n c] assms have "x = of_nat n" by simp
  with n have "unat x = n" by (simp add: unat_of_nat)
  with n hd show ?thesis by simp
qed

subsection \<open>One byte\<close>

lemma bit_15 [simp]: "bit (15 :: int) n \<longleftrightarrow> n < 4"
  using bit_mask_iff [of 4 n, where 'a = int] by (simp add: mask_eq_exp_minus_1)

lemma bit_nibble:
  fixes x :: u8
  assumes "unat x < 16"
  shows "bit x n \<Longrightarrow> n < 4"
proof -
  have "unat (take_bit 4 x) = unat x"
    using assms by (simp add: unsigned_take_bit_eq take_bit_nat_eq_self)
  then have "take_bit 4 x = x" by (simp only: word_unat_eq_iff)
  then show "bit x n \<Longrightarrow> n < 4" by (metis bit_take_bit_iff)
qed

lemma nibbles_join: "push_bit 4 (drop_bit 4 b) OR (b AND 15) = (b :: u8)"
  by (rule bit_eqI) (auto simp: bit_or_iff bit_and_iff bit_push_bit_iff bit_drop_bit_eq not_less)

lemma nibbles_split:
  fixes x y :: u8
  assumes x: "unat x < 16" and y: "unat y < 16"
  shows "drop_bit 4 (push_bit 4 x OR y) = x" "(push_bit 4 x OR y) AND 15 = y"
proof -
  show "drop_bit 4 (push_bit 4 x OR y) = x"
    using bit_nibble [OF x] bit_nibble [OF y] by (intro bit_eqI) (force simp: bit_simps)
  show "(push_bit 4 x OR y) AND 15 = y"
    using bit_nibble [OF y] by (intro bit_eqI) (auto simp: bit_or_iff bit_and_iff bit_push_bit_iff)
qed

lemma nibble_bounds: "unat (drop_bit 4 (b :: u8)) < 16" "unat (b AND 15) < 16"
proof -
  show "unat (drop_bit 4 b) < 16"
    unfolding unat_drop_bit_eq using unat_u8_less [of b] by (simp add: drop_bit_eq_div less_mult_imp_div_less)
  have "b AND 15 \<le> 15" by (rule word_and_le1)
  then show "unat (b AND 15) < 16" by (simp add: word_le_nat_alt)
qed

subsection \<open>The codec\<close>

lemma encode_simps [simp]: "hex_encode [] = []"
  "hex_encode (b # bs) = HEX ! unat (drop_bit 4 b) # HEX ! unat (b AND 15) # hex_encode bs"
  by (simp_all add: hex_encode_def)

lemma length_encode [simp]: "length (hex_encode bs) = 2 * length bs"
  by (induction bs) simp_all

lemma decode_encode: "hex_decode (hex_encode bs) c = Inr bs"
proof -
  have "list_all is_hex_digit (hex_encode bs)"
    by (induction bs) (simp_all add: hex_value_HEX nibble_bounds)
  moreover have "rmap (\<lambda>(h, l). rbind (hex_value h c) (\<lambda>x. rbind (hex_value l c) (\<lambda>y. Inr (push_bit 4 x OR y))))
       (pairs (hex_encode bs)) = Inr bs"
    by (induction bs) (simp_all add: hex_value_HEX nibble_bounds nibbles_join)
  ultimately show ?thesis by (simp add: hex_decode_def)
qed

lemma pairs_encode:
  assumes "rmap (\<lambda>(h, l). rbind (hex_value h c) (\<lambda>x. rbind (hex_value l c) (\<lambda>y. Inr (push_bit 4 x OR y))))
       (pairs s) = Inr bs" and "even (length s)"
  shows "hex_encode bs = s"
  using assms
proof (induction s arbitrary: bs rule: pairs.induct)
  case (1 h l r)
  then obtain x y bs' where hl: "hex_value h c = Inr x" "hex_value l c = Inr y"
    and bs: "bs = (push_bit 4 x OR y) # bs'" "hex_encode bs' = r" by auto
  from hex_value_Inr [OF hl(1)] hex_value_Inr [OF hl(2)]
  have "drop_bit 4 (push_bit 4 x OR y) = x" "(push_bit 4 x OR y) AND 15 = y" by (blast intro: nibbles_split)+
  with hex_value_Inr [OF hl(1)] hex_value_Inr [OF hl(2)] bs show ?case
    by (simp only: encode_simps)
qed auto

interpretation hex: canonical_codec hex_encode "\<lambda>s. hex_decode s c" "\<lambda>_. True"
proof
  show "hex_decode (hex_encode bs) c = Inr bs" for bs by (rule decode_encode)
  show "True \<and> hex_encode bs = s" if "hex_decode s c = Inr bs" for s bs
    using that by (auto simp: hex_decode_def split: if_splits intro: pairs_encode)
qed

lemma rmap_hex_Inl:
  "rmap (\<lambda>(h, l). rbind (hex_value h c) (\<lambda>x. rbind (hex_value l c) (\<lambda>y. Inr (push_bit 4 x OR y)))) ps = Inl e \<Longrightarrow>
     e = invalid_input c"
  by (induction ps) (auto simp: rbind_eq_Inl hex_value_def split: if_splits)

lemma decode_Inl: "hex_decode s c = Inl e \<Longrightarrow> e = invalid_input c"
  by (auto simp: hex_decode_def dest: rmap_hex_Inl split: if_splits)

text \<open>
  C39: Hexadecimal decoding is total and canonical. A string decodes to bytes exactly when it is
  the lowercase encoding of those bytes, so no value has two spellings; every other string is
  refused with the caller's context; the fixed-width form accepts exactly the encodings of
  values of that width.
\<close>

theorem hex_decode_canonical:
  "(hex_decode s c = Inr bs \<longleftrightarrow> s = hex_encode bs) \<and>
   (hex_decode s c = Inl e \<longleftrightarrow> e = invalid_input c \<and> (\<forall>bs. s \<noteq> hex_encode bs)) \<and>
   (hex_decode_array n s c = Inr bs \<longleftrightarrow> s = hex_encode bs \<and> length bs = n)"
proof -
  have iff: "hex_decode s c = Inr bs \<longleftrightarrow> s = hex_encode bs" for bs
    using hex.dec_iff [of s c bs] by auto
  have "hex_decode s c = Inl e \<longleftrightarrow> e = invalid_input c \<and> (\<forall>bs. s \<noteq> hex_encode bs)"
    using iff decode_Inl [of s c] by (cases "hex_decode s c") auto
  moreover have "hex_decode_array n s c = Inr bs \<longleftrightarrow> s = hex_encode bs \<and> length bs = n"
    using iff by (auto simp: hex_decode_array_def)
  ultimately show ?thesis using iff by blast
qed

end
