(* ===== verification/Identifiers.thy ===== *)
theory Identifiers
  imports Radiata_Prelude "HOL-Library.List_Lexorder"
begin

text \<open>
  The canonical identifiers of \<^verbatim>\<open>src/identity/id.rs\<close>: the base-36 suffix, its rejection sampling
  from the node's entropy source, the shape check, and the task identifiers composed from an
  incarnation base and an admission counter. The entropy source is a trait a deployment
  provides; it is the parameter \<open>fill\<close>, which returns the requested bytes or an error and the
  source's next state.
\<close>

unbundle bit_operations_syntax

subsection \<open>Suffixes\<close>

type_synonym u128 = "128 word"

definition RANDOM_SUFFIX_LEN :: nat where
  "RANDOM_SUFFIX_LEN = 21"

definition SUFFIX_ALPHABET :: bytes where
  "SUFFIX_ALPHABET = ascii ''0123456789abcdefghijklmnopqrstuvwxyz''"

definition SEPARATOR :: u8 where
  "SEPARATOR = of_char CHR ''-''"

definition SUFFIX_DRAW_BYTES :: nat where
  "SUFFIX_DRAW_BYTES = 14"

primrec suffix_space_loop :: "nat \<Rightarrow> u128 \<Rightarrow> u128" where
  "suffix_space_loop 0 space = space"
| "suffix_space_loop (Suc n) space = suffix_space_loop n (space * 36)"

definition SUFFIX_SPACE :: u128 where
  "SUFFIX_SPACE = suffix_space_loop RANDOM_SUFFIX_LEN 1"

text \<open>
  The suffix is written from its last place to its first; \<open>acc\<close> holds the places already
  written. The conversion of the digit to \<^verbatim>\<open>usize\<close> fails only above 64 bits.
\<close>

primrec suffix_loop :: "nat \<Rightarrow> u128 \<Rightarrow> bytes \<Rightarrow> bytes result" where
  "suffix_loop 0 v acc = Inr acc"
| "suffix_loop (Suc i) v acc =
     rbind (guard (unat (v mod 36) < 2 ^ 64) (internal ''id suffix digit''))
       (\<lambda>_. suffix_loop i (v div 36) (SUFFIX_ALPHABET ! unat (v mod 36) # acc))"

definition encode_suffix :: "u128 \<Rightarrow> bytes result" where
  "encode_suffix v = rbind (suffix_loop RANDOM_SUFFIX_LEN v [])
     (\<lambda>s. if utf8_valid s then Inr s else Inl (internal ''id suffix''))"

definition prefixed_id :: "bytes \<Rightarrow> u128 \<Rightarrow> bytes result" where
  "prefixed_id prefix v = rbind (encode_suffix v) (\<lambda>s. Inr (prefix @ SEPARATOR # s))"

subsection \<open>Validation\<close>

definition is_suffix_char :: "u8 \<Rightarrow> bool" where
  "is_suffix_char b \<longleftrightarrow> (48 \<le> b \<and> b \<le> 57) \<or> (97 \<le> b \<and> b \<le> 122)"

definition validate_id :: "bytes \<Rightarrow> bytes \<Rightarrow> string \<Rightarrow> unit result" where
  "validate_id v prefix c =
    (let sep = length prefix; expected = sep + 1 + RANDOM_SUFFIX_LEN in
     if length v \<noteq> expected \<or> take (length prefix) v \<noteq> prefix \<or> v ! sep \<noteq> SEPARATOR \<or>
        \<not> list_all is_suffix_char (drop (sep + 1) v)
     then Inl (invalid_input c) else Inr ())"

text \<open>The \<^verbatim>\<open>parse\<close> that \<^verbatim>\<open>canonical_id!\<close> generates for a family.\<close>

definition parse_id :: "bytes \<Rightarrow> string \<Rightarrow> bytes \<Rightarrow> bytes result" where
  "parse_id prefix c v = rbind (validate_id v prefix c) (\<lambda>_. Inr v)"

subsection \<open>Random identifiers\<close>

text \<open>
  The rejection loop may run forever on an unlucky source, so it is a partial function: not
  returning is \<open>None\<close>.
\<close>

definition draw_value :: "bytes \<Rightarrow> u128" where
  "draw_value draw = of_nat (of_be_bytes (replicate (16 - SUFFIX_DRAW_BYTES) 0 @ draw))"

partial_function (option) random_prefixed_id ::
  "('s \<Rightarrow> nat \<Rightarrow> bytes result \<times> 's) \<Rightarrow> bytes \<Rightarrow> 's \<Rightarrow> (bytes result \<times> 's) option" where
  "random_prefixed_id fill prefix s =
    (case fill s SUFFIX_DRAW_BYTES of
       (Inl e, s') \<Rightarrow> Some (Inl e, s')
     | (Inr draw, s') \<Rightarrow>
         if draw_value draw < SUFFIX_SPACE then Some (prefixed_id prefix (draw_value draw), s')
         else random_prefixed_id fill prefix s')"

subsection \<open>Task identifiers\<close>

definition TASK_COUNTER_BITS :: nat where
  "TASK_COUNTER_BITS = 40"

definition TASK_COUNTER_LIMIT :: u128 where
  "TASK_COUNTER_LIMIT = push_bit TASK_COUNTER_BITS 1"

definition TASK_BASE_MASK :: u128 where
  "TASK_BASE_MASK = (push_bit 108 1 - 1) AND NOT (TASK_COUNTER_LIMIT - 1)"

definition compose_task_id :: "u128 \<Rightarrow> u64 \<Rightarrow> bytes result" where
  "compose_task_id base counter =
    (let c = ucast counter :: u128 in
     if TASK_COUNTER_LIMIT \<le> c then Inl (resource_exhausted ''task id counter'')
     else rbind (prefixed_id (ascii ''task'') ((base AND TASK_BASE_MASK) OR c))
       (parse_id (ascii ''task'') ''task id''))"

definition draw_base :: "('s \<Rightarrow> nat \<Rightarrow> bytes result \<times> 's) \<Rightarrow> 's \<Rightarrow> u128 result \<times> 's" where
  "draw_base fill s = (case fill s SUFFIX_DRAW_BYTES of
      (Inl e, s') \<Rightarrow> (Inl e, s') | (Inr draw, s') \<Rightarrow> (Inr (draw_value draw), s'))"

definition generate_operation_id :: "('s \<Rightarrow> nat \<Rightarrow> bytes result \<times> 's) \<Rightarrow> 's \<Rightarrow> bytes result \<times> 's" where
  "generate_operation_id fill s = fill s 16"

subsection \<open>Suffixes as base-36 numerals\<close>

fun base36 :: "nat \<Rightarrow> nat \<Rightarrow> nat list" where
  "base36 0 k = []"
| "base36 (Suc n) k = base36 n (k div 36) @ [k mod 36]"

abbreviation suffix_of :: "nat \<Rightarrow> nat \<Rightarrow> bytes" where
  "suffix_of n k \<equiv> map (\<lambda>d. SUFFIX_ALPHABET ! d) (base36 n k)"

lemma length_base36 [simp]: "length (base36 n k) = n"
  by (induction n arbitrary: k) simp_all

lemma base36_digits: "d \<in> set (base36 n k) \<Longrightarrow> d < 36"
  by (induction n arbitrary: k) auto

lemma suffix_loop_eq: "suffix_loop n v acc = Inr (suffix_of n (unat v) @ acc)"
proof (induction n arbitrary: v acc)
  case (Suc n)
  have "unat v mod 36 < 2 ^ 64" by (rule less_trans [of _ 36]) simp_all
  with Suc show ?case by (simp add: unat_mod unat_div)
qed simp

lemma alphabet_list: "SUFFIX_ALPHABET = map of_nat ([48..<58] @ [97..<123])"
  by (simp add: SUFFIX_ALPHABET_def ascii_def upt_rec)

lemma alphabet_length: "length SUFFIX_ALPHABET = 36"
  by (simp add: alphabet_list)

lemma alphabet_nth: "d < 36 \<Longrightarrow> SUFFIX_ALPHABET ! d = of_nat (if d < 10 then 48 + d else 87 + d)"
proof -
  assume d: "d < 36"
  have "([48..<58] @ [97..<123]) ! d = (if d < 10 then 48 + d else 87 + d)"
    using d by (auto simp only: nth_append length_upt nth_upt split: if_splits)
  moreover have "d < length ([48..<58] @ [97..<123])"
    using d by (simp only: length_append length_upt)
  ultimately show ?thesis by (simp only: alphabet_list nth_map)
qed

lemma unat_alphabet: "d < 36 \<Longrightarrow> unat (SUFFIX_ALPHABET ! d) = (if d < 10 then 48 + d else 87 + d)"
  by (simp add: alphabet_nth unat_of_nat)

lemma alphabet_mono: "d < d' \<Longrightarrow> d' < 36 \<Longrightarrow> SUFFIX_ALPHABET ! d < SUFFIX_ALPHABET ! d'"
  by (simp add: word_less_nat_alt unat_alphabet)

lemma alphabet_suffix_char: "d < 36 \<Longrightarrow> is_suffix_char (SUFFIX_ALPHABET ! d)"
  by (simp add: is_suffix_char_def word_le_nat_alt unat_alphabet)

lemma suffix_char_alphabet: "is_suffix_char b \<Longrightarrow> \<exists>d<36. b = SUFFIX_ALPHABET ! d"
proof -
  assume b: "is_suffix_char b"
  define d where "d = (if unat b \<le> 57 then unat b - 48 else unat b - 87)"
  from b have "(48 \<le> unat b \<and> unat b \<le> 57) \<or> (97 \<le> unat b \<and> unat b \<le> 122)"
    by (simp add: is_suffix_char_def word_le_nat_alt)
  then have "d < 36" "unat (SUFFIX_ALPHABET ! d) = unat b"
    by (auto simp: d_def unat_alphabet)
  then show ?thesis by (auto simp: word_unat_eq_iff)
qed

lemma encode_suffix_eq: "encode_suffix v = Inr (suffix_of 21 (unat v))"
proof -
  have "SUFFIX_ALPHABET ! d \<le> 0x7F" if "d < 36" for d
    using that by (simp add: word_le_nat_alt unat_alphabet)
  then have "utf8_valid (suffix_of 21 (unat v))"
    by (intro utf8_valid_ascii) (auto simp: list_all_iff dest: base36_digits)
  then show ?thesis by (simp add: encode_suffix_def suffix_loop_eq RANDOM_SUFFIX_LEN_def)
qed

lemma prefixed_id_eq: "prefixed_id p v = Inr (p @ SEPARATOR # suffix_of 21 (unat v))"
  by (simp add: prefixed_id_def encode_suffix_eq)

subsection \<open>Order and injectivity\<close>

lemma lex_snoc:
  fixes x y :: "'a::order"
  assumes "length xs = length ys" and "xs < ys \<or> xs = ys \<and> x < y"
  shows "xs @ [x] < ys @ [y]"
  using assms unfolding list_less_def by (auto intro: lexord_sufI lexord_append_leftI)

lemma suffix_of_mono: "k < k' \<Longrightarrow> k' < 36 ^ n \<Longrightarrow> suffix_of n k < suffix_of n k'"
proof (induction n arbitrary: k k')
  case (Suc n)
  have bound: "k' div 36 < 36 ^ n" using Suc.prems(2) by (simp add: less_mult_imp_div_less mult.commute)
  consider "k div 36 < k' div 36" | "k div 36 = k' div 36" "k mod 36 < k' mod 36"
    using Suc.prems(1) by (metis div_le_mono div_mod_decomp le_neq_implies_less less_imp_le_nat
        nat_add_left_cancel_less)
  then show ?case
    using Suc.IH [OF _ bound] by cases (simp_all add: lex_snoc alphabet_mono)
qed simp

lemma suffix_of_inject: "k < 36 ^ n \<Longrightarrow> k' < 36 ^ n \<Longrightarrow> suffix_of n k = suffix_of n k' \<longleftrightarrow> k = k'"
  using suffix_of_mono [of k k' n] suffix_of_mono [of k' k n] by (metis less_irrefl linorder_neqE_nat)

lemma suffix_of_surj:
  "list_all is_suffix_char s \<Longrightarrow> \<exists>k < 36 ^ length s. s = suffix_of (length s) k"
proof (induction s rule: rev_induct)
  case (snoc b s)
  then obtain k d where k: "k < 36 ^ length s" "s = suffix_of (length s) k"
    and d: "d < 36" "b = SUFFIX_ALPHABET ! d" using suffix_char_alphabet [of b] by auto
  have "k * 36 + d < 36 ^ length (s @ [b])" using k(1) d(1) by simp
  moreover have "s @ [b] = suffix_of (length (s @ [b])) (k * 36 + d)" using k(2) d by simp
  ultimately show ?case by blast
qed simp

lemma suffix_space_loop_eq: "suffix_space_loop n v = v * 36 ^ n"
  by (induction n arbitrary: v) (simp_all add: mult.assoc)

lemma suffix_space: "unat SUFFIX_SPACE = 36 ^ 21"
  by (simp add: SUFFIX_SPACE_def RANDOM_SUFFIX_LEN_def suffix_space_loop_eq)

lemma validate_id_iff:
  "validate_id s p c = Inr () \<longleftrightarrow> (\<exists>t. s = p @ SEPARATOR # t \<and> length t = 21 \<and> list_all is_suffix_char t)"
  (is "?l \<longleftrightarrow> ?r")
proof
  assume ?l
  then have v: "length s = length p + 1 + 21" "take (length p) s = p" "s ! length p = SEPARATOR"
    "list_all is_suffix_char (drop (length p + 1) s)"
    by (auto simp: validate_id_def RANDOM_SUFFIX_LEN_def Let_def split: if_splits)
  have "s = take (length p) s @ s ! length p # drop (Suc (length p)) s"
    using v(1) by (intro id_take_nth_drop) simp
  then have "s = p @ SEPARATOR # drop (length p + 1) s" using v(2,3) by simp
  moreover have "length (drop (length p + 1) s) = 21" using v(1) by simp
  ultimately show ?r using v(4) by blast
next
  assume ?r
  then show ?l by (auto simp: validate_id_def RANDOM_SUFFIX_LEN_def)
qed

lemma validate_id_error: "validate_id s p c = Inl e \<Longrightarrow> e = invalid_input c"
  by (auto simp: validate_id_def Let_def split: if_splits)

lemma prefixed_id_valid: "prefixed_id p v = Inr s \<Longrightarrow> validate_id s p c = Inr ()"
  unfolding validate_id_iff prefixed_id_eq
  by (intro exI [of _ "suffix_of 21 (unat v)"]) (auto simp: list_all_iff dest: base36_digits intro: alphabet_suffix_char)

text \<open>
  C32: The identifier check accepts exactly the generated names: a string passes under a family
  prefix when, and only when, it is the name of one number below the suffix space, and that
  number is unique. Hence generation is onto the valid names and never gives two numbers one name.
\<close>

theorem identifiers_exactly_generated:
  "validate_id s p c = Inr () \<longleftrightarrow> (\<exists>!v. v < SUFFIX_SPACE \<and> prefixed_id p v = Inr s)"
proof
  assume "validate_id s p c = Inr ()"
  then obtain t where t: "s = p @ SEPARATOR # t" "length t = 21" "list_all is_suffix_char t"
    by (auto simp: validate_id_iff)
  from suffix_of_surj [OF t(3)] t(2) obtain k where k: "k < 36 ^ 21" "t = suffix_of 21 k" by auto
  have "k < 2 ^ 128" by (rule less_trans [OF k(1)]) simp
  then have u: "unat (of_nat k :: u128) = k" by (simp add: unat_of_nat take_bit_nat_eq_self)
  show "\<exists>!v. v < SUFFIX_SPACE \<and> prefixed_id p v = Inr s"
  proof (intro ex1I conjI)
    show "(of_nat k :: u128) < SUFFIX_SPACE" using k(1) u by (simp only: word_less_nat_alt suffix_space)
    show "prefixed_id p (of_nat k) = Inr s" by (simp only: prefixed_id_eq u t(1) k(2))
    fix v assume v: "v < SUFFIX_SPACE \<and> prefixed_id p v = Inr s"
    then have "unat v < 36 ^ 21" by (simp only: word_less_nat_alt suffix_space)
    moreover have "suffix_of 21 (unat v) = suffix_of 21 k" using v t k by (simp add: prefixed_id_eq)
    ultimately have "unat v = k" using suffix_of_inject k(1) by blast
    then show "v = of_nat k" by (simp add: word_unat_eq_iff u)
  qed
next
  assume "\<exists>!v. v < SUFFIX_SPACE \<and> prefixed_id p v = Inr s"
  then show "validate_id s p c = Inr ()" using prefixed_id_valid by blast
qed

subsection \<open>Random identifiers\<close>

text \<open>
  C40: Rejection sampling stops at the first draw below the suffix space and names exactly that
  draw, leaving the source in the state after it; the name it returns passes the family's check.
\<close>

theorem random_id_first_accepted:
  assumes "\<And>i. i < k \<Longrightarrow> fill (st i) SUFFIX_DRAW_BYTES = (Inr (d i), st (Suc i)) \<and> \<not> draw_value (d i) < SUFFIX_SPACE"
    and "fill (st k) SUFFIX_DRAW_BYTES = (Inr (d k), st (Suc k))" and "draw_value (d k) < SUFFIX_SPACE"
  shows "\<exists>s. random_prefixed_id fill p (st 0) = Some (Inr s, st (Suc k)) \<and>
    prefixed_id p (draw_value (d k)) = Inr s \<and> validate_id s p c = Inr ()"
proof -
  have "random_prefixed_id fill p (st (k - j)) = Some (prefixed_id p (draw_value (d k)), st (Suc k))"
    if "j \<le> k" for j
    using that
  proof (induction j)
    case 0
    then show ?case using assms(2,3) by (simp add: random_prefixed_id.simps)
  next
    case (Suc j)
    then have "Suc (k - Suc j) = k - j" by simp
    with Suc assms(1) [of "k - Suc j"] show ?case
      by (subst random_prefixed_id.simps) simp
  qed
  from this [of k] have "random_prefixed_id fill p (st 0) = Some (prefixed_id p (draw_value (d k)), st (Suc k))"
    by simp
  with prefixed_id_valid [OF prefixed_id_eq] show ?thesis by (simp add: prefixed_id_eq)
qed

lemma of_be_bytes_zeros [simp]: "of_be_bytes (replicate n 0 @ bs) = of_be_bytes bs"
  by (induction n) (simp_all add: of_be_bytes_def)

lemma of_be_bytes_ones: "Suc (of_be_bytes (replicate n 255)) = 256 ^ n"
proof (induction n)
  case (Suc n)
  have "of_be_bytes (replicate (Suc n) 255) = of_be_bytes (replicate n 255) * 256 + 255"
    by (simp only: replicate_Suc replicate_append_same [symmetric] of_be_bytes_snoc) simp
  with Suc show ?case by simp
qed simp

lemma draw_value_samples:
  "draw_value (replicate 14 0) < SUFFIX_SPACE" "\<not> draw_value (replicate 14 255) < SUFFIX_SPACE"
proof -
  have "draw_value (replicate 14 0) = 0"
    using of_be_bytes_zeros [of 14 "[]"] by (simp only: draw_value_def of_be_bytes_zeros append_Nil2) simp
  then show "draw_value (replicate 14 0) < SUFFIX_SPACE" by (simp add: word_less_nat_alt suffix_space)
  have "of_be_bytes (replicate 14 255) = 5192296858534827628530496329220095"
    using of_be_bytes_ones [of 14] by simp
  then have "draw_value (replicate 14 255) = 5192296858534827628530496329220095"
    by (simp only: draw_value_def of_be_bytes_zeros) simp
  then show "\<not> draw_value (replicate 14 255) < SUFFIX_SPACE" by (simp add: word_less_nat_alt suffix_space)
qed

theorem random_id_first_accepted_witness:
  "\<exists>s. random_prefixed_id (\<lambda>i n. (Inr (replicate n (if i < (2::nat) then 255 else 0)), Suc i)) (ascii ''node'') 0 =
     Some (Inr s, Suc 2) \<and> validate_id s (ascii ''node'') ''node id'' = Inr ()"
  using random_id_first_accepted
      [of 2 "\<lambda>i n. (Inr (replicate n (if i < (2::nat) then 255 else 0)), Suc i)" "\<lambda>i. i"
        "\<lambda>i. replicate 14 (if i < 2 then 255 else 0)" "ascii ''node''" "''node id''"]
  by (force simp only: draw_value_samples SUFFIX_DRAW_BYTES_def if_True if_False simp_thms less_irrefl
      cong: if_cong)

subsection \<open>Task identifiers\<close>

lemma counter_limit: "TASK_COUNTER_LIMIT = 2 ^ 40"
  by (simp add: TASK_COUNTER_LIMIT_def TASK_COUNTER_BITS_def push_bit_eq_mult)

lemma task_base_mask: "TASK_BASE_MASK = mask 108 AND NOT (mask 40)"
  by (simp add: TASK_BASE_MASK_def counter_limit mask_eq_exp_minus_1 push_bit_eq_mult)

lemma unat_ucast_u128 [simp]: "unat (ucast (c :: u64) :: u128) = unat c"
proof -
  have "unat c < 2 ^ 128" using unsigned_less [of c] by (rule less_trans) simp
  then show ?thesis by (simp add: unsigned_ucast_eq take_bit_nat_eq_self)
qed

lemma counter_refused: "TASK_COUNTER_LIMIT \<le> ucast c \<longleftrightarrow> 2 ^ 40 \<le> unat (c :: u64)"
  by (simp add: counter_limit word_le_nat_alt)

text \<open>Below the counter limit the composition is a sum and stays inside the suffix space.\<close>

lemma compose_value:
  fixes b :: u128 and c :: u64
  assumes "unat c < 2 ^ 40"
  shows "unat ((b AND TASK_BASE_MASK) OR ucast c) = unat (b AND TASK_BASE_MASK) + unat c"
    and "unat ((b AND TASK_BASE_MASK) OR ucast c) < 36 ^ 21"
proof -
  let ?c = "ucast c :: u128" and ?m = "b AND TASK_BASE_MASK"
  have "unat (take_bit 40 ?c) = unat ?c"
    using assms by (simp only: unsigned_take_bit_eq unat_ucast_u128 take_bit_nat_eq_self)
  then have c40: "take_bit 40 ?c = ?c" by (simp only: word_unat_eq_iff)
  have "?m AND ?c = ?m AND (?c AND mask 40)" by (simp only: c40 [unfolded take_bit_eq_mask])
  also have "\<dots> = 0"
    by (simp add: task_base_mask and.assoc and.left_commute)
  finally have disj: "?m AND ?c = 0" .
  have "(?m OR ?c) AND mask 108 = ?m OR ?c"
  proof (rule bit_eqI)
    fix n
    have "bit ?c n \<Longrightarrow> n < 40" using c40 by (metis bit_take_bit_iff)
    then show "bit ((?m OR ?c) AND mask 108) n = bit (?m OR ?c) n"
      by (auto simp: bit_or_iff bit_and_iff bit_mask_iff task_base_mask)
  qed
  then have "unat (?m OR ?c) = unat (take_bit 108 (?m OR ?c))" by (simp only: take_bit_eq_mask)
  also have "\<dots> = take_bit 108 (unat (?m OR ?c))" by (simp only: unsigned_take_bit_eq)
  also have "\<dots> < 2 ^ 108" by (rule take_bit_nat_less_exp)
  finally have small: "unat (?m OR ?c) < 2 ^ 108" .
  also have "(2::nat) ^ 108 < 36 ^ 21" by simp
  finally show "unat (?m OR ?c) < 36 ^ 21" .
  have "unat ?m AND unat ?c = 0" using disj by (metis unsigned_and_eq unsigned_0)
  from disjunctive_add_eq_or [OF this] show "unat (?m OR ?c) = unat ?m + unat c"
    by (simp only: unsigned_or_eq unat_ucast_u128)
qed

lemma compose_task_id_eq:
  "compose_task_id b c = (if unat c < 2 ^ 40
     then Inr (ascii ''task'' @ SEPARATOR # suffix_of 21 (unat (b AND TASK_BASE_MASK) + unat c))
     else Inl (resource_exhausted ''task id counter''))"
proof (cases "unat c < 2 ^ 40")
  case True
  then have "\<not> TASK_COUNTER_LIMIT \<le> ucast c" by (simp only: counter_refused not_le)
  with prefixed_id_valid [OF prefixed_id_eq, of "ascii ''task''" "(b AND TASK_BASE_MASK) OR ucast c"]
  show ?thesis
    using True by (simp add: compose_task_id_def prefixed_id_eq parse_id_def compose_value(1) Let_def)
next
  case False
  then have "TASK_COUNTER_LIMIT \<le> ucast c" by (simp only: counter_refused not_less)
  with False show ?thesis by (simp add: compose_task_id_def)
qed

lemma lex_prefix:
  fixes xs ys :: "'a::order list"
  shows "xs < ys \<Longrightarrow> zs @ xs < zs @ ys"
  unfolding list_less_def by (rule lexord_append_leftI)

text \<open>
  C34: Within one incarnation task identifiers sort in admission order: composing a smaller and a
  larger counter with the same base gives two names, and the string order of the names is the
  order of the counters. A counter is refused, with the typed exhaustion error, exactly from
  two to the fortieth on.
\<close>

theorem task_ids_in_admission_order:
  assumes "c1 < c2" and "unat c2 < 2 ^ 40"
  shows "(\<exists>i1 i2. compose_task_id b c1 = Inr i1 \<and> compose_task_id b c2 = Inr i2 \<and> i1 < i2) \<and>
    (compose_task_id b c = Inl e \<longleftrightarrow> 2 ^ 40 \<le> unat c \<and> e = resource_exhausted ''task id counter'')"
proof -
  let ?m = "unat (b AND TASK_BASE_MASK)"
  have lt: "?m + unat c1 < ?m + unat c2" using assms(1) by (simp only: word_less_nat_alt nat_add_left_cancel_less)
  have "?m + unat c2 < 36 ^ 21" using compose_value [OF assms(2), of b] by (simp only:)
  from lex_prefix [OF suffix_of_mono [OF lt this], of "ascii ''task'' @ [SEPARATOR]"]
  have "ascii ''task'' @ SEPARATOR # suffix_of 21 (?m + unat c1) < ascii ''task'' @ SEPARATOR # suffix_of 21 (?m + unat c2)"
    by (simp only: append_assoc append_Cons append_Nil)
  moreover have "unat c1 < 2 ^ 40" using assms by (meson less_trans word_less_nat_alt)
  ultimately show ?thesis using assms(2) by (simp add: compose_task_id_eq not_less eq_commute)
qed

theorem task_ids_in_admission_order_witness:
  "\<exists>i1 i2. compose_task_id 7 1 = Inr i1 \<and> compose_task_id 7 2 = Inr i2 \<and> i1 < i2"
  using task_ids_in_admission_order [of 1 2 7] by simp

text \<open>
  The comment on the draw width puts the suffix space at 4.4e32 and the acceptance rate at
  about eight per cent. The space is 36 to the 21, which exceeds 4.8e32, so more than nine
  per cent of the 112-bit draws are accepted.
\<close>

theorem suffix_acceptance_rate:
  "48 * 10 ^ 31 < unat SUFFIX_SPACE \<and> 9 * 2 ^ (8 * SUFFIX_DRAW_BYTES) < 100 * unat SUFFIX_SPACE"
  by (simp add: suffix_space SUFFIX_DRAW_BYTES_def)

end
