(* ===== verification/Ordered_Map.thy ===== *)
theory Ordered_Map
  imports Radiata_Prelude
begin

text \<open>
  The standard library's \<^verbatim>\<open>BTreeMap\<close> as the components use it: a list of pairs in strictly
  ascending key order, which is what iteration yields. The abstraction to a finite map is
  \<^const>\<open>map_of\<close>.
\<close>

type_synonym ('k, 'v) btree = "('k \<times> 'v) list"

fun bt_insert :: "'k::linorder \<Rightarrow> 'v \<Rightarrow> ('k, 'v) btree \<Rightarrow> ('k, 'v) btree" where
  "bt_insert k v [] = [(k, v)]"
| "bt_insert k v ((k', v') # m) = (if k < k' then (k, v) # (k', v') # m
     else if k = k' then (k, v) # m else (k', v') # bt_insert k v m)"

definition bt_remove :: "'k \<Rightarrow> ('k, 'v) btree \<Rightarrow> ('k, 'v) btree" where
  "bt_remove k m = filter (\<lambda>p. fst p \<noteq> k) m"

definition bt_retain :: "('k \<Rightarrow> 'v \<Rightarrow> bool) \<Rightarrow> ('k, 'v) btree \<Rightarrow> ('k, 'v) btree" where
  "bt_retain P m = filter (\<lambda>(k, v). P k v) m"

abbreviation bt_get :: "('k, 'v) btree \<Rightarrow> 'k \<Rightarrow> 'v option" where
  "bt_get m k \<equiv> map_of m k"

abbreviation bt_contains :: "('k, 'v) btree \<Rightarrow> 'k \<Rightarrow> bool" where
  "bt_contains m k \<equiv> map_of m k \<noteq> None"

lemma bt_insert_keys: "fst ` set (bt_insert k v m) = insert k (fst ` set m)"
proof (induction m)
  case (Cons p m)
  obtain k' v' where p: "p = (k', v')" by (cases p)
  consider "k < k'" | "k = k'" | "\<not> k < k'" "k \<noteq> k'" by blast
  then show ?case by cases (use Cons p in \<open>simp_all add: insert_commute\<close>)
qed simp

lemma bt_insert_sorted: "sorted_keys m \<Longrightarrow> sorted_keys (bt_insert k v m)"
proof (induction m)
  case (Cons p m)
  obtain k' v' where p: "p = (k', v')" by (cases p)
  have "set (map fst (bt_insert k v m)) = insert k (fst ` set m)"
    using bt_insert_keys [of k v m] by simp
  with Cons p show ?case by auto
qed simp

lemma bt_get_insert: "sorted_keys m \<Longrightarrow> map_of (bt_insert k v m) = (map_of m)(k \<mapsto> v)"
proof (induction m)
  case (Cons p m)
  obtain k' v' where p: "p = (k', v')" by (cases p)
  from Cons p show ?case by (auto simp: fun_upd_twist)
qed simp

lemma bt_remove_sorted: "sorted_keys m \<Longrightarrow> sorted_keys (bt_remove k m)"
  unfolding bt_remove_def by (induction m) auto

lemma bt_retain_sorted: "sorted_keys m \<Longrightarrow> sorted_keys (bt_retain P m)"
  unfolding bt_retain_def by (induction m) auto

lemma bt_get_remove: "map_of (bt_remove k m) = (map_of m)(k := None)"
  unfolding bt_remove_def by (induction m) auto

lemma bt_get_retain: "sorted_keys m \<Longrightarrow> map_of (bt_retain P m) k =
    (case map_of m k of None \<Rightarrow> None | Some v \<Rightarrow> if P k v then Some v else None)"
proof (induction m)
  case (Cons p m)
  obtain k' v' where p: "p = (k', v')" by (cases p)
  have out: "map_of m k' = None" using Cons.prems p by (force simp: map_of_eq_None_iff)
  show ?case
  proof (cases "k = k'")
    case True
    have "map_of (bt_retain P m) k' = None"
      using out by (simp add: map_of_eq_None_iff bt_retain_def) force
    with True p out show ?thesis by (simp add: bt_retain_def)
  next
    case False
    with Cons p show ?thesis by (simp add: bt_retain_def)
  qed
qed (simp add: bt_retain_def)

lemma bt_length_insert: "sorted_keys m \<Longrightarrow>
    length (bt_insert k v m) = (if bt_contains m k then length m else Suc (length m))"
proof (induction m)
  case (Cons p m)
  obtain k' v' where p: "p = (k', v')" by (cases p)
  have "k < k' \<Longrightarrow> k \<notin> fst ` set m" using Cons.prems p by auto
  then show ?case using Cons p by (auto simp: map_of_eq_None_iff)
qed simp

lemma bt_length_remove: "sorted_keys m \<Longrightarrow>
    length (bt_remove k m) = (if bt_contains m k then length m - 1 else length m)"
proof (induction m)
  case (Cons p m)
  obtain k' v' where p: "p = (k', v')" by (cases p)
  have "k' \<notin> fst ` set m" using Cons.prems p by auto
  then have out: "map_of m k' = None" "bt_remove k' m = m"
    by (auto simp: map_of_eq_None_iff bt_remove_def filter_id_conv image_iff)
  show ?case
  proof (cases "k = k'")
    case True
    then show ?thesis using out p by (simp add: bt_remove_def)
  next
    case False
    moreover have "map_of m k \<noteq> None \<Longrightarrow> 0 < length m" by (cases m) auto
    ultimately show ?thesis using Cons p by (auto simp: bt_remove_def)
  qed
qed (simp add: bt_remove_def)

lemma bt_length_remove_le: "length (bt_remove k m) \<le> length m"
  by (simp add: bt_remove_def)

lemma bt_length_retain_le: "length (bt_retain P m) \<le> length m"
  by (simp add: bt_retain_def)

text \<open>Two ordered maps with the same contents are the same list.\<close>

lemma bt_eqI:
  assumes "sorted_keys m" "sorted_keys m'" "map_of m = map_of m'"
  shows "m = m'"
proof (rule map_sorted_distinct_set_unique [where f = fst])
  have d: "distinct (map fst m)" "distinct (map fst m')"
    using assms by (auto simp: strict_sorted_iff)
  then show eq: "set m = set m'" using assms(3) by (metis map_of_inject_set)
  show "inj_on fst (set m \<union> set m')" using d eq by (simp add: distinct_map)
qed (use assms in \<open>auto simp: strict_sorted_iff distinct_map\<close>)

lemma bt_set_get: "sorted_keys m \<Longrightarrow> (k, v) \<in> set m \<longleftrightarrow> map_of m k = Some v"
  by (metis map_of_eq_Some_iff strict_sorted_iff)

end
