(* ===== verification/Tags.thy ===== *)
theory Tags
  imports Ordered_Map "HOL-Library.List_Lexorder"
begin

text \<open>
  The qualified tags of \<^verbatim>\<open>src/protocol/tag.rs\<close> and the labels of \<^verbatim>\<open>src/label.rs\<close>. A tag keeps its
  text and the offsets of its segments; a label key is a tag of the \<^verbatim>\<open>labels\<close> category.
\<close>

subsection \<open>Tag grammar\<close>

definition MIN_TAG_LEN :: nat where "MIN_TAG_LEN = 5"
definition MAX_TAG_LEN :: nat where "MAX_TAG_LEN = 128"
definition MAX_COMPONENT_LEN :: nat where "MAX_COMPONENT_LEN = 63"
definition MAX_HOSTNAME_LABEL_LEN :: nat where "MAX_HOSTNAME_LABEL_LEN = 63"
definition MAX_DNS_NAME_LEN :: nat where "MAX_DNS_NAME_LEN = 253"

lemmas tag_limits = MIN_TAG_LEN_def MAX_TAG_LEN_def MAX_COMPONENT_LEN_def
  MAX_HOSTNAME_LABEL_LEN_def MAX_DNS_NAME_LEN_def

definition BUILTIN_DOMAIN :: bytes where "BUILTIN_DOMAIN = ascii ''radiata.woooo.tech''"
definition CATEGORY_CRYPTO :: bytes where "CATEGORY_CRYPTO = ascii ''crypto''"
definition CATEGORY_LABELS :: bytes where "CATEGORY_LABELS = ascii ''labels''"

text \<open>The punctuation bytes \<^verbatim>\<open>'/'\<close>, \<^verbatim>\<open>'.'\<close> and \<^verbatim>\<open>'-'\<close>.\<close>

abbreviation SLASH :: u8 where "SLASH \<equiv> 0x2F"
abbreviation DOT :: u8 where "DOT \<equiv> 0x2E"
abbreviation HYPHEN :: u8 where "HYPHEN \<equiv> 0x2D"

definition require_caller_domain :: "bytes \<Rightarrow> string \<Rightarrow> unit result" where
  "require_caller_domain domain c = (if domain = BUILTIN_DOMAIN then Inl (invalid_input c) else Inr ())"

definition valid_ldh_label :: "bytes \<Rightarrow> bool" where
  "valid_ldh_label l \<longleftrightarrow> length l \<le> MAX_HOSTNAME_LABEL_LEN \<and>
     (l \<noteq> [] \<and> is_ascii_alphanumeric (hd l)) \<and> (l \<noteq> [] \<and> is_ascii_alphanumeric (last l)) \<and>
     list_all (\<lambda>b. is_ascii_alphanumeric b \<or> b = HYPHEN) l"

definition valid_dns_hostname :: "bytes \<Rightarrow> bool" where
  "valid_dns_hostname host =
    (if host = [] \<or> last host = DOT then False
     else if list_ex is_ascii_uppercase host then False
     else if MAX_DNS_NAME_LEN < length host then False
     else list_all valid_ldh_label (split_on DOT host))"

definition valid_name_component :: "bytes \<Rightarrow> bool" where
  "valid_name_component p =
    (if p = [] \<or> MAX_COMPONENT_LEN < length p then False
     else is_ascii_lowercase (hd p) \<and> is_ascii_alphanumeric (p ! (length p - 1)) \<and>
       list_all (\<lambda>b. is_ascii_lowercase b \<or> is_ascii_digit b \<or> b = HYPHEN) p)"

definition valid_version_component :: "bytes \<Rightarrow> bool" where
  "valid_version_component p \<longleftrightarrow> 2 \<le> length p \<and> length p \<le> MAX_COMPONENT_LEN \<and>
     hd p = of_char CHR ''v'' \<and> list_all is_ascii_digit (tl p)"

subsection \<open>Parsing\<close>

record qualified_tag =
  tag_value :: bytes
  domain_end :: nat
  category_end :: nat
  version_end :: "nat option"

definition validate_tag :: "bytes \<Rightarrow> (bytes \<times> nat \<times> nat \<times> nat option) result" where
  "validate_tag v =
    (let bad = invalid_input ''qualified tag'' in
     if \<not> (MIN_TAG_LEN \<le> length v \<and> length v \<le> MAX_TAG_LEN) \<or> \<not> list_all (\<lambda>b. b \<le> 0x7F) v then Inl bad
     else (case split_on SLASH v of
       domain # category # third # parts \<Rightarrow>
         (let fourth = (case parts of [] \<Rightarrow> None | p # _ \<Rightarrow> Some p); fifth = 1 < length parts in
          if fifth \<or> \<not> valid_dns_hostname domain \<or> \<not> valid_name_component category then Inl bad
          else rbind
            (case fourth of
               Some name \<Rightarrow>
                 if \<not> valid_version_component third \<or> \<not> valid_name_component name then Inl bad
                 else Inr (Some (length domain + 1 + length category + 1 + length third))
             | None \<Rightarrow> if \<not> valid_name_component third then Inl bad else Inr None)
            (\<lambda>version_end.
               let domain = to_ascii_lowercase domain in
               if domain = BUILTIN_DOMAIN \<and> category = CATEGORY_CRYPTO then Inl bad
               else Inr (domain @ drop (length domain) v, length domain,
                         length domain + 1 + length category, version_end)))
     | _ \<Rightarrow> Inl bad))"

definition parse_tag :: "bytes \<Rightarrow> qualified_tag result" where
  "parse_tag v = rbind (validate_tag v) (\<lambda>(value, de, ce, ve).
     Inr \<lparr>tag_value = value, domain_end = de, category_end = ce, version_end = ve\<rparr>)"

text \<open>The separator scan of the compile-time constructor: \<open>i\<close> is the index, \<open>n\<close> the separators seen.\<close>

fun static_scan :: "bytes \<Rightarrow> nat \<Rightarrow> nat \<Rightarrow> nat \<times> nat \<times> nat option \<Rightarrow> nat \<times> nat \<times> nat option" where
  "static_scan [] i n offs = offs"
| "static_scan (b # bs) i n (de, ce, ve) =
    (if b = SLASH
     then static_scan bs (i + 1) (n + 1)
       (if n = 0 then (i, ce, ve) else if n = 1 then (de, i, ve) else if n = 2 then (de, ce, Some i) else (de, ce, ve))
     else static_scan bs (i + 1) n (de, ce, ve))"

definition from_static :: "bytes \<Rightarrow> qualified_tag" where
  "from_static v = (case static_scan v 0 0 (0, 0, None) of (de, ce, ve) \<Rightarrow>
     \<lparr>tag_value = v, domain_end = de, category_end = ce, version_end = ve\<rparr>)"

definition tag_domain :: "qualified_tag \<Rightarrow> bytes" where
  "tag_domain t = slice 0 (domain_end t) (tag_value t)"

definition tag_category :: "qualified_tag \<Rightarrow> bytes" where
  "tag_category t = slice (domain_end t + 1) (category_end t) (tag_value t)"

definition tag_version :: "qualified_tag \<Rightarrow> bytes option" where
  "tag_version t = map_option (\<lambda>e. slice (category_end t + 1) e (tag_value t)) (version_end t)"

definition tag_name :: "qualified_tag \<Rightarrow> bytes" where
  "tag_name t = (case version_end t of Some e \<Rightarrow> drop (e + 1) (tag_value t)
     | None \<Rightarrow> drop (category_end t + 1) (tag_value t))"

definition fold_tag_domain :: "bytes \<Rightarrow> bytes" where
  "fold_tag_domain v = (case split_once SLASH v of
     Some (domain, rest) \<Rightarrow> to_ascii_lowercase domain @ SLASH # rest | None \<Rightarrow> to_ascii_lowercase v)"

text \<open>The \<^verbatim>\<open>parse\<close> of a category tag type.\<close>

definition parse_category_tag :: "bytes \<Rightarrow> string \<Rightarrow> bytes \<Rightarrow> qualified_tag result" where
  "parse_category_tag category c v = rbind (parse_tag v) (\<lambda>t.
     if tag_category t \<noteq> category then Inl (invalid_input c) else Inr t)"

subsection \<open>The grammar of tags\<close>

text \<open>What a tag text is: its segments, in one of the two shapes.\<close>

definition tag_segments :: "bytes \<Rightarrow> bytes \<Rightarrow> bytes option \<Rightarrow> bytes \<Rightarrow> bytes list" where
  "tag_segments d c vo n = [d, c] @ (case vo of None \<Rightarrow> [] | Some v \<Rightarrow> [v]) @ [n]"

definition tag_wf :: "bytes \<Rightarrow> bytes \<Rightarrow> bytes option \<Rightarrow> bytes \<Rightarrow> bool" where
  "tag_wf d c vo n \<longleftrightarrow> valid_dns_hostname d \<and> valid_name_component c \<and>
     (case vo of None \<Rightarrow> True | Some v \<Rightarrow> valid_version_component v) \<and> valid_name_component n \<and>
     \<not> (d = BUILTIN_DOMAIN \<and> c = CATEGORY_CRYPTO)"

definition tag_of :: "bytes \<Rightarrow> bytes \<Rightarrow> bytes option \<Rightarrow> bytes \<Rightarrow> qualified_tag" where
  "tag_of d c vo n = \<lparr>tag_value = join_with SLASH (tag_segments d c vo n), domain_end = length d,
     category_end = length d + 1 + length c,
     version_end = map_option (\<lambda>v. length d + 1 + length c + 1 + length v) vo\<rparr>"

lemmas ascii_classes = is_ascii_alphanumeric_def is_ascii_digit_def is_ascii_lowercase_def is_ascii_uppercase_def

definition tag_char :: "u8 \<Rightarrow> bool" where
  "tag_char b \<longleftrightarrow> b \<le> 0x7F \<and> b \<noteq> SLASH"

lemma alphanumeric_tag_char:
  "is_ascii_digit b \<Longrightarrow> tag_char b" "is_ascii_lowercase b \<Longrightarrow> tag_char b" "is_ascii_alphanumeric b \<Longrightarrow> tag_char b"
  by (auto simp: tag_char_def ascii_classes word_le_nat_alt word_unat_eq_iff)

lemma punctuation_tag_char: "tag_char HYPHEN" "tag_char DOT" "tag_char (of_char CHR ''v'')"
  by (simp_all add: tag_char_def)

lemma name_component_chars: "valid_name_component p \<Longrightarrow> list_all tag_char p \<and> p \<noteq> []"
  using alphanumeric_tag_char punctuation_tag_char
  by (auto simp: valid_name_component_def list_all_iff split: if_splits)

lemma version_component_chars: "valid_version_component p \<Longrightarrow> list_all tag_char p"
  using alphanumeric_tag_char punctuation_tag_char
  by (cases p) (auto simp: valid_version_component_def list_all_iff)

lemma join_with_set: "x \<in> set (join_with c ps) \<Longrightarrow> x = c \<or> (\<exists>p\<in>set ps. x \<in> set p)"
  by (induction c ps rule: join_with.induct) auto

lemma hostname_chars:
  assumes "valid_dns_hostname h"
  shows "list_all tag_char h" "to_ascii_lowercase h = h" "h \<noteq> []"
proof -
  from assms have parts: "list_all valid_ldh_label (split_on DOT h)" and up: "\<not> list_ex is_ascii_uppercase h"
    and "h \<noteq> []" by (auto simp: valid_dns_hostname_def split: if_splits)
  then show "h \<noteq> []" by simp
  show "to_ascii_lowercase h = h"
    using up by (intro to_ascii_lowercase_id) (auto simp: list_all_iff list_ex_iff)
  have "tag_char b" if "b \<in> set h" for b
  proof -
    from that have "b = DOT \<or> (\<exists>p\<in>set (split_on DOT h). b \<in> set p)"
      using join_with_set [of b DOT "split_on DOT h"] by simp
    then show ?thesis
      using parts alphanumeric_tag_char(3) [of b] punctuation_tag_char(1,2)
      by (auto simp: list_all_iff valid_ldh_label_def)
  qed
  then show "list_all tag_char h" by (simp add: list_all_iff)
qed

lemma tag_segments_chars:
  "tag_wf d c vo n \<Longrightarrow> p \<in> set (tag_segments d c vo n) \<Longrightarrow> list_all tag_char p"
  using hostname_chars(1) name_component_chars version_component_chars
  by (auto simp: tag_wf_def tag_segments_def split: option.splits)

lemma tag_text_ascii: "tag_wf d c vo n \<Longrightarrow> list_all (\<lambda>b. b \<le> 0x7F) (join_with SLASH (tag_segments d c vo n))"
  unfolding list_all_iff
proof
  fix b assume wf: "tag_wf d c vo n" and "b \<in> set (join_with SLASH (tag_segments d c vo n))"
  then consider "b = SLASH" | p where "p \<in> set (tag_segments d c vo n)" "b \<in> set p"
    using join_with_set by metis
  then show "b \<le> 0x7F"
    using tag_segments_chars [OF wf] by cases (auto simp: list_all_iff tag_char_def)
qed

lemma tag_text_split: "tag_wf d c vo n \<Longrightarrow>
    split_on SLASH (join_with SLASH (tag_segments d c vo n)) = tag_segments d c vo n"
proof (rule split_join)
  assume wf: "tag_wf d c vo n"
  show "SLASH \<notin> set p" if "p \<in> set (tag_segments d c vo n)" for p
    using tag_segments_chars [OF wf that] by (auto simp: list_all_iff tag_char_def)
qed (simp add: tag_segments_def)

subsection \<open>The parser accepts exactly the grammar\<close>

lemma parse_tag_sound:
  assumes "parse_tag s = Inr t"
  shows "\<exists>d c vo n. tag_wf d c vo n \<and> s = join_with SLASH (tag_segments d c vo n) \<and>
    length s \<le> MAX_TAG_LEN \<and> t = tag_of d c vo n"
proof -
  from assms obtain d c p parts where sp: "split_on SLASH s = d # c # p # parts"
    by (auto simp: parse_tag_def validate_tag_def Let_def split: if_splits list.splits)
  have len: "length s \<le> MAX_TAG_LEN" and d: "valid_dns_hostname d" and c: "valid_name_component c"
    and two: "length parts \<le> 1" and res: "\<not> (d = BUILTIN_DOMAIN \<and> c = CATEGORY_CRYPTO)"
    using assms sp hostname_chars(2) [of d]
    by (auto simp: parse_tag_def validate_tag_def Let_def split: if_splits option.splits)
  note low = hostname_chars(2) [OF d]
  have s: "s = join_with SLASH (d # c # p # parts)" using sp by (metis join_split)
  show ?thesis
  proof (cases parts)
    case Nil
    with assms sp have "valid_name_component p" "t = tag_of d c None p"
      using low s by (auto simp: parse_tag_def validate_tag_def Let_def tag_of_def tag_segments_def split: if_splits)
    then show ?thesis
      using d c res len s Nil by (intro exI [of _ d] exI [of _ c] exI [of _ None] exI [of _ p])
        (simp add: tag_wf_def tag_segments_def)
  next
    case (Cons n rest)
    with two have rest: "parts = [n]" by simp
    with assms sp have "valid_version_component p" "valid_name_component n" "t = tag_of d c (Some p) n"
      using low s by (auto simp: parse_tag_def validate_tag_def Let_def tag_of_def tag_segments_def split: if_splits)
    then show ?thesis
      using d c res len s rest by (intro exI [of _ d] exI [of _ c] exI [of _ "Some p"] exI [of _ n])
        (simp add: tag_wf_def tag_segments_def)
  qed
qed

lemma join_segments_length:
  "length (join_with SLASH (tag_segments d c vo n)) =
     length d + 1 + length c + 1 + (case vo of None \<Rightarrow> 0 | Some v \<Rightarrow> length v + 1) + length n"
  by (simp add: tag_segments_def split: option.splits)

lemma parse_tag_complete:
  assumes wf: "tag_wf d c vo n" and len: "length (join_with SLASH (tag_segments d c vo n)) \<le> MAX_TAG_LEN"
  shows "parse_tag (join_with SLASH (tag_segments d c vo n)) = Inr (tag_of d c vo n)"
proof -
  let ?s = "join_with SLASH (tag_segments d c vo n)"
  have ne: "d \<noteq> []" "c \<noteq> []" "n \<noteq> []" and low: "to_ascii_lowercase d = d"
    using wf hostname_chars [of d] name_component_chars by (auto simp: tag_wf_def)
  then have "1 \<le> length d" "1 \<le> length c" "1 \<le> length n" by (auto simp: Suc_le_eq)
  then have min: "MIN_TAG_LEN \<le> length ?s"
    unfolding join_segments_length MIN_TAG_LEN_def by linarith
  have drop: "drop (length d) ?s = drop (length d) (d @ SLASH # join_with SLASH (tl (tag_segments d c vo n)))"
    by (simp add: tag_segments_def split: option.splits)
  then have whole: "d @ drop (length d) ?s = ?s"
    by (simp add: tag_segments_def split: option.splits)
  show ?thesis
    using wf len min low whole tag_text_ascii [OF wf] tag_text_split [OF wf]
    by (cases vo) (simp_all add: parse_tag_def validate_tag_def tag_wf_def tag_of_def Let_def tag_segments_def)
qed


lemma static_scan_skip: "SLASH \<notin> set p \<Longrightarrow> static_scan (p @ bs) i k offs = static_scan bs (i + length p) k offs"
proof (induction p arbitrary: i)
  case (Cons b p)
  obtain de ce ve where "offs = (de, ce, ve)" by (cases offs)
  with Cons show ?case by auto
qed simp

lemma from_static_tag_of:
  assumes wf: "tag_wf d c vo n"
  shows "from_static (join_with SLASH (tag_segments d c vo n)) = tag_of d c vo n"
proof -
  have no: "SLASH \<notin> set p" if "p \<in> set (tag_segments d c vo n)" for p
    using tag_segments_chars [OF wf that] by (auto simp: list_all_iff tag_char_def)
  have last: "static_scan n i k offs = offs" for i k offs
    using static_scan_skip [of n "[]"] no [of n] by (simp add: tag_segments_def)
  show ?thesis
    using no last by (cases vo) (simp_all add: from_static_def tag_of_def tag_segments_def static_scan_skip)
qed

lemma slice_mid: "xs = a @ b @ c \<Longrightarrow> i = length a \<Longrightarrow> j = length a + length b \<Longrightarrow> slice i j xs = b"
  by (simp add: slice_def)

lemma drop_mid: "xs = a @ b \<Longrightarrow> i = length a \<Longrightarrow> drop i xs = b"
  by simp

lemma tag_text:
  "join_with SLASH (tag_segments d c None n) = d @ SLASH # c @ SLASH # n"
  "join_with SLASH (tag_segments d c (Some v) n) = d @ SLASH # c @ SLASH # v @ SLASH # n"
  by (simp_all add: tag_segments_def)

lemma tag_of_accessors:
  "tag_value (tag_of d c vo n) = join_with SLASH (tag_segments d c vo n)"
  "tag_domain (tag_of d c vo n) = d" "tag_category (tag_of d c vo n) = c"
  "tag_version (tag_of d c vo n) = vo" "tag_name (tag_of d c vo n) = n"
proof -
  let ?s = "join_with SLASH (tag_segments d c vo n)"
  show "tag_value (tag_of d c vo n) = ?s" by (simp add: tag_of_def)
  obtain r where r: "?s = d @ SLASH # c @ SLASH # r" by (cases vo) (simp_all add: tag_text)
  show "tag_domain (tag_of d c vo n) = d"
    unfolding tag_domain_def tag_of_def
    by (rule slice_mid [of _ "[]" _ "SLASH # c @ SLASH # r"]) (simp_all add: r)
  show "tag_category (tag_of d c vo n) = c"
    unfolding tag_category_def tag_of_def
    by (rule slice_mid [of _ "d @ [SLASH]" _ "SLASH # r"]) (simp_all add: r)
  have v: "slice (length d + 1 + length c + 1) (length d + 1 + length c + 1 + length v) ?s = v"
    if "vo = Some v" for v
    by (rule slice_mid [of _ "d @ SLASH # c @ [SLASH]" _ "SLASH # n"]) (simp_all add: that tag_text)
  then show "tag_version (tag_of d c vo n) = vo"
    unfolding tag_version_def tag_of_def by (cases vo) simp_all
  have n1: "drop (length d + 1 + length c + 1) ?s = n" if "vo = None"
    by (rule drop_mid [of _ "d @ SLASH # c @ [SLASH]"]) (simp_all add: that tag_text)
  have n2: "drop (length d + 1 + length c + 1 + length v + 1) ?s = n" if "vo = Some v" for v
    by (rule drop_mid [of _ "d @ SLASH # c @ SLASH # v @ [SLASH]"]) (simp_all add: that tag_text)
  show "tag_name (tag_of d c vo n) = n"
    unfolding tag_name_def tag_of_def using n1 n2 by (cases vo) simp_all
qed

text \<open>
  C31: A parsed tag is its text. The accessors return the segments the text is made of, joining
  them gives the text back, and the compile-time constructor computes the same tag without
  validation.
\<close>

theorem parse_tag_roundtrip:
  assumes "parse_tag s = Inr t"
  shows "tag_value t = s \<and> from_static s = t \<and>
    s = join_with SLASH (tag_segments (tag_domain t) (tag_category t) (tag_version t) (tag_name t)) \<and>
    tag_wf (tag_domain t) (tag_category t) (tag_version t) (tag_name t)"
proof -
  from parse_tag_sound [OF assms] obtain d c vo n where "tag_wf d c vo n"
    "s = join_with SLASH (tag_segments d c vo n)" "t = tag_of d c vo n" by blast
  then show ?thesis using from_static_tag_of by (simp only: tag_of_accessors simp_thms)
qed

theorem parse_tag_roundtrip_witness:
  "parse_tag (ascii ''a.b/labels/v1/x'') = Inr (from_static (ascii ''a.b/labels/v1/x''))"
proof -
  obtain t where t: "parse_tag (ascii ''a.b/labels/v1/x'') = Inr t"
    by (simp add: ascii_def parse_tag_def validate_tag_def tag_limits valid_dns_hostname_def
        valid_ldh_label_def valid_name_component_def valid_version_component_def ascii_classes
        BUILTIN_DOMAIN_def CATEGORY_CRYPTO_def to_ascii_lowercase_def ascii_lower_def Let_def)
  with parse_tag_roundtrip [OF t] show ?thesis by metis
qed

subsection \<open>Labels\<close>

definition LABEL_VALUE_MAX_BYTES :: nat where "LABEL_VALUE_MAX_BYTES = 256"
definition LABEL_SET_MAX_ENTRIES :: nat where "LABEL_SET_MAX_ENTRIES = 64"

definition validate_bounded_value :: "bytes \<Rightarrow> string \<Rightarrow> unit result" where
  "validate_bounded_value v c = (if v = [] \<or> LABEL_VALUE_MAX_BYTES < length v
     then Inl (invalid_input c) else Inr ())"

definition parse_label_key :: "bytes \<Rightarrow> qualified_tag result" where
  "parse_label_key v = rbind (parse_tag (fold_tag_domain v)) (\<lambda>t.
     if tag_category t \<noteq> CATEGORY_LABELS then Inl (invalid_input ''label key'') else Inr t)"

definition from_label_tag :: "qualified_tag \<Rightarrow> qualified_tag option" where
  "from_label_tag t = (if tag_category t = CATEGORY_LABELS then Some t else None)"

definition parse_label_value :: "bytes \<Rightarrow> bytes result" where
  "parse_label_value v = rbind (validate_bounded_value v ''label value'') (\<lambda>_. Inr v)"

text \<open>
  A label set is ordered by its keys. The derived order of a key compares the text first, and the
  text determines the offsets, so the map is keyed by the text.
\<close>

record label_set =
  ls_entries :: "(bytes, bytes) btree"

definition new_label_set :: label_set where
  "new_label_set = \<lparr>ls_entries = []\<rparr>"

definition insert_label :: "label_set \<Rightarrow> qualified_tag \<Rightarrow> bytes \<Rightarrow> label_set result" where
  "insert_label ls k v =
    (if bt_contains (ls_entries ls) (tag_value k) then Inl (conflict ''label set'')
     else if LABEL_SET_MAX_ENTRIES \<le> length (ls_entries ls) then Inl (resource_exhausted ''label set'')
     else Inr (ls\<lparr>ls_entries := bt_insert (tag_value k) v (ls_entries ls)\<rparr>))"

definition get_label :: "label_set \<Rightarrow> qualified_tag \<Rightarrow> bytes option" where
  "get_label ls k = bt_get (ls_entries ls) (tag_value k)"

definition remove_label :: "label_set \<Rightarrow> qualified_tag \<Rightarrow> bytes option \<times> label_set" where
  "remove_label ls k = (bt_get (ls_entries ls) (tag_value k),
     ls\<lparr>ls_entries := bt_remove (tag_value k) (ls_entries ls)\<rparr>)"

lemma ascii_lower_slash: "ascii_lower b = SLASH \<longleftrightarrow> b = SLASH"
proof (cases "is_ascii_uppercase b")
  case True
  then have b: "65 \<le> unat b" "unat b \<le> 90" by (simp_all add: is_ascii_uppercase_def word_le_nat_alt)
  then have "unat (b + 32) = unat b + 32" by (simp add: unat_word_ariths)
  with b have "unat (b + 32) \<noteq> 47" "unat b \<noteq> 47" by simp_all
  then show ?thesis using True by (auto simp: ascii_lower_def)
qed (simp add: ascii_lower_def)

lemma lowercase_slash: "SLASH \<in> set (to_ascii_lowercase v) \<longleftrightarrow> SLASH \<in> set v"
  by (induction v) (simp_all add: to_ascii_lowercase_def ascii_lower_slash eq_commute [of SLASH])

lemma fold_tag_domain_idem: "fold_tag_domain (fold_tag_domain v) = fold_tag_domain v"
proof (cases "split_once SLASH v")
  case None
  then have "split_once SLASH (to_ascii_lowercase v) = None"
    by (simp add: split_once_None lowercase_slash)
  with None show ?thesis by (simp add: fold_tag_domain_def)
next
  case (Some pr)
  obtain d r where dr: "pr = (d, r)" by (cases pr)
  with Some have "SLASH \<notin> set (to_ascii_lowercase d)"
    using split_once_Some [of SLASH v d r] by (simp add: lowercase_slash)
  with Some dr show ?thesis by (simp add: fold_tag_domain_def split_once_append)
qed



definition label_set_ok :: "label_set \<Rightarrow> bool" where
  "label_set_ok ls \<longleftrightarrow> sorted_keys (ls_entries ls) \<and> length (ls_entries ls) \<le> LABEL_SET_MAX_ENTRIES"

text \<open>
  C38: A label set stays ordered, duplicate free and within 64 entries. An insertion succeeds
  exactly for an absent key below the limit and then only that key changes; a present key is a
  conflict and a full set is exhausted; a removal returns the value and clears only that key.
\<close>

theorem label_set_operations:
  assumes ok: "label_set_ok ls"
  shows "label_set_ok new_label_set \<and>
    (case insert_label ls k v of
       Inr ls' \<Rightarrow> label_set_ok ls' \<and> get_label ls k = None \<and>
         map_of (ls_entries ls') = (map_of (ls_entries ls))(tag_value k \<mapsto> v)
     | Inl e \<Rightarrow> if get_label ls k \<noteq> None then e = conflict ''label set''
         else e = resource_exhausted ''label set'' \<and> length (ls_entries ls) = LABEL_SET_MAX_ENTRIES) \<and>
    (case remove_label ls k of (old, ls') \<Rightarrow> label_set_ok ls' \<and> old = get_label ls k \<and>
       map_of (ls_entries ls') = (map_of (ls_entries ls))(tag_value k := None))"
  using ok bt_length_remove_le [of "tag_value k" "ls_entries ls"]
  by (auto simp: label_set_ok_def new_label_set_def insert_label_def get_label_def remove_label_def
      bt_insert_sorted bt_remove_sorted bt_get_insert bt_get_remove bt_length_insert)

theorem label_set_operations_witness:
  "\<exists>ls. insert_label new_label_set (from_static (ascii ''a/labels/x'')) (ascii ''y'') = Inr ls \<and> label_set_ok ls"
  using label_set_operations [of new_label_set "from_static (ascii ''a/labels/x'')" "ascii ''y''"]
  by (simp add: label_set_ok_def new_label_set_def insert_label_def LABEL_SET_MAX_ENTRIES_def)

end
