(* ===== verification/Selectors.thy ===== *)
theory Selectors
  imports Tags "HOL-Library.List_Lexorder"
begin

text \<open>
  Label selectors, the first part of \<^verbatim>\<open>src/routing.rs\<close>: the cursor parser, the canonical text, and evaluation against labels.

  A selector text is a list of Unicode scalar values, since the parser advances by characters; lengths and the order of
  texts are those of its UTF-8 bytes. The cursor is the text that remains, so restoring a position is reusing
  an earlier remainder.
\<close>

type_synonym ustr = "nat list"

definition utf8_char :: "nat \<Rightarrow> bytes" where
  "utf8_char c =
    (if c < 0x80 then [of_nat c]
     else if c < 0x800 then [of_nat (0xC0 + c div 0x40), of_nat (0x80 + c mod 0x40)]
     else if c < 0x10000 then [of_nat (0xE0 + c div 0x1000), of_nat (0x80 + c div 0x40 mod 0x40), of_nat (0x80 + c mod 0x40)]
     else [of_nat (0xF0 + c div 0x40000 mod 8), of_nat (0x80 + c div 0x1000 mod 0x40), of_nat (0x80 + c div 0x40 mod 0x40), of_nat (0x80 + c mod 0x40)])"

definition utf8 :: "ustr \<Rightarrow> bytes" where "utf8 s = concat (map utf8_char s)"

text \<open>The characters of a well-formed text, read back from its bytes.\<close>

fun utf8_chars :: "bytes \<Rightarrow> ustr" where
  "utf8_chars [] = []"
| "utf8_chars (b # bs) =
    (if unat b < 0x80 then unat b # utf8_chars bs
     else if unat b < 0xE0 then (case bs of c # bs \<Rightarrow> ((unat b - 0xC0) * 0x40 + (unat c - 0x80)) # utf8_chars bs | _ \<Rightarrow> [])
     else if unat b < 0xF0 then (case bs of c # d # bs \<Rightarrow> ((unat b - 0xE0) * 0x1000 + (unat c - 0x80) * 0x40 + (unat d - 0x80)) # utf8_chars bs | _ \<Rightarrow> [])
     else (case bs of c # d # e # bs \<Rightarrow>
         ((unat b - 0xF0) * 0x40000 + (unat c - 0x80) * 0x1000 + (unat d - 0x80) * 0x40 + (unat e - 0x80)) # utf8_chars bs | _ \<Rightarrow> []))"

text \<open>The Unicode property behind \<^verbatim>\<open>char::is_whitespace\<close>.\<close>

definition is_whitespace :: "nat \<Rightarrow> bool" where
  "is_whitespace c \<longleftrightarrow> 9 \<le> c \<and> c \<le> 13 \<or> c = 0x20 \<or> c = 0x85 \<or> c = 0xA0 \<or> c = 0x1680 \<or> 0x2000 \<le> c \<and> c \<le> 0x200A \<or>
     c = 0x2028 \<or> c = 0x2029 \<or> c = 0x202F \<or> c = 0x205F \<or> c = 0x3000"

subsection \<open>Predicates and their canonical text\<close>

definition SELECTOR_INPUT_MAX_BYTES :: nat where "SELECTOR_INPUT_MAX_BYTES = 1024"
definition SELECTOR_MAX_PREDICATES :: nat where "SELECTOR_MAX_PREDICATES = 16"
definition SELECTOR_MAX_SET_VALUES :: nat where "SELECTOR_MAX_SET_VALUES = 16"
definition CATEGORY_RESOURCES :: bytes where "CATEGORY_RESOURCES = ascii ''resources''"
definition RESERVED_TYPE_LABEL_KEY :: bytes where "RESERVED_TYPE_LABEL_KEY = ascii ''radiata.woooo.tech/resources/type''"
definition RESERVED_URI_LABEL_KEY :: bytes where "RESERVED_URI_LABEL_KEY = ascii ''radiata.woooo.tech/resources/uri''"

datatype pred =
    Exists qualified_tag
  | NotExists qualified_tag
  | Equals qualified_tag ustr
  | NotEquals qualified_tag ustr
  | In qualified_tag "ustr list"
  | NotIn qualified_tag "ustr list"

fun pred_matches :: "(qualified_tag \<Rightarrow> ustr option) \<Rightarrow> pred \<Rightarrow> bool" where
  "pred_matches look (Exists k) \<longleftrightarrow> look k \<noteq> None"
| "pred_matches look (NotExists k) \<longleftrightarrow> look k = None"
| "pred_matches look (Equals k v) \<longleftrightarrow> look k = Some v"
| "pred_matches look (NotEquals k v) \<longleftrightarrow> (case look k of None \<Rightarrow> True | Some found \<Rightarrow> found \<noteq> v)"
| "pred_matches look (In k vs) \<longleftrightarrow> (case look k of None \<Rightarrow> False | Some found \<Rightarrow> list_ex (\<lambda>v. v = found) vs)"
| "pred_matches look (NotIn k vs) \<longleftrightarrow> (case look k of None \<Rightarrow> True | Some found \<Rightarrow> \<not> list_ex (\<lambda>v. v = found) vs)"

definition escape_char :: "nat \<Rightarrow> ustr" where
  "escape_char c = (if c = 32 then [92, 32] else if c = 9 then [92, 116] else if c = 10 then [92, 110] else if c = 13 then [92, 114]
     else if c \<in> {92, 44, 40, 41, 61, 33} then [92, c] else [c])"

definition escape_value :: "ustr \<Rightarrow> ustr" where "escape_value v = concat (map escape_char v)"

definition unescape :: "nat \<Rightarrow> nat option" where
  "unescape c = (if c = 32 then Some 32 else if c = 116 then Some 9 else if c = 110 then Some 10 else if c = 114 then Some 13
     else if c \<in> {92, 44, 40, 41, 61, 33} then Some c else None)"

definition sorted_dedup :: "ustr list \<Rightarrow> ustr list" where
  "sorted_dedup vs = remdups_adj (sort_key utf8 vs)"

fun join_texts :: "nat \<Rightarrow> ustr list \<Rightarrow> ustr" where
  "join_texts sep [] = []"
| "join_texts sep [x] = x"
| "join_texts sep (x # y # zs) = x @ sep # join_texts sep (y # zs)"

definition canonical_set :: "ustr list \<Rightarrow> ustr" where
  "canonical_set vs = join_texts 44 (map escape_value (sorted_dedup vs))"

definition key_text :: "qualified_tag \<Rightarrow> ustr" where "key_text k = map unat (tag_value k)"

definition lit :: "string \<Rightarrow> ustr" where "lit s = map (\<lambda>c. unat (of_char c :: u8)) s"

fun pred_text :: "pred \<Rightarrow> ustr" where
  "pred_text (Exists k) = key_text k"
| "pred_text (NotExists k) = 33 # key_text k"
| "pred_text (Equals k v) = key_text k @ 61 # escape_value v"
| "pred_text (NotEquals k v) = key_text k @ [33, 61] @ escape_value v"
| "pred_text (In k vs) = key_text k @ lit '' in ('' @ canonical_set vs @ [41]"
| "pred_text (NotIn k vs) = key_text k @ lit '' notin ('' @ canonical_set vs @ [41]"

subsection \<open>The parser\<close>

definition skip_whitespace :: "ustr \<Rightarrow> ustr" where "skip_whitespace s = dropWhile is_whitespace s"

definition key_stop :: "nat \<Rightarrow> bool" where
  "key_stop c \<longleftrightarrow> is_whitespace c \<or> c \<in> {61, 33, 40, 41, 44, 92}"

definition parse_key :: "ustr \<Rightarrow> (qualified_tag \<times> ustr) result" where
  "parse_key s = (let rest = dropWhile (\<lambda>c. \<not> key_stop c) s in
     rbind (parse_tag (utf8 (takeWhile (\<lambda>c. \<not> key_stop c) s))) (\<lambda>t.
       if tag_category t = CATEGORY_LABELS then Inr (t, rest)
       else if tag_category t = CATEGORY_RESOURCES \<and> (tag_value t = RESERVED_TYPE_LABEL_KEY \<or> tag_value t = RESERVED_URI_LABEL_KEY)
       then Inr (t, rest)
       else Inl (invalid_input ''selector key'')))"

fun value_loop :: "bool \<Rightarrow> ustr \<Rightarrow> ustr \<Rightarrow> (ustr \<times> ustr) result" where
  "value_loop in_list acc [] = Inr (acc, [])"
| "value_loop in_list acc (c # s) =
    (if c = 92 then
       (case s of [] \<Rightarrow> Inl (invalid_input ''selector escape'')
        | e # s' \<Rightarrow> (case unescape e of None \<Rightarrow> Inl (invalid_input ''selector escape'')
            | Some x \<Rightarrow> value_loop in_list (acc @ [x]) s'))
     else if is_whitespace c then Inr (acc, c # s)
     else if in_list \<and> c \<in> {44, 41} then Inr (acc, c # s)
     else if c \<in> {40, 41, 44, 61, 33} then Inl (invalid_input ''selector value'')
     else value_loop in_list (acc @ [c]) s)"

definition parse_value :: "bool \<Rightarrow> ustr \<Rightarrow> (ustr \<times> ustr) result" where
  "parse_value in_list s = rbind (value_loop in_list [] s) (\<lambda>(v, rest).
     rbind (validate_bounded_value (utf8 v) ''selector value'') (\<lambda>_. Inr (v, rest)))"

function set_loop :: "ustr list \<Rightarrow> ustr \<Rightarrow> (ustr list \<times> ustr) result" where
  "set_loop vs s = (let s = skip_whitespace s in
     if SELECTOR_MAX_SET_VALUES \<le> length vs then Inl (resource_exhausted ''selector set values'')
     else rbind (parse_value True s) (\<lambda>(v, s).
       case skip_whitespace s of
         c # rest \<Rightarrow> if c = 44 then set_loop (vs @ [v]) rest
           else if c = 41 then Inr (vs @ [v], rest) else Inl (invalid_input ''selector set'')
       | [] \<Rightarrow> Inl (invalid_input ''selector set'')))"
  by pat_completeness auto
termination by (relation "measure (\<lambda>(vs, _). SELECTOR_MAX_SET_VALUES - length vs)") auto

declare set_loop.simps [simp del]

definition parse_set :: "ustr \<Rightarrow> (ustr list \<times> ustr) result" where
  "parse_set s = (case s of c # rest \<Rightarrow> if c = 40 then set_loop [] rest else Inl (invalid_input ''selector set'')
     | [] \<Rightarrow> Inl (invalid_input ''selector set''))"

text \<open>The remainder after a set keyword that stands as a word of its own.\<close>

definition strip_keyword :: "ustr \<Rightarrow> ustr \<Rightarrow> ustr option" where
  "strip_keyword kw s = (if take (length kw) s = kw then
     (let after = drop (length kw) s in
      if after = [] \<or> is_whitespace (hd after) \<or> hd after = 40 then Some after else None) else None)"

definition parse_operator_tail :: "qualified_tag \<Rightarrow> ustr \<Rightarrow> (pred option \<times> ustr) result" where
  "parse_operator_tail k s0 = (let s = skip_whitespace s0 in
     if s \<noteq> [] \<and> hd s = 61 then
       rbind (parse_value False (skip_whitespace (tl s))) (\<lambda>(v, rest). Inr (Some (Equals k v), rest))
     else if s \<noteq> [] \<and> hd s = 33 then
       (if tl s \<noteq> [] \<and> hd (tl s) = 61 then
          rbind (parse_value False (skip_whitespace (tl (tl s)))) (\<lambda>(v, rest). Inr (Some (NotEquals k v), rest))
        else Inr (None, s0))
     else case strip_keyword (lit ''in'') s of
         Some after \<Rightarrow> rbind (parse_set (skip_whitespace after)) (\<lambda>(vs, rest). Inr (Some (In k vs), rest))
       | None \<Rightarrow> (case strip_keyword (lit ''notin'') s of
           Some after \<Rightarrow> rbind (parse_set (skip_whitespace after)) (\<lambda>(vs, rest). Inr (Some (NotIn k vs), rest))
         | None \<Rightarrow> Inr (None, s0)))"

text \<open>One round of the predicate loop, at a non-empty remainder without leading whitespace.\<close>

definition parse_pred :: "ustr \<Rightarrow> (pred \<times> ustr) result" where
  "parse_pred s = (if hd s = 33 then rbind (parse_key (tl s)) (\<lambda>(k, rest). Inr (NotExists k, rest))
     else rbind (parse_key s) (\<lambda>(k, rest). rbind (parse_operator_tail k rest) (\<lambda>(po, rest).
       Inr (case po of Some p \<Rightarrow> p | None \<Rightarrow> Exists k, rest))))"

subsection \<open>Keys\<close>

definition selector_key :: "qualified_tag \<Rightarrow> bool" where
  "selector_key t \<longleftrightarrow> parse_tag (tag_value t) = Inr t \<and> (tag_category t = CATEGORY_LABELS \<or>
     tag_category t = CATEGORY_RESOURCES \<and> (tag_value t = RESERVED_TYPE_LABEL_KEY \<or> tag_value t = RESERVED_URI_LABEL_KEY)) \<and>
     list_all (\<lambda>c. \<not> key_stop c) (key_text t)"

lemma utf8_simps [simp]: "utf8 [] = []" "utf8 (c # s) = utf8_char c @ utf8 s" "utf8 (s @ s') = utf8 s @ utf8 s'"
  by (simp_all add: utf8_def)

lemma octet: "n < 0x100 \<Longrightarrow> unat (of_nat n :: u8) = n"
  by (simp add: unat_of_nat)

lemma digits: "c div 0x40000 * 0x40000 + c div 0x1000 mod 0x40 * 0x1000 + c div 0x40 mod 0x40 * 0x40 + c mod 0x40 = (c::nat)"
proof -
  have "c div 0x40 = c div 0x40 div 0x40 * 0x40 + c div 0x40 mod 0x40" "c div 0x1000 = c div 0x1000 div 0x40 * 0x40 + c div 0x1000 mod 0x40"
    "c = c div 0x40 * 0x40 + c mod 0x40" by simp_all
  moreover have "c div 0x40 div 0x40 = c div 0x1000" "c div 0x1000 div 0x40 = c div 0x40000" by (simp_all add: div_mult2_eq [symmetric])
  ultimately show ?thesis by linarith
qed

lemma utf8_chars_char: "c < 0x110000 \<Longrightarrow> utf8_chars (utf8_char c @ bs) = c # utf8_chars bs"
proof -
  assume c: "c < 0x110000"
  have low: "unat (of_nat (0x80 + n mod 0x40) :: u8) = 0x80 + n mod 0x40" for n
    using mod_less_divisor [of "0x40" n] by (intro octet) simp
  consider "c < 0x80" | "0x80 \<le> c" "c < 0x800" | "0x800 \<le> c" "c < 0x10000" | "0x10000 \<le> c" by linarith
  then show ?thesis
  proof cases
    case 1
    then show ?thesis by (simp add: utf8_char_def octet del: of_nat_add)
  next
    case 2
    then have d: "c div 0x40 < 0x20" by (simp add: less_mult_imp_div_less)
    show ?thesis using 2 d by (simp add: utf8_char_def octet low del: of_nat_add)
  next
    case 3
    then have d: "c div 0x1000 < 0x10" "c div 0x40000 = 0" by (simp_all add: less_mult_imp_div_less)
    show ?thesis using 3 d digits [of c] by (simp add: utf8_char_def octet low del: of_nat_add)
  next
    case 4
    have d: "c div 0x40000 < 8" using c by (simp add: less_mult_imp_div_less)
    show ?thesis using 4 d digits [of c] by (simp add: utf8_char_def octet low del: of_nat_add)
  qed
qed

lemma utf8_chars_utf8: "\<forall>c\<in>set s. c < 0x110000 \<Longrightarrow> utf8_chars (utf8 s) = s"
  by (induction s) (simp_all add: utf8_def utf8_chars_char)

lemma utf8_char_wide: "0x80 \<le> c \<Longrightarrow> \<exists>b bs. utf8_char c = b # bs \<and> 0x7F < b"
proof -
  assume c: "0x80 \<le> c"
  have w: "0x7F < (of_nat n :: u8)" if "0x80 \<le> n" "n < 0x100" for n
    using that by (simp add: word_less_nat_alt unat_of_nat)
  have "0x7F < (of_nat (0xC0 + c div 0x40) :: u8)" if "c < 0x800" using that by (intro w) (simp_all add: less_mult_imp_div_less)
  moreover have "0x7F < (of_nat (0xE0 + c div 0x1000) :: u8)" if "c < 0x10000" using that by (intro w) (simp_all add: less_mult_imp_div_less)
  moreover have "0x7F < (of_nat (0xF0 + c div 0x40000 mod 8) :: u8)"
    using mod_less_divisor [of 8 "c div 0x40000"] by (intro w) simp_all
  ultimately show ?thesis using c by (simp add: utf8_char_def del: of_nat_add)
qed

lemma utf8_char_ne: "utf8_char c \<noteq> []"
  by (simp add: utf8_char_def)

lemma utf8_ascii: "list_all (\<lambda>b. b \<le> 0x7F) (utf8 s) \<Longrightarrow> s = map unat (utf8 s)"
proof (induction s)
  case (Cons c s)
  have "c < 0x80"
  proof (rule ccontr)
    assume "\<not> c < 0x80"
    then obtain b bs where "utf8_char c = b # bs" "0x7F < b" using utf8_char_wide [of c] by auto
    then show False using Cons.prems by (simp add: not_less [symmetric])
  qed
  then have "utf8_char c = [of_nat c]" "unat (of_nat c :: u8) = c" by (simp_all add: utf8_char_def unat_of_nat)
  then show ?case using Cons by simp
qed simp

lemma utf8_of_ascii: "list_all (\<lambda>b. b \<le> 0x7F) bs \<Longrightarrow> utf8 (map unat bs) = bs"
proof (induction bs)
  case (Cons b bs)
  then have "unat b < 0x80" by (simp add: word_le_nat_alt)
  then show ?case using Cons by (simp add: utf8_char_def)
qed simp

lemma tag_text_facts:
  assumes "parse_tag s = Inr t"
  shows "tag_value t = s" "list_all (\<lambda>b. b \<le> 0x7F) s" "SLASH \<in> set s"
proof -
  obtain d c vo n where wf: "tag_wf d c vo n" and s: "s = join_with SLASH (tag_segments d c vo n)" and t: "t = tag_of d c vo n"
    using parse_tag_sound [OF assms] by blast
  show "tag_value t = s" by (simp add: s t tag_of_def)
  show "list_all (\<lambda>b. b \<le> 0x7F) s" unfolding s by (rule tag_text_ascii [OF wf])
  show "SLASH \<in> set s" unfolding s by (cases vo) (simp_all add: tag_text)
qed

lemma selector_key_text:
  assumes "selector_key t"
  shows "utf8 (key_text t) = tag_value t" "47 \<in> set (key_text t)" "list_all (\<lambda>c. \<not> key_stop c) (key_text t)"
proof -
  have p: "parse_tag (tag_value t) = Inr t" using assms by (simp add: selector_key_def)
  show "utf8 (key_text t) = tag_value t" unfolding key_text_def by (rule utf8_of_ascii [OF tag_text_facts(2) [OF p]])
  have "unat SLASH \<in> unat ` set (tag_value t)" by (rule imageI [OF tag_text_facts(3) [OF p]])
  moreover have "unat SLASH = 47" by simp
  ultimately show "47 \<in> set (key_text t)" by (simp only: key_text_def set_map)
  show "list_all (\<lambda>c. \<not> key_stop c) (key_text t)" using assms by (simp add: selector_key_def)
qed

lemma parse_key_sound:
  assumes "parse_key s = Inr (t, rest)"
  shows "selector_key t" "s = key_text t @ rest" "rest = [] \<or> key_stop (hd rest)"
proof -
  let ?k = "takeWhile (\<lambda>c. \<not> key_stop c) s"
  have p: "parse_tag (utf8 ?k) = Inr t" and rest: "rest = dropWhile (\<lambda>c. \<not> key_stop c) s"
    and cat: "tag_category t = CATEGORY_LABELS \<or> tag_category t = CATEGORY_RESOURCES \<and> (tag_value t = RESERVED_TYPE_LABEL_KEY \<or> tag_value t = RESERVED_URI_LABEL_KEY)"
    using assms by (auto simp: parse_key_def Let_def split: if_splits)
  have k: "key_text t = ?k" using utf8_ascii [OF tag_text_facts(2) [OF p]] tag_text_facts(1) [OF p] by (simp add: key_text_def)
  have "list_all (\<lambda>c. \<not> key_stop c) ?k" by (auto simp: list_all_iff dest: set_takeWhileD)
  then show "selector_key t" using p cat tag_text_facts(1) [OF p] k by (simp add: selector_key_def)
  show "s = key_text t @ rest" by (simp add: k rest)
  show "rest = [] \<or> key_stop (hd rest)" using hd_dropWhile [of "\<lambda>c. \<not> key_stop c" s] rest by blast
qed

lemma parse_key_complete:
  assumes "selector_key t" "rest = [] \<or> key_stop (hd rest)"
  shows "parse_key (key_text t @ rest) = Inr (t, rest)"
proof -
  have all: "\<forall>c\<in>set (key_text t). \<not> key_stop c" using selector_key_text(3) [OF assms(1)] by (simp add: list_all_iff)
  have "takeWhile (\<lambda>c. \<not> key_stop c) rest = []" "dropWhile (\<lambda>c. \<not> key_stop c) rest = rest" using assms(2) by (cases rest; simp)+
  then have "takeWhile (\<lambda>c. \<not> key_stop c) (key_text t @ rest) = key_text t" "dropWhile (\<lambda>c. \<not> key_stop c) (key_text t @ rest) = rest"
    using all by (simp_all add: takeWhile_append2 dropWhile_append2)
  then show ?thesis using assms(1) selector_key_text(1) [OF assms(1)] by (auto simp: parse_key_def selector_key_def)
qed

subsection \<open>Values\<close>

definition value_char :: "nat \<Rightarrow> bool" where
  "value_char c \<longleftrightarrow> \<not> is_whitespace c \<or> c \<in> {32, 9, 10, 13}"

definition selector_value :: "ustr \<Rightarrow> bool" where
  "selector_value v \<longleftrightarrow> v \<noteq> [] \<and> length (utf8 v) \<le> LABEL_VALUE_MAX_BYTES \<and> list_all value_char v"

definition value_end :: "bool \<Rightarrow> ustr \<Rightarrow> bool" where
  "value_end in_list s \<longleftrightarrow> s = [] \<or> is_whitespace (hd s) \<or> in_list \<and> hd s \<in> {44, 41}"

lemma unescape_value_char: "unescape e = Some x \<Longrightarrow> value_char x"
  by (auto simp: unescape_def value_char_def is_whitespace_def split: if_splits)

lemma value_loop_sound:
  "value_loop b acc s = Inr (v, rest) \<Longrightarrow> list_all value_char acc \<Longrightarrow>
    list_all value_char v \<and> value_end b rest \<and> length rest \<le> length s"
proof (induction b acc s rule: value_loop.induct)
  case (2 b acc c s)
  show ?case
  proof (cases "c = 92")
    case True
    then obtain e s' x where s: "s = e # s'" "unescape e = Some x" "value_loop b (acc @ [x]) s' = Inr (v, rest)"
      using 2(3) by (auto split: list.splits option.splits)
    then show ?thesis using 2(1) [OF True s(1,2)] 2(4) unescape_value_char [OF s(2)] by simp
  next
    case False
    then show ?thesis using 2 by (auto simp: value_end_def value_char_def split: if_splits)
  qed
qed (simp add: value_end_def)

lemma value_loop_end: "value_end b s \<Longrightarrow> value_loop b acc s = Inr (acc, s)"
  by (cases s) (auto simp: value_end_def is_whitespace_def)

lemma value_loop_escaped: "list_all value_char v \<Longrightarrow> value_loop b acc (escape_value v @ s) = value_loop b (acc @ v) s"
proof (induction v arbitrary: acc)
  case (Cons c v)
  have "value_loop b acc (escape_char c @ r) = value_loop b (acc @ [c]) r" for r
    using Cons.prems by (auto simp: escape_char_def unescape_def value_char_def)
  then show ?case using Cons by (simp add: escape_value_def)
qed (simp add: escape_value_def)

lemma parse_value_sound: "parse_value b s = Inr (v, rest) \<Longrightarrow> selector_value v \<and> value_end b rest \<and> length rest \<le> length s"
  using value_loop_sound [of b "[]" s v rest]
  by (auto simp: parse_value_def validate_bounded_value_def selector_value_def utf8_char_ne split: if_splits)

lemma parse_value_complete: "selector_value v \<Longrightarrow> value_end b rest \<Longrightarrow> parse_value b (escape_value v @ rest) = Inr (v, rest)"
proof -
  assume v: "selector_value v" and e: "value_end b rest"
  have "utf8 v \<noteq> []" using v utf8_char_ne by (cases v) (auto simp: selector_value_def)
  then show ?thesis using v value_loop_escaped [of v b "[]" rest] value_loop_end [OF e]
    by (simp add: parse_value_def selector_value_def validate_bounded_value_def)
qed

lemma escaped_start:
  assumes "selector_value v"
  obtains c r where "escape_value v = c # r" "\<not> is_whitespace c"
proof -
  obtain x xs where v: "v = x # xs" and x: "value_char x" using assms by (cases v) (auto simp: selector_value_def)
  have "\<exists>c r. escape_char x = c # r \<and> \<not> is_whitespace c" using x by (auto simp: escape_char_def value_char_def is_whitespace_def)
  then show thesis using that v by (auto simp: escape_value_def)
qed

lemma skip_escaped: "selector_value v \<Longrightarrow> skip_whitespace (escape_value v @ s) = escape_value v @ s"
  using escaped_start [of v] by (metis append_Cons dropWhile.simps(2) skip_whitespace_def)

subsection \<open>Sets\<close>

lemma set_loop_sound:
  "set_loop vs s = Inr (ws, rest) \<Longrightarrow> list_all selector_value vs \<Longrightarrow>
    list_all selector_value ws \<and> ws \<noteq> [] \<and> length ws \<le> SELECTOR_MAX_SET_VALUES \<and> length rest < length s"
proof (induction vs s rule: set_loop.induct)
  case (1 vs s)
  let ?s = "skip_whitespace s"
  have len: "length ?s \<le> length s" by (simp add: skip_whitespace_def length_dropWhile_le)
  have small: "\<not> SELECTOR_MAX_SET_VALUES \<le> length vs" using "1.prems"(1) by (auto simp: set_loop.simps [of vs s] Let_def)
  then obtain v s' where p: "parse_value True ?s = Inr (v, s')"
    and tail: "(case skip_whitespace s' of c # rest \<Rightarrow> if c = 44 then set_loop (vs @ [v]) rest
           else if c = 41 then Inr (vs @ [v], rest) else Inl (invalid_input ''selector set'')
       | [] \<Rightarrow> Inl (invalid_input ''selector set'')) = Inr (ws, rest)"
    using "1.prems"(1) by (auto simp: set_loop.simps [of vs s] Let_def)
  then obtain c r where sk: "skip_whitespace s' = c # r" by (cases "skip_whitespace s'") auto
  with tail have res: "(if c = 44 then set_loop (vs @ [v]) r else if c = 41 then Inr (vs @ [v], r) else Inl (invalid_input ''selector set'')) = Inr (ws, rest)" by simp
  have v: "selector_value v" "length s' \<le> length ?s" using parse_value_sound [OF p] by auto
  have "length (c # r) \<le> length s'" unfolding sk [symmetric] by (simp add: skip_whitespace_def length_dropWhile_le)
  then have r: "length r < length s" using v(2) len by simp
  show ?case
  proof (cases "c = 44")
    case True
    then show ?thesis using "1.IH" [OF refl small p refl sk True] res "1.prems"(2) v(1) r by simp
  next
    case False
    then show ?thesis using res "1.prems"(2) v(1) r small by (auto split: if_splits)
  qed
qed

lemma set_loop_complete:
  "list_all selector_value us \<Longrightarrow> us \<noteq> [] \<Longrightarrow> length vs + length us \<le> SELECTOR_MAX_SET_VALUES \<Longrightarrow>
    set_loop vs (join_texts 44 (map escape_value us) @ 41 # rest) = Inr (vs @ us, rest)"
proof (induction us arbitrary: vs)
  case (Cons u us)
  have u: "selector_value u" using Cons.prems by simp
  have no: "skip_whitespace (c # r) = c # r" if "c \<in> {41, 44}" for c r using that by (auto simp: skip_whitespace_def is_whitespace_def)
  have small: "\<not> SELECTOR_MAX_SET_VALUES \<le> length vs" using Cons.prems(3) by simp
  show ?case
  proof (cases us)
    case Nil
    have "parse_value True (escape_value u @ 41 # rest) = Inr (u, 41 # rest)" by (rule parse_value_complete [OF u]) (simp add: value_end_def)
    then show ?thesis using Nil small skip_escaped [OF u] no by (subst set_loop.simps) simp
  next
    case (Cons w ws)
    let ?tail = "join_texts 44 (map escape_value us) @ 41 # rest"
    have "parse_value True (escape_value u @ 44 # ?tail) = Inr (u, 44 # ?tail)" by (rule parse_value_complete [OF u]) (simp add: value_end_def)
    moreover have "set_loop (vs @ [u]) ?tail = Inr ((vs @ [u]) @ us, rest)" using Cons.IH [of "vs @ [u]"] Cons.prems Cons by simp
    ultimately show ?thesis using small skip_escaped [OF u] no Cons by (subst set_loop.simps) simp
  qed
qed simp

lemma sorted_dedup_set [simp]: "set (sorted_dedup vs) = set vs"
  by (simp add: sorted_dedup_def)

lemma sorted_dedup_length: "length (sorted_dedup vs) \<le> length vs"
  using remdups_adj_length [of "sort_key utf8 vs"] by (simp add: sorted_dedup_def)

lemma sorted_remdups_adj_map: "sorted (map f xs) \<Longrightarrow> sorted (map f (remdups_adj xs))"
  by (induction xs rule: remdups_adj.induct) auto

lemma sorted_dedup_ordered: "sorted (map utf8 (sorted_dedup vs)) \<and> distinct_adj (sorted_dedup vs)"
  using sorted_remdups_adj_map [of utf8 "sort_key utf8 vs"] by (simp add: sorted_dedup_def distinct_adj_remdups_adj)

lemma sorted_dedup_idem: "sorted_dedup (sorted_dedup vs) = sorted_dedup vs"
  using sorted_dedup_ordered [of vs] by (metis distinct_adj_altdef sort_key_id_if_sorted sorted_dedup_def)

lemma sorted_dedup_Nil [simp]: "sorted_dedup vs = [] \<longleftrightarrow> vs = []"
  using sorted_dedup_set [of vs] by (metis set_empty)

subsection \<open>Predicates\<close>

fun pred_ok :: "pred \<Rightarrow> bool" where
  "pred_ok (Exists k) \<longleftrightarrow> selector_key k"
| "pred_ok (NotExists k) \<longleftrightarrow> selector_key k"
| "pred_ok (Equals k v) \<longleftrightarrow> selector_key k \<and> selector_value v"
| "pred_ok (NotEquals k v) \<longleftrightarrow> selector_key k \<and> selector_value v"
| "pred_ok (In k vs) \<longleftrightarrow> selector_key k \<and> list_all selector_value vs \<and> vs \<noteq> [] \<and> length vs \<le> SELECTOR_MAX_SET_VALUES"
| "pred_ok (NotIn k vs) \<longleftrightarrow> selector_key k \<and> list_all selector_value vs \<and> vs \<noteq> [] \<and> length vs \<le> SELECTOR_MAX_SET_VALUES"

fun canon_pred :: "pred \<Rightarrow> pred" where
  "canon_pred (In k vs) = In k (sorted_dedup vs)"
| "canon_pred (NotIn k vs) = NotIn k (sorted_dedup vs)"
| "canon_pred p = p"

lemma canon_pred_text [simp]: "pred_text (canon_pred p) = pred_text p"
  by (cases p) (simp_all add: canonical_set_def sorted_dedup_idem)

lemma canon_pred_matches [simp]: "pred_matches look (canon_pred p) = pred_matches look p"
  by (cases p) (simp_all add: list_ex_iff split: option.split)

lemma canon_pred_ok [simp]: "pred_ok p \<Longrightarrow> pred_ok (canon_pred p)"
  using sorted_dedup_length by (cases p) (auto simp: list_all_iff intro: order_trans)

lemma canon_pred_idem [simp]: "canon_pred (canon_pred p) = canon_pred p"
  by (cases p) (simp_all add: sorted_dedup_idem)

lemma strip_keyword_key:
  assumes "selector_key k" "47 \<notin> set kw"
  shows "strip_keyword kw (key_text k @ s) = None"
proof (cases "length kw < length (key_text k)")
  case True
  then have "drop (length kw) (key_text k @ s) \<noteq> []" "hd (drop (length kw) (key_text k @ s)) = key_text k ! length kw"
    by (simp_all add: hd_append hd_drop_conv_nth)
  moreover have "\<not> key_stop (key_text k ! length kw)" using selector_key_text(3) [OF assms(1)] True by (simp add: list_all_length)
  ultimately show ?thesis by (auto simp: strip_keyword_def Let_def key_stop_def)
next
  case False
  have "47 \<in> set (take (length kw) (key_text k @ s))" using False selector_key_text(2) [OF assms(1)] by simp
  then have "take (length kw) (key_text k @ s) \<noteq> kw" using assms(2) by metis
  then show ?thesis by (simp add: strip_keyword_def)
qed

lemma key_start:
  assumes "selector_key k"
  obtains c r where "key_text k = c # r" "\<not> key_stop c"
  using selector_key_text(2,3) [OF assms] by (cases "key_text k") auto

text \<open>What may follow a predicate in the canonical text: nothing, or a space and another predicate.\<close>

definition pred_end :: "ustr \<Rightarrow> bool" where
  "pred_end s \<longleftrightarrow> s = [] \<or> (\<exists>q r. s = 32 # pred_text q @ r \<and> pred_ok q)"

lemma pred_text_start:
  assumes "pred_ok q"
  shows "(\<exists>k r. pred_text q = key_text k @ r \<and> selector_key k) \<or> (\<exists>k. pred_text q = 33 # key_text k \<and> selector_key k)"
  using assms by (cases q) auto

lemma pred_end_facts:
  assumes "pred_end s"
  shows "s = [] \<or> key_stop (hd s)" "value_end b s" "parse_operator_tail k s = Inr (None, s)"
proof -
  have ws: "is_whitespace 32" by (simp add: is_whitespace_def)
  show "s = [] \<or> key_stop (hd s)" "value_end b s" using assms ws by (auto simp: pred_end_def key_stop_def value_end_def)
  have no_kw: "47 \<notin> set (lit ''in'')" "47 \<notin> set (lit ''notin'')" by (simp_all add: lit_def)
  consider (nil) "s = []" | (key) q r where "s = 32 # key_text q @ r" "selector_key q" | (bang) q r where "s = 32 # 33 # key_text q @ r" "selector_key q"
    using assms pred_text_start unfolding pred_end_def by (metis append.assoc append_Cons)
  then show "parse_operator_tail k s = Inr (None, s)"
  proof cases
    case nil
    then show ?thesis by (simp add: parse_operator_tail_def skip_whitespace_def strip_keyword_def lit_def)
  next
    case key
    obtain c x where c: "key_text q = c # x" "\<not> key_stop c" using key_start [OF key(2)] .
    then have "skip_whitespace s = key_text q @ r" using key(1) ws by (simp add: skip_whitespace_def key_stop_def)
    then show ?thesis using c strip_keyword_key [OF key(2)] no_kw by (simp add: parse_operator_tail_def key_stop_def)
  next
    case bang
    obtain c x where c: "key_text q = c # x" "\<not> key_stop c" using key_start [OF bang(2)] .
    then have "skip_whitespace s = 33 # c # x @ r" using bang(1) ws by (simp add: skip_whitespace_def is_whitespace_def)
    then show ?thesis using c by (simp add: parse_operator_tail_def key_stop_def)
  qed
qed

lemma skip_length: "length (skip_whitespace s) \<le> length s"
  by (simp add: skip_whitespace_def length_dropWhile_le)

lemma strip_keyword_length: "strip_keyword kw s = Some r \<Longrightarrow> length r \<le> length s"
  by (auto simp: strip_keyword_def Let_def split: if_splits)

lemma parse_set_sound:
  "parse_set s = Inr (vs, rest) \<Longrightarrow> list_all selector_value vs \<and> vs \<noteq> [] \<and> length vs \<le> SELECTOR_MAX_SET_VALUES \<and> length rest \<le> length s"
  using set_loop_sound [of "[]" "tl s" vs rest] by (auto simp: parse_set_def split: list.splits if_splits)

lemma parse_operator_tail_sound:
  assumes "parse_operator_tail k s = Inr (po, rest)" "selector_key k"
  shows "length rest \<le> length s" "\<And>p. po = Some p \<Longrightarrow> pred_ok p"
proof -
  let ?s = "skip_whitespace s"
  note len = skip_length [of s]
  have step: "length rest \<le> length s \<and> (\<forall>p. po = Some p \<longrightarrow> pred_ok p)"
  proof -
    consider (eq) v where "parse_value False (skip_whitespace (tl ?s)) = Inr (v, rest)" "po = Some (Equals k v)"
      | (ne) v where "parse_value False (skip_whitespace (tl (tl ?s))) = Inr (v, rest)" "po = Some (NotEquals k v)"
      | (set) kw after vs where "strip_keyword kw ?s = Some after" "parse_set (skip_whitespace after) = Inr (vs, rest)" "po = Some (In k vs) \<or> po = Some (NotIn k vs)"
      | (alone) "po = None" "rest = s"
      using assms(1) by (auto simp: parse_operator_tail_def Let_def split: if_splits option.splits)
    then show ?thesis
    proof cases
      case eq
      have "length rest \<le> length (skip_whitespace (tl ?s))" "selector_value v" using parse_value_sound [OF eq(1)] by auto
      then show ?thesis using eq(2) assms(2) skip_length [of "tl ?s"] len by auto
    next
      case ne
      have "length rest \<le> length (skip_whitespace (tl (tl ?s)))" "selector_value v" using parse_value_sound [OF ne(1)] by auto
      then show ?thesis using ne(2) assms(2) skip_length [of "tl (tl ?s)"] len by auto
    next
      case set
      have "length rest \<le> length (skip_whitespace after)" "pred_ok (In k vs)" "pred_ok (NotIn k vs)" using parse_set_sound [OF set(2)] assms(2) by auto
      then show ?thesis using set(3) skip_length [of after] strip_keyword_length [OF set(1)] len by auto
    qed simp
  qed
  then show "length rest \<le> length s" "\<And>p. po = Some p \<Longrightarrow> pred_ok p" by auto
qed

lemma parse_pred_sound:
  assumes "parse_pred s = Inr (p, rest)" "s \<noteq> []"
  shows "pred_ok p \<and> length rest < length s"
proof -
  have key: "length r < length x \<and> selector_key k" if "parse_key x = Inr (k, r)" for x k r
    using parse_key_sound [OF that] selector_key_text(2) [of k] by auto
  show ?thesis
  proof (cases "hd s = 33")
    case True
    then obtain k where "parse_key (tl s) = Inr (k, rest)" "p = NotExists k" using assms(1) by (auto simp: parse_pred_def)
    then show ?thesis using key [of "tl s" k rest] assms(2) by auto
  next
    case False
    then obtain k r po where k: "parse_key s = Inr (k, r)" and t: "parse_operator_tail k r = Inr (po, rest)"
      and p: "p = (case po of Some p \<Rightarrow> p | None \<Rightarrow> Exists k)" using assms(1) by (auto simp: parse_pred_def)
    have "length r < length s" "selector_key k" using key [OF k] by auto
    then show ?thesis using parse_operator_tail_sound [OF t] p by (auto split: option.splits)
  qed
qed

lemma operator_tail_complete:
  assumes k: "selector_key k" and rest: "value_end False rest"
  shows "selector_value v \<Longrightarrow> parse_operator_tail k (61 # escape_value v @ rest) = Inr (Some (Equals k v), rest)"
    "selector_value v \<Longrightarrow> parse_operator_tail k (33 # 61 # escape_value v @ rest) = Inr (Some (NotEquals k v), rest)"
proof -
  assume v: "selector_value v"
  note pv = parse_value_complete [OF v rest] skip_escaped [OF v, of rest]
  have skip: "skip_whitespace (61 # x) = 61 # x" "skip_whitespace (33 # x) = 33 # x" for x by (simp_all add: skip_whitespace_def is_whitespace_def)
  show "parse_operator_tail k (61 # escape_value v @ rest) = Inr (Some (Equals k v), rest)" using pv by (simp add: parse_operator_tail_def skip)
  show "parse_operator_tail k (33 # 61 # escape_value v @ rest) = Inr (Some (NotEquals k v), rest)" using pv by (simp add: parse_operator_tail_def skip)
qed

lemma set_tail_complete:
  assumes vs: "list_all selector_value vs" "vs \<noteq> []" "length vs \<le> SELECTOR_MAX_SET_VALUES"
  shows "parse_operator_tail k (lit '' in ('' @ canonical_set vs @ 41 # rest) = Inr (Some (In k (sorted_dedup vs)), rest)"
    "parse_operator_tail k (lit '' notin ('' @ canonical_set vs @ 41 # rest) = Inr (Some (NotIn k (sorted_dedup vs)), rest)"
proof -
  let ?body = "canonical_set vs @ 41 # rest"
  have "list_all selector_value (sorted_dedup vs)" using vs(1) by (simp add: list_all_iff)
  then have set: "parse_set (40 # ?body) = Inr (sorted_dedup vs, rest)"
    using set_loop_complete [of "sorted_dedup vs" "[]" rest] vs sorted_dedup_length [of vs] by (simp add: parse_set_def canonical_set_def)
  have skip: "skip_whitespace (32 # 105 # x) = 105 # x" "skip_whitespace (32 # 110 # x) = 110 # x" "skip_whitespace (32 # 40 # x) = 40 # x" for x
    by (simp_all add: skip_whitespace_def is_whitespace_def)
  have ws: "is_whitespace 32" by (simp add: is_whitespace_def)
  have kw: "strip_keyword (lit ''in'') (105 # 110 # 32 # x) = Some (32 # x)" "strip_keyword (lit ''in'') (110 # x) = None"
    "strip_keyword (lit ''notin'') (110 # 111 # 116 # 105 # 110 # 32 # x) = Some (32 # x)" for x
    using ws by (simp_all add: strip_keyword_def lit_def)
  show "parse_operator_tail k (lit '' in ('' @ ?body) = Inr (Some (In k (sorted_dedup vs)), rest)"
    using set by (simp add: parse_operator_tail_def lit_def [of "'' in (''"] skip kw)
  show "parse_operator_tail k (lit '' notin ('' @ ?body) = Inr (Some (NotIn k (sorted_dedup vs)), rest)"
    using set by (simp add: parse_operator_tail_def lit_def [of "'' notin (''"] skip kw)
qed

lemma parse_pred_complete:
  assumes p: "pred_ok p" and rest: "pred_end rest"
  shows "parse_pred (pred_text p @ rest) = Inr (canon_pred p, rest)"
proof -
  note e = pred_end_facts [OF rest]
  have key: "parse_pred (key_text k @ t @ rest) = Inr (q, rest)"
    if k: "selector_key k" and t: "t @ rest = [] \<or> key_stop (hd (t @ rest))" and tail: "parse_operator_tail k (t @ rest) = Inr (po, rest)" and q: "q = (case po of Some p \<Rightarrow> p | None \<Rightarrow> Exists k)" for k t q po
  proof -
    obtain c r where "key_text k = c # r" "\<not> key_stop c" using key_start [OF k] .
    then have "hd (key_text k @ t @ rest) \<noteq> 33" by (auto simp: key_stop_def)
    then show ?thesis using parse_key_complete [OF k t] tail q by (simp add: parse_pred_def)
  qed
  have stop: "key_stop 61" "key_stop 33" "key_stop 32" by (simp_all add: key_stop_def is_whitespace_def)
  show ?thesis
  proof (cases p)
    case (Exists k)
    then show ?thesis using key [of k "[]" None] p e(1,3) by simp
  next
    case (NotExists k)
    then show ?thesis using parse_key_complete [of k rest] p e(1) by (simp add: parse_pred_def)
  next
    case (Equals k v)
    then show ?thesis using key [of k "61 # escape_value v" "Some (Equals k v)"] p stop operator_tail_complete(1) [OF _ e(2)] by simp
  next
    case (NotEquals k v)
    then show ?thesis using key [of k "33 # 61 # escape_value v" "Some (NotEquals k v)"] p stop operator_tail_complete(2) [OF _ e(2)] by simp
  next
    case (In k vs)
    then show ?thesis using key [of k "lit '' in ('' @ canonical_set vs @ [41]" "Some (In k (sorted_dedup vs))"] p stop set_tail_complete(1) [of vs k rest]
      by (simp add: lit_def)
  next
    case (NotIn k vs)
    then show ?thesis using key [of k "lit '' notin ('' @ canonical_set vs @ [41]" "Some (NotIn k (sorted_dedup vs))"] p stop set_tail_complete(2) [of vs k rest]
      by (simp add: lit_def)
  qed
qed

subsection \<open>Selectors\<close>

function parse_stream :: "bool \<Rightarrow> pred list \<Rightarrow> ustr \<Rightarrow> pred list result" where
  "parse_stream enforce ps s0 = (let s = skip_whitespace s0 in
     if s = [] then Inr ps
     else if enforce \<and> SELECTOR_MAX_PREDICATES \<le> length ps then Inl (resource_exhausted ''selector predicates'')
     else rbind (parse_pred s) (\<lambda>(p, rest). parse_stream enforce (ps @ [p]) rest))"
  by pat_completeness auto
termination
proof (relation "measure (\<lambda>(_, _, s). length s)")
  fix s0 s x p rest and enforce :: bool and ps :: "pred list"
  assume s: "s = skip_whitespace s0" and ne: "s \<noteq> []" and p: "parse_pred s = Inr x" "(p, rest) = x"
  have "length rest < length s" using parse_pred_sound [OF _ ne, of p rest] p by simp
  then show "((enforce, ps @ [p], rest), enforce, ps, s0) \<in> measure (\<lambda>(_, _, s). length s)" using skip_length [of s0] s by simp
qed simp

declare parse_stream.simps [simp del]

record selector =
  sel_canonical :: ustr
  sel_predicates :: "pred list"

definition selector_text :: "pred list \<Rightarrow> ustr" where
  "selector_text ps = join_texts 32 (sorted_dedup (map pred_text ps))"

definition parse_selector :: "ustr \<Rightarrow> selector result" where
  "parse_selector s =
    (if s = [] \<or> SELECTOR_INPUT_MAX_BYTES < length (utf8 s) then Inl (invalid_input ''selector input'')
     else rbind (parse_stream True [] s) (\<lambda>ps.
       if ps = [] then Inl (invalid_input ''selector input'')
       else let canonical = selector_text ps in
         if SELECTOR_INPUT_MAX_BYTES < length (utf8 canonical) then Inl (invalid_input ''selector input'')
         else rbind (parse_stream False [] canonical) (\<lambda>qs. Inr \<lparr>sel_canonical = canonical, sel_predicates = qs\<rparr>)))"

definition matches_with :: "selector \<Rightarrow> (qualified_tag \<Rightarrow> ustr option) \<Rightarrow> bool" where
  "matches_with sel look = list_all (pred_matches look) (sel_predicates sel)"

text \<open>Evaluation against a label set, whose values are UTF-8 texts.\<close>

definition selector_matches :: "selector \<Rightarrow> label_set \<Rightarrow> bool" where
  "selector_matches sel ls = matches_with sel (\<lambda>t. Option.bind (from_label_tag t) (\<lambda>k. map_option utf8_chars (get_label ls k)))"

lemma parse_stream_sound:
  "parse_stream b ps s = Inr qs \<Longrightarrow> list_all pred_ok ps \<Longrightarrow> (b \<Longrightarrow> length ps \<le> SELECTOR_MAX_PREDICATES) \<Longrightarrow>
    list_all pred_ok qs \<and> (b \<longrightarrow> length qs \<le> SELECTOR_MAX_PREDICATES)"
proof (induction b ps s rule: parse_stream.induct)
  case (1 b ps s)
  let ?s = "skip_whitespace s"
  show ?case
  proof (cases "?s = []")
    case True
    then show ?thesis using "1.prems" by (simp add: parse_stream.simps [of b ps s])
  next
    case False
    have small: "\<not> (b \<and> SELECTOR_MAX_PREDICATES \<le> length ps)" using "1.prems"(1) False by (auto simp: parse_stream.simps [of b ps s] Let_def)
    then obtain p rest where p: "parse_pred ?s = Inr (p, rest)" "parse_stream b (ps @ [p]) rest = Inr qs"
      using "1.prems"(1) False by (auto simp: parse_stream.simps [of b ps s] Let_def)
    then show ?thesis using "1.IH" [OF refl False small p(1) refl p(2)] parse_pred_sound [OF p(1) False] "1.prems"(2) small by auto
  qed
qed

lemma pred_text_ne:
  assumes "pred_ok p"
  obtains c r where "pred_text p = c # r" "\<not> is_whitespace c"
proof -
  have bang: "\<not> is_whitespace 33" by (simp add: is_whitespace_def)
  from pred_text_start [OF assms] show thesis
  proof (elim disjE exE conjE)
    fix k r assume k: "pred_text p = key_text k @ r" "selector_key k"
    obtain c x where "key_text k = c # x" "\<not> key_stop c" using key_start [OF k(2)] .
    then show thesis using that [of c "x @ r"] k(1) by (simp add: key_stop_def)
  qed (use that bang in auto)
qed

lemma join_texts_Cons: "join_texts c (x # xs) = x @ (if xs = [] then [] else c # join_texts c xs)"
  by (cases xs) simp_all

lemma parse_stream_skip: "skip_whitespace s = skip_whitespace s' \<Longrightarrow> parse_stream b ps s = parse_stream b ps s'"
  by (simp only: parse_stream.simps [of b ps s] parse_stream.simps [of b ps s'])

lemma parse_stream_complete:
  "list_all pred_ok qs \<Longrightarrow> (b \<Longrightarrow> length ps + length qs \<le> SELECTOR_MAX_PREDICATES) \<Longrightarrow>
    parse_stream b ps (join_texts 32 (map pred_text qs)) = Inr (ps @ map canon_pred qs)"
proof (induction qs arbitrary: ps)
  case Nil
  show ?case by (simp add: parse_stream.simps skip_whitespace_def)
next
  case (Cons q qs)
  define rest where "rest = (if qs = [] then [] else 32 # join_texts 32 (map pred_text qs))"
  have s: "join_texts 32 (map pred_text (q # qs)) = pred_text q @ rest" by (simp add: join_texts_Cons rest_def)
  have q: "pred_ok q" using Cons.prems by simp
  obtain c r where c: "pred_text q = c # r" "\<not> is_whitespace c" using pred_text_ne [OF q] .
  have skip: "skip_whitespace (pred_text q @ rest) = pred_text q @ rest" using c by (simp add: skip_whitespace_def)
  have "pred_end rest"
  proof (cases qs)
    case (Cons x xs)
    then have "join_texts 32 (map pred_text qs) = pred_text x @ (if xs = [] then [] else 32 # join_texts 32 (map pred_text xs))" by (simp add: join_texts_Cons)
    moreover have "pred_ok x" using Cons.prems Cons by simp
    ultimately show ?thesis using Cons unfolding pred_end_def rest_def by auto
  qed (simp add: pred_end_def rest_def)
  from parse_pred_complete [OF q this] have p: "parse_pred (pred_text q @ rest) = Inr (canon_pred q, rest)" .
  have tail: "parse_stream b (ps @ [canon_pred q]) rest = parse_stream b (ps @ [canon_pred q]) (join_texts 32 (map pred_text qs))"
  proof (rule parse_stream_skip)
    have "is_whitespace 32" by (simp add: is_whitespace_def)
    then show "skip_whitespace rest = skip_whitespace (join_texts 32 (map pred_text qs))" by (simp add: rest_def skip_whitespace_def)
  qed
  have "pred_text q @ rest \<noteq> []" "\<not> (b \<and> SELECTOR_MAX_PREDICATES \<le> length ps)" using c(1) Cons.prems(2) by auto
  then have "parse_stream b ps (pred_text q @ rest) = parse_stream b (ps @ [canon_pred q]) rest"
    by (subst parse_stream.simps) (simp only: skip Let_def p if_False rbind_simps prod.case)
  then show ?case using tail Cons.IH [of "ps @ [canon_pred q]"] Cons.prems s by simp
qed

lemma preimage_list: "\<forall>x\<in>set xs. \<exists>q\<in>A. x = f q \<Longrightarrow> \<exists>qs. map f qs = xs \<and> set qs \<subseteq> A"
proof (induction xs)
  case (Cons x xs)
  then obtain q qs where "q \<in> A" "x = f q" "map f qs = xs" "set qs \<subseteq> A" by auto
  then show ?case by (intro exI [of _ "q # qs"]) simp
qed simp

text \<open>The canonical text of valid predicates is the text of a sublist of representatives.\<close>

lemma selector_text_preds:
  assumes "list_all pred_ok ps"
  obtains qs where "selector_text ps = join_texts 32 (map pred_text qs)" "map pred_text qs = sorted_dedup (map pred_text ps)"
    "set qs \<subseteq> set ps" "length qs \<le> length ps" "list_all pred_ok qs"
proof -
  have "\<forall>x\<in>set (sorted_dedup (map pred_text ps)). \<exists>q\<in>set ps. x = pred_text q" by auto
  from preimage_list [OF this] obtain qs where qs: "map pred_text qs = sorted_dedup (map pred_text ps)" "set qs \<subseteq> set ps" by metis
  moreover have "length qs \<le> length ps" using arg_cong [OF qs(1), of length] sorted_dedup_length [of "map pred_text ps"] by simp
  ultimately show thesis using that [of qs] assms by (auto simp: selector_text_def list_all_iff)
qed

lemma pred_text_inject: "pred_ok p \<Longrightarrow> pred_ok q \<Longrightarrow> pred_text p = pred_text q \<Longrightarrow> canon_pred p = canon_pred q"
  using parse_pred_complete [of p "[]"] parse_pred_complete [of q "[]"] by (simp add: pred_end_def)

lemma join_texts_ne: "xs \<noteq> [] \<Longrightarrow> \<forall>x\<in>set xs. x \<noteq> [] \<Longrightarrow> join_texts c xs \<noteq> []"
  by (cases xs) (simp_all add: join_texts_Cons)

lemma selector_reparse:
  assumes "list_all pred_ok ps" "ps \<noteq> []"
  obtains qs where "selector_text ps \<noteq> []" "\<forall>b. (b \<longrightarrow> length ps \<le> SELECTOR_MAX_PREDICATES) \<longrightarrow> parse_stream b [] (selector_text ps) = Inr qs"
    "qs \<noteq> []" "selector_text qs = selector_text ps" "\<forall>look. list_all (pred_matches look) qs = list_all (pred_matches look) ps"
    "list_all pred_ok qs" "map canon_pred qs = qs" "length qs \<le> length ps" "map pred_text qs = sorted_dedup (map pred_text ps)"
proof -
  obtain qs where qs: "selector_text ps = join_texts 32 (map pred_text qs)" "map pred_text qs = sorted_dedup (map pred_text ps)"
    "set qs \<subseteq> set ps" "length qs \<le> length ps" "list_all pred_ok qs" using selector_text_preds [OF assms(1)] .
  have ne: "qs \<noteq> []" using arg_cong [OF qs(2), of "\<lambda>x. x = []"] assms(2) by simp
  have "pred_text q \<noteq> []" if q: "q \<in> set qs" for q
  proof -
    have "pred_ok q" using qs(5) q by (simp add: list_all_iff)
    then obtain c r where "pred_text q = c # r" by (rule pred_text_ne)
    then show ?thesis by simp
  qed
  then have "\<forall>x\<in>set (map pred_text qs). x \<noteq> []" by simp
  then have "selector_text ps \<noteq> []" unfolding qs(1) using ne by (intro join_texts_ne) auto
  moreover have "parse_stream b [] (selector_text ps) = Inr (map canon_pred qs)" if "b \<longrightarrow> length ps \<le> SELECTOR_MAX_PREDICATES" for b
    using parse_stream_complete [OF qs(5), of b "[]"] that qs(1,4) by (cases b) simp_all
  moreover have "selector_text (map canon_pred qs) = selector_text ps"
    using qs(2) by (simp add: selector_text_def comp_def sorted_dedup_idem)
  moreover have "list_all (pred_matches look) (map canon_pred qs) = list_all (pred_matches look) ps" for look
  proof -
    have "\<exists>q\<in>set qs. canon_pred q = canon_pred p" if "p \<in> set ps" for p
    proof -
      have "pred_text p \<in> set (map pred_text qs)" unfolding qs(2) using that by simp
      then obtain q where "q \<in> set qs" "pred_text q = pred_text p" by auto
      then show ?thesis using pred_text_inject [of q p] that assms(1) qs(5) by (auto simp: list_all_iff)
    qed
    then have "(\<forall>q\<in>set qs. pred_matches look q) = (\<forall>p\<in>set ps. pred_matches look p)" using qs(3) canon_pred_matches by (metis subsetD)
    then show ?thesis by (simp add: list_all_iff)
  qed
  moreover have "list_all pred_ok (map canon_pred qs)" using qs(5) by (simp add: list_all_iff)
  moreover have "map canon_pred (map canon_pred qs) = map canon_pred qs" by simp
  ultimately show thesis using that [of "map canon_pred qs"] ne qs(2,4) by (simp add: comp_def)
qed

subsection \<open>Properties\<close>

text \<open>
  C8: A parsed selector round-trips: parsing its canonical text succeeds and gives the same selector, text and predicates alike. So
  the canonical text is a fixed point, within every bound, and two inputs with the same canonical text are the same selector.
\<close>

theorem selector_roundtrip:
  assumes "parse_selector s = Inr sel"
  shows "parse_selector (sel_canonical sel) = Inr sel"
proof -
  obtain ps qs where ps: "parse_stream True [] s = Inr ps" "ps \<noteq> []" and len: "\<not> SELECTOR_INPUT_MAX_BYTES < length (utf8 (selector_text ps))"
    and qs: "parse_stream False [] (selector_text ps) = Inr qs" and sel: "sel = \<lparr>sel_canonical = selector_text ps, sel_predicates = qs\<rparr>"
    using assms by (auto simp: parse_selector_def Let_def split: if_splits)
  have ok: "list_all pred_ok ps" "length ps \<le> SELECTOR_MAX_PREDICATES" using parse_stream_sound [OF ps(1)] by simp_all
  obtain rs where rs: "selector_text ps \<noteq> []" "\<forall>b. (b \<longrightarrow> length ps \<le> SELECTOR_MAX_PREDICATES) \<longrightarrow> parse_stream b [] (selector_text ps) = Inr rs"
    "rs \<noteq> []" "selector_text rs = selector_text ps" using selector_reparse [OF ok(1) ps(2)] by metis
  have "parse_stream True [] (selector_text ps) = Inr rs" "parse_stream False [] (selector_text ps) = Inr rs" using rs(2) ok(2) by simp_all
  then show ?thesis using rs(1,3,4) qs len by (simp add: parse_selector_def sel)
qed

text \<open>
  C9: Canonicalization keeps the meaning. Once the predicates of an input parse, the parse fails only when the canonical text
  outgrows the input bound, never on reading its own text back; and the selector matches exactly the labels that
  satisfy every predicate of the input.
\<close>

theorem selector_meaning:
  assumes "s \<noteq> []" "length (utf8 s) \<le> 1024" "parse_stream True [] s = Inr ps" "ps \<noteq> []"
  shows "if length (utf8 (selector_text ps)) \<le> 1024
    then \<exists>sel. parse_selector s = Inr sel \<and> sel_canonical sel = selector_text ps \<and>
      (\<forall>look. matches_with sel look \<longleftrightarrow> list_all (pred_matches look) ps)
    else parse_selector s = Inl (invalid_input ''selector input'')"
proof -
  have ok: "list_all pred_ok ps" using parse_stream_sound [OF assms(3)] by simp
  obtain qs where "parse_stream False [] (selector_text ps) = Inr qs" "\<forall>look. list_all (pred_matches look) qs = list_all (pred_matches look) ps"
    using selector_reparse [OF ok assms(4)] by metis
  then show ?thesis using assms by (simp add: parse_selector_def SELECTOR_INPUT_MAX_BYTES_def matches_with_def)
qed

text \<open>
  C10: A parsed selector is well-formed. It holds between one and sixteen predicates, each over a key of the closed key space and over
  non-empty bounded values; their texts are ordered by their bytes with no repetition side by side, the members of every set likewise,
  and the canonical text is these texts joined by single spaces.
\<close>

theorem selector_well_formed:
  assumes "parse_selector s = Inr sel"
  shows "list_all pred_ok (sel_predicates sel) \<and> sel_predicates sel \<noteq> [] \<and> length (sel_predicates sel) \<le> 16 \<and>
    (let texts = map pred_text (sel_predicates sel) in
      sorted (map utf8 texts) \<and> distinct_adj texts \<and> sel_canonical sel = join_texts 32 texts) \<and>
    (\<forall>k vs. In k vs \<in> set (sel_predicates sel) \<or> NotIn k vs \<in> set (sel_predicates sel) \<longrightarrow> sorted (map utf8 vs) \<and> distinct_adj vs)"
proof -
  obtain ps where ps: "parse_stream True [] s = Inr ps" "ps \<noteq> []" "parse_stream False [] (selector_text ps) = Inr (sel_predicates sel)"
    and canonical: "sel_canonical sel = selector_text ps"
    using assms by (auto simp: parse_selector_def Let_def split: if_splits)
  have ok: "list_all pred_ok ps" "length ps \<le> SELECTOR_MAX_PREDICATES" using parse_stream_sound [OF ps(1)] by simp_all
  obtain qs where "selector_text ps \<noteq> []"
    and again: "\<forall>b. (b \<longrightarrow> length ps \<le> SELECTOR_MAX_PREDICATES) \<longrightarrow> parse_stream b [] (selector_text ps) = Inr qs"
    and qs: "qs \<noteq> []" "selector_text qs = selector_text ps" "\<forall>look. list_all (pred_matches look) qs = list_all (pred_matches look) ps"
      "list_all pred_ok qs" "map canon_pred qs = qs" "length qs \<le> length ps" "map pred_text qs = sorted_dedup (map pred_text ps)"
    by (rule selector_reparse [OF ok(1) ps(2)])
  have "sorted (map utf8 vs) \<and> distinct_adj vs" if vs: "In k vs \<in> set qs \<or> NotIn k vs \<in> set qs" for k vs
  proof -
    have "canon_pred q = q" if "q \<in> set qs" for q using map_eq_conv [of canon_pred qs id] qs(5) that by simp
    then have "sorted_dedup vs = vs" using vs by fastforce
    then show ?thesis using sorted_dedup_ordered [of vs] by simp
  qed
  moreover have "sel_predicates sel = qs" using ps(3) again by auto
  ultimately show ?thesis
    using qs ok(2) canonical sorted_dedup_ordered [of "map pred_text ps"] by (simp add: selector_text_def SELECTOR_MAX_PREDICATES_def)
qed

subsection \<open>Witnesses\<close>

text \<open>Code equations that compare code points as binary integers, for evaluation.\<close>

lemma int_numeral: "c = numeral k \<longleftrightarrow> int c = numeral k" "c \<le> numeral k \<longleftrightarrow> int c \<le> numeral k"
    "numeral k \<le> c \<longleftrightarrow> numeral k \<le> int c" "c < numeral k \<longleftrightarrow> int c < numeral k"
  using of_nat_eq_iff [where 'a = int, of c "numeral k"] of_nat_le_iff [where 'a = int, of c "numeral k"]
    of_nat_le_iff [where 'a = int, of "numeral k" c] of_nat_less_iff [where 'a = int, of c "numeral k"]
  by simp_all

lemma is_whitespace_code [code]: "is_whitespace c = (let i = int c in 9 \<le> i \<and> i \<le> 13 \<or> i = 0x20 \<or> i = 0x85 \<or> i = 0xA0 \<or> i = 0x1680 \<or>
    0x2000 \<le> i \<and> i \<le> 0x200A \<or> i = 0x2028 \<or> i = 0x2029 \<or> i = 0x202F \<or> i = 0x205F \<or> i = 0x3000)"
  unfolding is_whitespace_def Let_def int_numeral by (rule refl)

lemma utf8_char_code [code]: "utf8_char c = (let i = int c in
    if i < 0x80 then [word_of_int i]
    else if i < 0x800 then [of_nat (0xC0 + c div 0x40), of_nat (0x80 + c mod 0x40)]
    else if i < 0x10000 then [of_nat (0xE0 + c div 0x1000), of_nat (0x80 + c div 0x40 mod 0x40), of_nat (0x80 + c mod 0x40)]
    else [of_nat (0xF0 + c div 0x40000 mod 8), of_nat (0x80 + c div 0x1000 mod 0x40), of_nat (0x80 + c div 0x40 mod 0x40), of_nat (0x80 + c mod 0x40)])"
  unfolding utf8_char_def Let_def int_numeral of_int_of_nat_eq by (rule refl)

definition sample :: ustr where
  "sample = lit ''b.io/labels/x  in ( q ,p,q) a.io/labels/y!=u !a.io/labels/z''"

lemma sample_parses: "map_sum id sel_canonical (parse_selector sample) = Inr (lit ''!a.io/labels/z a.io/labels/y!=u b.io/labels/x in (p,q)'')"
  by code_simp

lemma sample_stream: "sample \<noteq> [] \<and> length (utf8 sample) \<le> 1024 \<and> (case parse_stream True [] sample of Inl _ \<Rightarrow> False | Inr ps \<Rightarrow>
    length ps = 3 \<and> length (utf8 (selector_text ps)) \<le> 1024)"
  by code_simp

theorem selector_roundtrip_witness:
  "\<exists>sel. parse_selector sample = Inr sel \<and> sel_canonical sel \<noteq> sample \<and> parse_selector (sel_canonical sel) = Inr sel"
proof -
  obtain sel where sel: "parse_selector sample = Inr sel" "sel_canonical sel = lit ''!a.io/labels/z a.io/labels/y!=u b.io/labels/x in (p,q)''"
    using sample_parses by (cases "parse_selector sample") auto
  have "lit ''!a.io/labels/z a.io/labels/y!=u b.io/labels/x in (p,q)'' \<noteq> sample" by code_simp
  then show ?thesis using selector_roundtrip [OF sel(1)] sel by auto
qed

theorem selector_well_formed_witness:
  "\<exists>sel. parse_selector sample = Inr sel \<and> sel_predicates sel \<noteq> [] \<and> list_all pred_ok (sel_predicates sel) \<and>
    sorted (map utf8 (map pred_text (sel_predicates sel)))"
proof -
  obtain sel where "parse_selector sample = Inr sel" using sample_parses by (cases "parse_selector sample") auto
  then show ?thesis using selector_well_formed by (auto simp: Let_def)
qed

theorem selector_meaning_witness:
  "\<exists>ps sel. parse_stream True [] sample = Inr ps \<and> length ps = 3 \<and> parse_selector sample = Inr sel \<and>
    (\<forall>look. matches_with sel look \<longleftrightarrow> list_all (pred_matches look) ps)"
proof -
  obtain ps where ps: "parse_stream True [] sample = Inr ps" "length ps = 3" "length (utf8 (selector_text ps)) \<le> 1024"
    using sample_stream by (auto split: sum.splits)
  then have "ps \<noteq> []" by auto
  then show ?thesis using selector_meaning [OF conjunct1 [OF sample_stream] _ ps(1)] sample_stream ps by auto
qed

end
