(* ===== verification/Fingerprint_Index.thy ===== *)
theory Fingerprint_Index
  imports Radiata_Prelude
begin

unbundle bit_operations_syntax

section \<open>The fingerprint index\<close>

text \<open>
  The range-aggregate primitive of the reconciliation plane,
  \<^verbatim>\<open>src/src/reconcile/fingerprint.rs\<close>. An aggregate is a pair of a wrapping count and an
  exclusive-or; the index keeps its digests in 1024 buckets by their top bits and a Fenwick
  tree over the bucket aggregates. The central result is that every aggregate the index
  answers (\<open>root\<close>, \<open>prefix\<close>, \<open>range\<close>) is the aggregate of exactly the stored digests in
  that range, after any sequence of insertions and removals.
\<close>

subsection \<open>Aggregates\<close>

record fingerprint =
  fp_count :: u64
  fp_xor :: u64

definition EMPTY :: fingerprint where
  "EMPTY = \<lparr>fp_count = 0, fp_xor = 0\<rparr>"

definition new_fingerprint :: "u64 \<Rightarrow> u64 \<Rightarrow> fingerprint" where
  "new_fingerprint c x = \<lparr>fp_count = c, fp_xor = x\<rparr>"

definition singleton :: "u64 \<Rightarrow> fingerprint" where
  "singleton d = \<lparr>fp_count = 1, fp_xor = d\<rparr>"

definition combine :: "fingerprint \<Rightarrow> fingerprint \<Rightarrow> fingerprint" where
  "combine a b = \<lparr>fp_count = fp_count a + fp_count b, fp_xor = fp_xor a XOR fp_xor b\<rparr>"

definition remove_fp :: "fingerprint \<Rightarrow> fingerprint \<Rightarrow> fingerprint" where
  "remove_fp a b = \<lparr>fp_count = fp_count a - fp_count b, fp_xor = fp_xor a XOR fp_xor b\<rparr>"

definition inverse_fp :: "fingerprint \<Rightarrow> fingerprint" where
  "inverse_fp a = \<lparr>fp_count = - fp_count a, fp_xor = fp_xor a\<rparr>"

definition fp_is_empty :: "fingerprint \<Rightarrow> bool" where
  "fp_is_empty a \<longleftrightarrow> fp_count a = 0"

lemmas fp_defs = EMPTY_def new_fingerprint_def singleton_def combine_def remove_fp_def inverse_fp_def

subsection \<open>The group interface\<close>

text \<open>
  What the index relies on: aggregates form an abelian group. The list sum and its
  cancellation laws are proved once from these laws.
\<close>

locale abelian_aggregate =
  fixes comb :: "'a \<Rightarrow> 'a \<Rightarrow> 'a" and none :: 'a and neg :: "'a \<Rightarrow> 'a"
  assumes comb_assoc: "comb (comb a b) c = comb a (comb b c)"
    and comb_commute: "comb a b = comb b a"
    and comb_none: "comb a none = a"
    and comb_neg: "comb a (neg a) = none"
begin

lemma none_comb: "comb none a = a"
  using comb_none comb_commute by metis

lemma comb_left_commute: "comb a (comb b c) = comb b (comb a c)"
  using comb_assoc comb_commute by metis

lemmas comb_ac = comb_assoc comb_commute comb_left_commute

lemma comb_neg_cancel: "comb (comb a b) (neg b) = a"
  by (simp add: comb_assoc comb_neg comb_none)

lemma comb_neg_mid: "comb (comb a (comb x b)) (neg x) = comb a b"
proof -
  have "comb a (comb x b) = comb (comb a b) x" by (simp only: comb_ac)
  then show ?thesis by (simp only: comb_neg_cancel)
qed

lemma comb_right_cancel: "comb a c = comb b c \<longleftrightarrow> a = b"
  using comb_neg_cancel by metis

lemma comb_neg_eq: "comb a b = c \<longleftrightarrow> a = comb c (neg b)"
  using comb_neg_cancel comb_neg comb_none comb_assoc comb_commute by metis

lemma sum_append:
  "foldr (\<lambda>x. comb (f x)) (xs @ ys) none =
     comb (foldr (\<lambda>x. comb (f x)) xs none) (foldr (\<lambda>x. comb (f x)) ys none)"
  by (induction xs) (simp_all add: none_comb comb_assoc)

lemma foldl_sum: "foldl (\<lambda>a x. comb a (f x)) acc xs = comb acc (foldr (\<lambda>x. comb (f x)) xs none)"
  by (induction xs arbitrary: acc) (simp_all add: comb_none comb_assoc)

end

interpretation fp: abelian_aggregate combine EMPTY inverse_fp
  by unfold_locales (auto simp: fp_defs ac_simps xor.assoc xor.commute)

lemma remove_fp_inverse: "remove_fp a b = combine a (inverse_fp b)"
  by (simp add: fp_defs)

text \<open>The reference meaning: the aggregate of a list of digests.\<close>

definition aggregate :: "u64 list \<Rightarrow> fingerprint" where
  "aggregate ds = foldr (\<lambda>d. combine (singleton d)) ds EMPTY"

lemma aggregate_Nil [simp]: "aggregate [] = EMPTY"
  by (simp add: aggregate_def)

lemma aggregate_Cons [simp]: "aggregate (d # ds) = combine (singleton d) (aggregate ds)"
  by (simp add: aggregate_def)

lemma aggregate_append [simp]: "aggregate (xs @ ys) = combine (aggregate xs) (aggregate ys)"
  unfolding aggregate_def by (rule fp.sum_append)

lemma fp_count_aggregate: "fp_count (aggregate ds) = of_nat (length ds)"
  by (induction ds) (simp_all add: fp_defs)

subsection \<open>Buckets and the index\<close>

record 'v bucket =
  bk_fingerprint :: fingerprint
  bk_entries :: "(u64 \<times> 'v) list"

record 'v findex =
  ix_buckets :: "'v bucket list"
  ix_fenwick :: "fingerprint list"
  ix_root :: fingerprint
  ix_len :: nat

definition BUCKET_BITS :: nat where
  "BUCKET_BITS = 10"

definition BUCKETS :: nat where
  "BUCKETS = 2 ^ BUCKET_BITS"

definition bucket_of :: "u64 \<Rightarrow> nat" where
  "bucket_of d = unat (drop_bit (64 - BUCKET_BITS) d)"

definition new_bucket :: "'v bucket" where
  "new_bucket = \<lparr>bk_fingerprint = EMPTY, bk_entries = []\<rparr>"

definition new_index :: "'v findex" where
  "new_index = \<lparr>ix_buckets = replicate BUCKETS new_bucket,
     ix_fenwick = replicate (BUCKETS + 1) EMPTY, ix_root = EMPTY, ix_len = 0\<rparr>"

text \<open>\<^verbatim>\<open>usize::isolate_lowest_one\<close>: the lowest set bit, zero for zero.\<close>

fun isolate_lowest_one :: "nat \<Rightarrow> nat" where
  "isolate_lowest_one n =
     (if n = 0 then 0 else if odd n then 1 else 2 * isolate_lowest_one (n div 2))"

declare isolate_lowest_one.simps [simp del]

lemma isolate_lowest_one_0 [simp]: "isolate_lowest_one 0 = 0"
  by (simp add: isolate_lowest_one.simps)

lemma isolate_lowest_one_odd [simp]: "isolate_lowest_one (Suc (2 * m)) = 1"
  by (simp add: isolate_lowest_one.simps [of "Suc (2 * m)"])

lemma isolate_lowest_one_even: "isolate_lowest_one (2 * m) = 2 * isolate_lowest_one m"
  by (cases "m = 0") (simp_all add: isolate_lowest_one.simps [of "2 * m"])

lemma isolate_lowest_one_pos [simp]: "0 < isolate_lowest_one n \<longleftrightarrow> 0 < n"
proof (induction n rule: isolate_lowest_one.induct)
  case (1 n)
  then show ?case by (cases "n = 0 \<or> odd n") (auto simp: isolate_lowest_one.simps [of n] elim: evenE)
qed

text \<open>
  The point update: fold \<open>delta\<close> into every slot whose span covers \<open>slot\<close>. The source calls it
  with \<open>bucket_of digest + 1\<close> only; on slot 0, which no caller passes, its loop would not
  advance.
\<close>

function fenwick_update :: "fingerprint list \<Rightarrow> nat \<Rightarrow> fingerprint \<Rightarrow> fingerprint list" where
  "fenwick_update t slot delta =
     (if 0 < slot \<and> slot < length t
      then fenwick_update (t[slot := combine (t ! slot) delta]) (slot + isolate_lowest_one slot) delta
      else t)"
  by pat_completeness auto
termination
  by (relation "measure (\<lambda>(t, slot, delta). length t - slot)")
     (auto intro!: diff_less_mono2 simp del: isolate_lowest_one_pos simp: isolate_lowest_one_pos [THEN iffD2])

declare fenwick_update.simps [simp del]

text \<open>Clearing the lowest set bit, as the prefix query does on its counter.\<close>

lemma clear_low_odd [simp]: "Suc (2 * m) AND (2 * m) = 2 * m"
  by (simp add: and_rec [of "Suc (2 * m)"])

lemma clear_low_even:
  fixes m :: nat
  assumes "0 < m"
  shows "(2 * m) AND (2 * m - Suc 0) = 2 * (m AND (m - Suc 0))"
proof -
  from assms obtain k where "m = Suc k" by (auto simp: gr0_conv_Suc)
  then show ?thesis by (simp add: and_rec [of "Suc (Suc (2 * k))"] div_Suc)
qed

lemma clear_low_less: "0 < n \<Longrightarrow> n AND (n - Suc 0) < (n::nat)"
proof (induction n rule: isolate_lowest_one.induct)
  case (1 n)
  show ?case
  proof (cases "odd n")
    case True
    then obtain m where "n = Suc (2 * m)" by (auto elim: oddE)
    then show ?thesis by simp
  next
    case False
    then obtain m where m: "n = 2 * m" by (auto elim: evenE)
    with "1" False have "m AND (m - Suc 0) < m" by simp
    with m "1.prems" show ?thesis by (simp add: clear_low_even)
  qed
qed

text \<open>The prefix query: the aggregate of the buckets below \<open>count\<close>.\<close>

function fenwick_prefix :: "fingerprint list \<Rightarrow> nat \<Rightarrow> fingerprint \<Rightarrow> fingerprint" where
  "fenwick_prefix t count acc =
     (if 0 < count then fenwick_prefix t (count AND (count - 1)) (combine acc (t ! count)) else acc)"
  by pat_completeness auto
termination
proof (relation "measure (\<lambda>(t, count, acc). count)")
  fix t :: "fingerprint list" and count :: nat and acc
  assume "0 < count"
  then show "((t, count AND (count - 1), combine acc (t ! count)), t, count, acc)
      \<in> measure (\<lambda>(t, count, acc). count)"
    by (simp add: clear_low_less)
qed simp

declare fenwick_prefix.simps [simp del]

subsection \<open>Fenwick slots\<close>

text \<open>
  Slot \<open>s\<close> spans the buckets from \<open>s AND (s - 1)\<close> to \<open>s - 1\<close>. The two lemmas say that the
  ascent from \<open>k\<close> skips no slot whose span covers \<open>k\<close> and visits no other.
\<close>

lemma ascent_skips_none:
  "0 < k \<Longrightarrow> k < s \<Longrightarrow> s AND (s - Suc 0) < k \<Longrightarrow> k + isolate_lowest_one k \<le> s"
proof (induction k arbitrary: s rule: isolate_lowest_one.induct)
  case (1 k)
  show ?case
  proof (cases "odd k")
    case True
    then obtain a where "k = Suc (2 * a)" by (auto elim: oddE)
    with "1.prems" show ?thesis by simp
  next
    case False
    then obtain a where a: "k = 2 * a" by (auto elim: evenE)
    show ?thesis
    proof (cases "odd s")
      case True
      then obtain c where "s = Suc (2 * c)" by (auto elim: oddE)
      with a "1.prems" show ?thesis by simp
    next
      case False
      then obtain c where c: "s = 2 * c" by (auto elim: evenE)
      with a "1.prems" have "a < c" "c AND (c - Suc 0) < a" "0 < a"
        by (auto simp: clear_low_even)
      with "1.IH" [of c] a have "a + isolate_lowest_one a \<le> c" by simp
      with a c show ?thesis by (simp add: isolate_lowest_one_even)
    qed
  qed
qed

lemma even_clear_low: "even (s AND (s - Suc 0))"
proof (cases "odd s")
  case True
  then obtain c where "s = Suc (2 * c)" by (auto elim: oddE)
  then show ?thesis by simp
qed (simp add: even_and_iff)

lemma ascent_visits_no_other:
  "0 < k \<Longrightarrow> k + isolate_lowest_one k \<le> s \<Longrightarrow> s AND (s - Suc 0) < k + isolate_lowest_one k \<Longrightarrow>
     s AND (s - Suc 0) < k"
proof (induction k arbitrary: s rule: isolate_lowest_one.induct)
  case (1 k)
  show ?case
  proof (cases "odd k")
    case True
    then obtain a where "k = Suc (2 * a)" by (auto elim: oddE)
    with "1.prems" even_clear_low [of s] show ?thesis by (auto simp: less_Suc_eq)
  next
    case False
    then obtain a where a: "k = 2 * a" by (auto elim: evenE)
    show ?thesis
    proof (cases "odd s")
      case True
      then obtain c where "s = Suc (2 * c)" by (auto elim: oddE)
      with a "1.prems" show ?thesis by (simp add: isolate_lowest_one_even) presburger
    next
      case False
      then obtain c where c: "s = 2 * c" by (auto elim: evenE)
      with a "1.prems" have "a + isolate_lowest_one a \<le> c"
        "c AND (c - Suc 0) < a + isolate_lowest_one a" "0 < a" "0 < c"
        by (auto simp: clear_low_even isolate_lowest_one_even)
      with "1.IH" [of c] a have "c AND (c - Suc 0) < a" by simp
      with a c \<open>0 < c\<close> show ?thesis by (simp add: clear_low_even)
    qed
  qed
qed

lemma length_fenwick_update [simp]: "length (fenwick_update t k delta) = length t"
proof (induction t k delta rule: fenwick_update.induct)
  case (1 t k delta)
  then show ?case by (cases "0 < k \<and> k < length t") (auto simp: fenwick_update.simps [of t k])
qed

lemma fenwick_update_nth:
  "0 < k \<Longrightarrow> s < length t \<Longrightarrow>
     fenwick_update t k delta ! s =
       (if s AND (s - Suc 0) < k \<and> k \<le> s then combine (t ! s) delta else t ! s)"
proof (induction t k delta rule: fenwick_update.induct)
  case (1 t k delta)
  show ?case
  proof (cases "k < length t")
    case False
    with "1.prems" show ?thesis by (simp add: fenwick_update.simps [of t k])
  next
    case True
    let ?t' = "t[k := combine (t ! k) delta]" and ?k' = "k + isolate_lowest_one k"
    have step: "fenwick_update t k delta = fenwick_update ?t' ?k' delta"
      using True "1.prems" by (simp add: fenwick_update.simps [of t k])
    have IH: "fenwick_update ?t' ?k' delta ! s =
        (if s AND (s - Suc 0) < ?k' \<and> ?k' \<le> s then combine (?t' ! s) delta else ?t' ! s)"
      using "1.IH" "1.prems" True by simp
    have grow: "k < ?k'" using "1.prems" by simp
    show ?thesis
    proof (cases "s = k")
      case True
      with step IH grow "1.prems" \<open>k < length t\<close> clear_low_less [of k] show ?thesis by simp
    next
      case False
      have "s AND (s - Suc 0) < ?k' \<and> ?k' \<le> s \<longleftrightarrow> s AND (s - Suc 0) < k \<and> k \<le> s"
        using False "1.prems"(1) grow ascent_skips_none [of k s] ascent_visits_no_other [of k s]
        by linarith
      with step IH False show ?thesis by simp
    qed
  qed
qed

text \<open>
  The tree represents the bucket aggregates \<open>f 0, f 1, \<dots>\<close> when every slot is the difference
  of two prefix sums.
\<close>

definition prefix_sum :: "(nat \<Rightarrow> fingerprint) \<Rightarrow> nat \<Rightarrow> fingerprint" where
  "prefix_sum f n = foldr (\<lambda>i. combine (f i)) [0..<n] EMPTY"

definition fenwick_repr :: "(nat \<Rightarrow> fingerprint) \<Rightarrow> fingerprint list \<Rightarrow> bool" where
  "fenwick_repr f t \<longleftrightarrow>
     (\<forall>s. 0 < s \<longrightarrow> s < length t \<longrightarrow> combine (t ! s) (prefix_sum f (s AND (s - Suc 0))) = prefix_sum f s)"

lemma prefix_sum_0 [simp]: "prefix_sum f 0 = EMPTY"
  by (simp add: prefix_sum_def)

lemma prefix_sum_Suc: "prefix_sum f (Suc n) = combine (prefix_sum f n) (f n)"
  using fp.sum_append [of f "[0..<n]" "[n]"] by (simp add: prefix_sum_def fp.comb_none)

lemma fenwick_prefix_correct:
  "fenwick_repr f t \<Longrightarrow> n < length t \<Longrightarrow> fenwick_prefix t n acc = combine acc (prefix_sum f n)"
proof (induction t n acc rule: fenwick_prefix.induct)
  case (1 t n acc)
  show ?case
  proof (cases "n = 0")
    case False
    then have less: "n AND (n - Suc 0) < n" by (simp add: clear_low_less)
    then have "fenwick_prefix t n acc =
        combine (combine acc (t ! n)) (prefix_sum f (n AND (n - Suc 0)))"
      using False "1" by (simp add: fenwick_prefix.simps [of t n])
    also have "\<dots> = combine acc (prefix_sum f n)"
      using False "1.prems" by (simp add: fenwick_repr_def fp.comb_assoc)
    finally show ?thesis .
  next
    case True
    then show ?thesis by (simp add: fenwick_prefix.simps [of t 0] fp.comb_none)
  qed
qed

lemma prefix_sum_update:
  "prefix_sum (f(b := combine (f b) delta)) n =
     (if b < n then combine (prefix_sum f n) delta else prefix_sum f n)"
  by (induction n) (auto simp: prefix_sum_Suc less_Suc_eq fp.comb_ac)

lemma fenwick_update_repr:
  assumes "fenwick_repr f t"
  shows "fenwick_repr (f(b := combine (f b) delta)) (fenwick_update t (Suc b) delta)"
  unfolding fenwick_repr_def
proof (intro allI impI)
  fix s
  assume s: "0 < s" "s < length (fenwick_update t (Suc b) delta)"
  let ?c = "s AND (s - Suc 0)"
  from s have c: "?c < s" by (simp add: clear_low_less)
  from s assms have rep: "combine (t ! s) (prefix_sum f ?c) = prefix_sum f s"
    by (simp add: fenwick_repr_def)
  have nth: "fenwick_update t (Suc b) delta ! s = (if ?c \<le> b \<and> b < s then combine (t ! s) delta else t ! s)"
    using fenwick_update_nth [of "Suc b" s t delta] s by (auto simp: less_Suc_eq_le Suc_le_eq)
  show "combine (fenwick_update t (Suc b) delta ! s) (prefix_sum (f(b := combine (f b) delta)) ?c) =
      prefix_sum (f(b := combine (f b) delta)) s"
  proof (cases "b < ?c \<or> s \<le> b")
    case True
    with c rep show ?thesis
      unfolding prefix_sum_update nth by (auto simp: fp.comb_assoc [symmetric])
  next
    case False
    have "combine (combine (t ! s) delta) (prefix_sum f ?c) = combine (prefix_sum f s) delta"
      unfolding rep [symmetric] by (simp only: fp.comb_ac)
    with False show ?thesis unfolding prefix_sum_update nth by simp
  qed
qed

subsection \<open>Index operations\<close>

definition iter_index :: "'v findex \<Rightarrow> (u64 \<times> 'v) list" where
  "iter_index ix = concat (map bk_entries (ix_buckets ix))"

definition get_index :: "'v findex \<Rightarrow> u64 \<Rightarrow> 'v option" where
  "get_index ix digest =
     (let es = bk_entries (ix_buckets ix ! bucket_of digest);
          position = partition_point (\<lambda>e. fst e < digest) es
      in if position < length es \<and> fst (es ! position) = digest
         then Some (snd (es ! position)) else None)"

definition contains_index :: "'v findex \<Rightarrow> u64 \<Rightarrow> bool" where
  "contains_index ix digest \<longleftrightarrow> get_index ix digest \<noteq> None"

definition insert_index :: "'v findex \<Rightarrow> u64 \<Rightarrow> 'v \<Rightarrow> 'v option \<times> 'v findex" where
  "insert_index ix digest v =
     (let i = bucket_of digest;
          b = ix_buckets ix ! i;
          es = bk_entries b;
          position = partition_point (\<lambda>e. fst e < digest) es
      in if position < length es \<and> fst (es ! position) = digest
         then (Some (snd (es ! position)),
               ix\<lparr>ix_buckets := (ix_buckets ix)[i := b\<lparr>bk_entries := es[position := (digest, v)]\<rparr>]\<rparr>)
         else (None,
               ix\<lparr>ix_buckets := (ix_buckets ix)[i := b
                    \<lparr>bk_fingerprint := combine (bk_fingerprint b) (singleton digest),
                     bk_entries := take position es @ (digest, v) # drop position es\<rparr>],
                  ix_fenwick := fenwick_update (ix_fenwick ix) (i + 1) (singleton digest),
                  ix_root := combine (ix_root ix) (singleton digest),
                  ix_len := ix_len ix + 1\<rparr>))"

definition remove_index :: "'v findex \<Rightarrow> u64 \<Rightarrow> 'v option \<times> 'v findex" where
  "remove_index ix digest =
     (let i = bucket_of digest;
          b = ix_buckets ix ! i;
          es = bk_entries b;
          position = partition_point (\<lambda>e. fst e < digest) es
      in if position < length es \<and> fst (es ! position) = digest
         then (Some (snd (es ! position)),
               ix\<lparr>ix_buckets := (ix_buckets ix)[i := b
                    \<lparr>bk_fingerprint := remove_fp (bk_fingerprint b) (singleton digest),
                     bk_entries := take position es @ drop (Suc position) es\<rparr>],
                  ix_fenwick := fenwick_update (ix_fenwick ix) (i + 1) (inverse_fp (singleton digest)),
                  ix_root := remove_fp (ix_root ix) (singleton digest),
                  ix_len := ix_len ix - 1\<rparr>)
         else (None, ix))"

definition prefix_index :: "'v findex \<Rightarrow> u64 \<Rightarrow> fingerprint" where
  "prefix_index ix bound =
     (let i = bucket_of bound
      in foldl (\<lambda>acc e. combine acc (singleton (fst e)))
           (fenwick_prefix (ix_fenwick ix) i EMPTY)
           (takeWhile (\<lambda>e. fst e < bound) (bk_entries (ix_buckets ix ! i))))"

definition range_index :: "'v findex \<Rightarrow> u64 \<Rightarrow> u64 \<Rightarrow> fingerprint" where
  "range_index ix start end_excl =
     (if start \<ge> end_excl then EMPTY
      else remove_fp (prefix_index ix end_excl) (prefix_index ix start))"

definition range_entries :: "'v findex \<Rightarrow> u64 \<Rightarrow> u64 \<Rightarrow> (u64 \<times> 'v) list" where
  "range_entries ix start end_excl =
     filter (\<lambda>e. start \<le> fst e \<and> fst e < end_excl)
       (concat (map bk_entries
         (if start \<ge> end_excl then []
          else drop (bucket_of start) (take (Suc (bucket_of end_excl)) (ix_buckets ix)))))"

subsection \<open>Well-formed indexes\<close>

abbreviation bucket_fps :: "'v findex \<Rightarrow> nat \<Rightarrow> fingerprint" where
  "bucket_fps ix \<equiv> \<lambda>i. bk_fingerprint (ix_buckets ix ! i)"

definition bucket_ok :: "nat \<Rightarrow> 'v bucket \<Rightarrow> bool" where
  "bucket_ok i b \<longleftrightarrow> sorted_keys (bk_entries b) \<and> (\<forall>e\<in>set (bk_entries b). bucket_of (fst e) = i) \<and>
     bk_fingerprint b = aggregate (map fst (bk_entries b))"

definition index_ok :: "'v findex \<Rightarrow> bool" where
  "index_ok ix \<longleftrightarrow> length (ix_buckets ix) = BUCKETS \<and> length (ix_fenwick ix) = BUCKETS + 1 \<and>
     (\<forall>i<BUCKETS. bucket_ok i (ix_buckets ix ! i)) \<and> fenwick_repr (bucket_fps ix) (ix_fenwick ix) \<and>
     ix_root ix = aggregate (map fst (iter_index ix)) \<and> ix_len ix = length (iter_index ix)"

lemma bucket_of_unat: "bucket_of d = unat d div 2 ^ 54"
  unfolding bucket_of_def BUCKET_BITS_def unat_drop_bit_eq by (simp add: drop_bit_eq_div)

lemma bucket_of_less [simp]: "bucket_of d < BUCKETS"
proof -
  have "unat d < 2 ^ 64" using unsigned_less [of d] by simp
  then show ?thesis by (simp add: bucket_of_unat BUCKETS_def BUCKET_BITS_def less_mult_imp_div_less)
qed

lemma bucket_of_mono: "d \<le> e \<Longrightarrow> bucket_of d \<le> bucket_of e"
  by (simp add: bucket_of_unat div_le_mono word_le_nat_alt)

lemma bucket_of_less_imp: "bucket_of d < bucket_of e \<Longrightarrow> d < e"
  using bucket_of_mono [of e d] by (meson leD leI)

lemma buckets_sorted:
  assumes "\<forall>i<n. bucket_ok i (bs ! i)" and "n \<le> length bs"
  shows "sorted_keys (concat (map bk_entries (take n bs))) \<and>
    (\<forall>e\<in>set (concat (map bk_entries (take n bs))). bucket_of (fst e) < n) \<and>
    aggregate (map fst (concat (map bk_entries (take n bs)))) = prefix_sum (\<lambda>i. bk_fingerprint (bs ! i)) n"
  using assms
proof (induction n)
  case (Suc n)
  then have n: "n < length bs" "bucket_ok n (bs ! n)" by auto
  from Suc n have IH: "sorted_keys (concat (map bk_entries (take n bs)))"
    "\<forall>e\<in>set (concat (map bk_entries (take n bs))). bucket_of (fst e) < n"
    "aggregate (map fst (concat (map bk_entries (take n bs)))) = prefix_sum (\<lambda>i. bk_fingerprint (bs ! i)) n"
    by auto
  have split: "concat (map bk_entries (take (Suc n) bs)) =
      concat (map bk_entries (take n bs)) @ bk_entries (bs ! n)"
    using n by (simp add: take_Suc_conv_app_nth)
  have bn: "\<forall>e\<in>set (bk_entries (bs ! n)). bucket_of (fst e) = n"
    using n by (simp add: bucket_ok_def)
  have less: "fst a < fst b"
    if "a \<in> set (concat (map bk_entries (take n bs)))" "b \<in> set (bk_entries (bs ! n))" for a b
    using IH(2) bn that by (intro bucket_of_less_imp) fastforce
  have "sorted_keys (concat (map bk_entries (take (Suc n) bs)))"
    unfolding split using IH(1) n less by (simp add: sorted_wrt_append bucket_ok_def)
  moreover have "\<forall>e\<in>set (concat (map bk_entries (take (Suc n) bs))). bucket_of (fst e) < Suc n"
    unfolding split set_append using IH(2) bn by (metis UnE less_Suc_eq)
  moreover have "aggregate (map fst (concat (map bk_entries (take (Suc n) bs)))) =
      prefix_sum (\<lambda>i. bk_fingerprint (bs ! i)) (Suc n)"
    unfolding split using IH(3) n by (simp add: prefix_sum_Suc bucket_ok_def)
  ultimately show ?case by blast
qed simp

text \<open>
  The bucket of a digest splits the enumeration: everything before it is below, everything
  after it is above.
\<close>

lemma index_split:
  assumes "index_ok ix"
  obtains A C where
    "iter_index ix = A @ bk_entries (ix_buckets ix ! bucket_of d) @ C"
    "\<And>b. concat (map bk_entries ((ix_buckets ix)[bucket_of d := b])) = A @ bk_entries b @ C"
    "\<forall>e\<in>set A. fst e < d \<and> bucket_of (fst e) \<noteq> bucket_of d"
    "\<forall>e\<in>set C. d < fst e \<and> bucket_of (fst e) \<noteq> bucket_of d"
    "aggregate (map fst A) = prefix_sum (bucket_fps ix) (bucket_of d)"
proof -
  let ?bs = "ix_buckets ix" and ?i = "bucket_of d"
  let ?A = "concat (map bk_entries (take ?i ?bs))" and ?C = "concat (map bk_entries (drop (Suc ?i) ?bs))"
  from assms have len: "length ?bs = BUCKETS" and ok: "\<forall>j<BUCKETS. bucket_ok j (?bs ! j)"
    by (auto simp: index_ok_def)
  then have i: "?i < length ?bs" by simp
  have upd: "concat (map bk_entries (?bs[?i := b])) = ?A @ bk_entries b @ ?C" for b
    using i by (simp add: upd_conv_take_nth_drop)
  have low: "\<forall>j<?i. bucket_ok j (?bs ! j)"
    using ok i len by (auto intro: less_trans [OF _ bucket_of_less])
  have A: "\<forall>e\<in>set ?A. bucket_of (fst e) < ?i"
    "aggregate (map fst ?A) = prefix_sum (bucket_fps ix) ?i"
    using buckets_sorted [OF low] i by auto
  have C: "\<forall>e\<in>set ?C. ?i < bucket_of (fst e)"
  proof
    fix e assume "e \<in> set ?C"
    then obtain b where "b \<in> set (drop (Suc ?i) ?bs)" "e \<in> set (bk_entries b)"
      by auto
    then obtain j where "j < length (drop (Suc ?i) ?bs)" "e \<in> set (bk_entries (drop (Suc ?i) ?bs ! j))"
      by (metis in_set_conv_nth)
    then have "Suc ?i + j < BUCKETS" "e \<in> set (bk_entries (?bs ! (Suc ?i + j)))"
      using len by auto
    with ok have "bucket_of (fst e) = Suc ?i + j" by (auto simp: bucket_ok_def)
    then show "?i < bucket_of (fst e)" by simp
  qed
  show ?thesis
  proof (rule that [of ?A ?C])
    show "iter_index ix = ?A @ bk_entries (?bs ! ?i) @ ?C"
      using upd [of "?bs ! ?i"] by (simp add: iter_index_def)
    show "\<forall>e\<in>set ?A. fst e < d \<and> bucket_of (fst e) \<noteq> ?i"
      using A(1) bucket_of_less_imp by fastforce
    show "\<forall>e\<in>set ?C. d < fst e \<and> bucket_of (fst e) \<noteq> ?i"
      using C bucket_of_less_imp by fastforce
  qed (fact upd A(2))+
qed

subsection \<open>What the operations do\<close>

definition index_map :: "'v findex \<Rightarrow> u64 \<rightharpoonup> 'v" where
  "index_map ix = map_of (iter_index ix)"

lemma index_bucket_ok: "index_ok ix \<Longrightarrow> bucket_ok (bucket_of d) (ix_buckets ix ! bucket_of d)"
  by (simp add: index_ok_def)

lemma iter_index_sorted: "index_ok ix \<Longrightarrow> sorted_keys (iter_index ix)"
  using buckets_sorted [of BUCKETS "ix_buckets ix"] by (simp add: index_ok_def iter_index_def)

lemma index_ok_new: "index_ok new_index"
proof -
  have entries: "iter_index new_index = []"
    by (simp add: iter_index_def new_index_def new_bucket_def)
  have sums: "prefix_sum (bucket_fps new_index) n = EMPTY" if "n \<le> BUCKETS" for n
    using that by (induction n) (auto simp: prefix_sum_Suc new_index_def new_bucket_def fp.comb_none)
  have "fenwick_repr (bucket_fps new_index) (ix_fenwick new_index)"
    unfolding fenwick_repr_def
  proof (intro allI impI)
    fix s assume s: "0 < s" "s < length (ix_fenwick new_index)"
    then have "s AND (s - Suc 0) \<le> BUCKETS" "s \<le> BUCKETS"
      using clear_low_less [of s] by (simp_all add: new_index_def)
    moreover have "ix_fenwick new_index ! s = EMPTY"
      using s by (simp add: new_index_def)
    ultimately show "combine (ix_fenwick new_index ! s) (prefix_sum (bucket_fps new_index) (s AND (s - Suc 0)))
        = prefix_sum (bucket_fps new_index) s"
      by (simp only: sums fp.comb_none)
  qed
  then show ?thesis
    unfolding index_ok_def entries by (simp add: new_index_def new_bucket_def bucket_ok_def)
qed

lemma index_map_new: "index_map new_index = Map.empty"
  by (simp add: index_map_def iter_index_def new_index_def new_bucket_def)

lemma bucket_ne_key: "bucket_of a \<noteq> bucket_of d \<Longrightarrow> a \<noteq> d"
  by auto

lemma index_map_bucket:
  assumes "index_ok ix"
  shows "index_map ix d = map_of (bk_entries (ix_buckets ix ! bucket_of d)) d"
proof -
  obtain A C where split: "iter_index ix = A @ bk_entries (ix_buckets ix ! bucket_of d) @ C"
    "\<forall>e\<in>set A. fst e < d \<and> bucket_of (fst e) \<noteq> bucket_of d"
    "\<forall>e\<in>set C. d < fst e \<and> bucket_of (fst e) \<noteq> bucket_of d"
    using index_split [OF assms, of d] by metis
  have "map_of A d = None" "map_of C d = None"
    using split(2,3) by (simp_all add: map_of_all_less map_of_all_greater)
  then show ?thesis
    by (simp add: index_map_def split(1) map_add_def split: option.splits)
qed

lemma get_index_map:
  assumes "index_ok ix"
  shows "get_index ix d = index_map ix d"
proof -
  have "sorted_keys (bk_entries (ix_buckets ix ! bucket_of d))"
    using index_bucket_ok [OF assms] by (simp add: bucket_ok_def)
  then show ?thesis
  proof (cases rule: sorted_keys_cases [where k = d])
    case (hit ls v rs)
    then show ?thesis
      unfolding index_map_bucket [OF assms]
      by (simp add: get_index_def nth_append map_of_all_less map_add_def split: option.splits)
  next
    case (miss ls rs)
    then have "rs = [] \<or> fst (rs ! 0) \<noteq> d" by (cases rs) auto
    with miss show ?thesis
      unfolding index_map_bucket [OF assms]
      by (simp add: get_index_def nth_append map_of_all_less map_of_all_greater map_add_def)
  qed
qed

text \<open>Changing one bucket by \<open>delta\<close>, in the bucket, the tree and the root.\<close>

lemma index_update_ok:
  assumes ok: "index_ok ix" and i: "i = bucket_of d" and b: "bucket_ok i b"
    and fp: "bk_fingerprint b = combine (bk_fingerprint (ix_buckets ix ! i)) delta"
    and n: "n + length (bk_entries (ix_buckets ix ! i)) = ix_len ix + length (bk_entries b)"
  shows "index_ok (ix\<lparr>ix_buckets := (ix_buckets ix)[i := b],
           ix_fenwick := fenwick_update (ix_fenwick ix) (Suc i) delta,
           ix_root := combine (ix_root ix) delta, ix_len := n\<rparr>)" (is "index_ok ?ix'")
proof -
  let ?b = "ix_buckets ix ! i"
  obtain A C where split: "iter_index ix = A @ bk_entries ?b @ C"
    and upd: "\<And>b. concat (map bk_entries ((ix_buckets ix)[i := b])) = A @ bk_entries b @ C"
    using index_split [OF ok, of d] i by metis
  have ib: "i < length (ix_buckets ix)" using ok i by (simp add: index_ok_def)
  have fps: "bucket_fps ?ix' = (bucket_fps ix)(i := combine (bucket_fps ix i) delta)"
    using ib fp by (auto simp: fun_eq_iff nth_list_update)
  have agg: "aggregate (map fst (bk_entries b)) = combine (aggregate (map fst (bk_entries ?b))) delta"
    using b fp index_bucket_ok [OF ok] i by (simp add: bucket_ok_def)
  have iter: "iter_index ?ix' = A @ bk_entries b @ C"
    using upd by (simp add: iter_index_def)
  have old: "ix_root ix = aggregate (map fst (A @ bk_entries ?b @ C))"
    "ix_len ix = length (A @ bk_entries ?b @ C)"
    using ok unfolding split [symmetric] index_ok_def by simp_all
  have root: "aggregate (map fst (A @ bk_entries b @ C)) = combine (ix_root ix) delta"
    unfolding old(1) map_append aggregate_append agg by (simp only: fp.comb_ac)
  have len: "length (A @ bk_entries b @ C) = n"
    using n old(2) by simp
  have "\<forall>j<BUCKETS. bucket_ok j (ix_buckets ?ix' ! j)"
    using ok b ib by (auto simp: index_ok_def nth_list_update)
  moreover have "fenwick_repr (bucket_fps ?ix') (ix_fenwick ?ix')"
    unfolding fps using ok fenwick_update_repr [of "bucket_fps ix" "ix_fenwick ix" i delta]
    by (simp add: index_ok_def)
  ultimately show ?thesis
    unfolding index_ok_def iter root len using ok by (simp add: index_ok_def)
qed

lemma index_map_update:
  assumes ok: "index_ok ix" and i: "i = bucket_of d"
    and others: "\<And>k. k \<noteq> d \<Longrightarrow> map_of (bk_entries b) k = map_of (bk_entries (ix_buckets ix ! i)) k"
    and keys: "\<forall>e\<in>set (bk_entries b). bucket_of (fst e) = i"
    and buckets: "ix_buckets ix' = (ix_buckets ix)[i := b]"
  shows "index_map ix' = (index_map ix)(d := map_of (bk_entries b) d)"
proof -
  obtain A C where split: "iter_index ix = A @ bk_entries (ix_buckets ix ! i) @ C"
    and upd: "\<And>b. concat (map bk_entries ((ix_buckets ix)[i := b])) = A @ bk_entries b @ C"
    and A: "\<forall>e\<in>set A. fst e < d \<and> bucket_of (fst e) \<noteq> bucket_of d"
    and C: "\<forall>e\<in>set C. d < fst e \<and> bucket_of (fst e) \<noteq> bucket_of d"
    using index_split [OF ok, of d] i by metis
  have iter: "iter_index ix' = A @ bk_entries b @ C"
    using upd buckets by (simp add: iter_index_def)
  have "map_of A d = None" "map_of C d = None"
    using A C by (simp_all add: map_of_all_less map_of_all_greater)
  then show ?thesis
    using others by (auto simp: fun_eq_iff index_map_def iter split map_add_def split: option.splits)
qed

lemma bucket_length_le:
  assumes "index_ok ix"
  shows "length (bk_entries (ix_buckets ix ! bucket_of d)) \<le> ix_len ix"
proof -
  obtain A C where "iter_index ix = A @ bk_entries (ix_buckets ix ! bucket_of d) @ C"
    using index_split [OF assms, of d] by metis
  with assms show ?thesis by (simp add: index_ok_def)
qed

lemma insert_index_correct:
  assumes ok: "index_ok ix" and ins: "insert_index ix d v = (old, ix')"
  shows "index_ok ix' \<and> old = index_map ix d \<and> index_map ix' = (index_map ix)(d \<mapsto> v)"
proof -
  let ?i = "bucket_of d" and ?b = "ix_buckets ix ! bucket_of d"
  note b = index_bucket_ok [OF ok, of d, unfolded bucket_ok_def]
  from b have "sorted_keys (bk_entries ?b)" by simp
  then show ?thesis
  proof (cases rule: sorted_keys_cases [where k = d])
    case (hit ls w rs)
    let ?b' = "?b\<lparr>bk_entries := ls @ (d, v) # rs\<rparr>"
    have ix': "old = Some w" "ix' = ix\<lparr>ix_buckets := (ix_buckets ix)[?i := ?b']\<rparr>"
      using ins hit by (auto simp: insert_index_def Let_def nth_append)
    have old: "index_map ix d = Some w"
      unfolding index_map_bucket [OF ok] using hit by (simp add: map_of_all_less map_add_def)
    have b': "bucket_ok ?i ?b'" "bk_fingerprint ?b' = bk_fingerprint ?b"
      "map fst (bk_entries ?b') = map fst (bk_entries ?b)"
      using b hit by (auto simp: bucket_ok_def)
    have "index_ok (ix\<lparr>ix_buckets := (ix_buckets ix)[?i := ?b']\<rparr>)"
    proof -
      obtain A C where split: "iter_index ix = A @ bk_entries ?b @ C"
        and upd: "\<And>b. concat (map bk_entries ((ix_buckets ix)[?i := b])) = A @ bk_entries b @ C"
        using index_split [OF ok, of d] by metis
      have iter: "iter_index (ix\<lparr>ix_buckets := (ix_buckets ix)[?i := ?b']\<rparr>) = A @ bk_entries ?b' @ C"
        using upd by (simp add: iter_index_def)
      have same: "map fst (A @ bk_entries ?b' @ C) = map fst (iter_index ix)"
        "length (A @ bk_entries ?b' @ C) = length (iter_index ix)"
        unfolding split map_append b'(3) using hit by simp_all
      have fps: "bucket_fps (ix\<lparr>ix_buckets := (ix_buckets ix)[?i := ?b']\<rparr>) = bucket_fps ix"
        using ok b'(2) by (auto simp: fun_eq_iff nth_list_update index_ok_def)
      show ?thesis
        unfolding index_ok_def iter same fps using ok b'(1)
        by (auto simp: index_ok_def nth_list_update)
    qed
    moreover have "index_map ix' = (index_map ix)(d := map_of (bk_entries ?b') d)"
      by (rule index_map_update [OF ok refl]) (use b hit ix' in \<open>auto simp: map_add_def split: option.splits\<close>)
    ultimately show ?thesis
      using ix' old hit by (simp add: map_of_all_less map_add_def)
  next
    case (miss ls rs)
    let ?b' = "?b\<lparr>bk_fingerprint := combine (bk_fingerprint ?b) (singleton d), bk_entries := ls @ (d, v) # rs\<rparr>"
    from miss have "rs = [] \<or> fst (rs ! 0) \<noteq> d" by (cases rs) auto
    then have ix': "old = None" "ix' = ix\<lparr>ix_buckets := (ix_buckets ix)[?i := ?b'],
        ix_fenwick := fenwick_update (ix_fenwick ix) (Suc ?i) (singleton d),
        ix_root := combine (ix_root ix) (singleton d), ix_len := ix_len ix + 1\<rparr>"
      using ins miss by (auto simp: insert_index_def Let_def nth_append)
    have old: "index_map ix d = None"
      unfolding index_map_bucket [OF ok] using miss by (simp add: map_of_all_less map_of_all_greater map_add_def)
    have "sorted_keys (ls @ (d, v) # rs)"
      using miss(3-6) by (rule sorted_keys_between)
    moreover have "combine (aggregate (map fst (ls @ rs))) (singleton d) =
        aggregate (map fst (ls @ (d, v) # rs))"
      by (simp add: fp.comb_ac)
    ultimately have b': "bucket_ok ?i ?b'"
      using b miss(1) by (auto simp: bucket_ok_def)
    have "index_ok ix'"
      unfolding ix' by (rule index_update_ok [OF ok refl b']) (use miss in simp_all)
    moreover have "index_map ix' = (index_map ix)(d := map_of (bk_entries ?b') d)"
      by (rule index_map_update [OF ok refl]) (use b miss ix' in \<open>auto simp: map_add_def split: option.splits\<close>)
    ultimately show ?thesis
      using ix' old miss by (simp add: map_of_all_less map_add_def)
  qed
qed

lemma remove_index_correct:
  assumes ok: "index_ok ix" and rem: "remove_index ix d = (old, ix')"
  shows "index_ok ix' \<and> old = index_map ix d \<and> index_map ix' = (index_map ix)(d := None)"
proof -
  let ?i = "bucket_of d" and ?b = "ix_buckets ix ! bucket_of d"
  note b = index_bucket_ok [OF ok, of d, unfolded bucket_ok_def]
  from b have "sorted_keys (bk_entries ?b)" by simp
  then show ?thesis
  proof (cases rule: sorted_keys_cases [where k = d])
    case (hit ls w rs)
    let ?b' = "?b\<lparr>bk_fingerprint := remove_fp (bk_fingerprint ?b) (singleton d), bk_entries := ls @ rs\<rparr>"
    have ix': "old = Some w" "ix' = ix\<lparr>ix_buckets := (ix_buckets ix)[?i := ?b'],
        ix_fenwick := fenwick_update (ix_fenwick ix) (Suc ?i) (inverse_fp (singleton d)),
        ix_root := combine (ix_root ix) (inverse_fp (singleton d)), ix_len := ix_len ix - 1\<rparr>"
      using rem hit by (auto simp: remove_index_def Let_def nth_append remove_fp_inverse)
    have old: "index_map ix d = Some w"
      unfolding index_map_bucket [OF ok] using hit by (simp add: map_of_all_less map_add_def)
    have "combine (combine (aggregate (map fst ls)) (combine (singleton d) (aggregate (map fst rs))))
        (inverse_fp (singleton d)) = combine (aggregate (map fst ls)) (aggregate (map fst rs))"
      by (rule fp.comb_neg_mid)
    moreover have "sorted_keys (ls @ rs)"
      using hit(3-6) by (rule sorted_keys_between)
    ultimately have b': "bucket_ok ?i ?b'"
      using b hit(1) by (auto simp: bucket_ok_def remove_fp_inverse)
    have "length (bk_entries ?b) \<le> ix_len ix"
      using ok by (intro bucket_length_le)
    then have "index_ok ix'"
      unfolding ix' by (intro index_update_ok [OF ok refl b']) (use hit in \<open>simp_all add: remove_fp_inverse\<close>)
    moreover have "index_map ix' = (index_map ix)(d := map_of (bk_entries ?b') d)"
      by (rule index_map_update [OF ok refl]) (use b hit ix' in \<open>auto simp: map_add_def split: option.splits\<close>)
    ultimately show ?thesis
      using ix' old hit by (simp add: map_of_all_less map_of_all_greater map_add_def)
  next
    case (miss ls rs)
    from miss have "rs = [] \<or> fst (rs ! 0) \<noteq> d" by (cases rs) auto
    then have ix': "old = None" "ix' = ix"
      using rem miss by (auto simp: remove_index_def Let_def nth_append)
    have old: "index_map ix d = None"
      unfolding index_map_bucket [OF ok] using miss by (simp add: map_of_all_less map_of_all_greater map_add_def)
    with ix' ok show ?thesis by (simp add: fun_upd_idem)
  qed
qed

lemma aggregate_filter_partition:
  "aggregate (filter P ds) = combine (aggregate (filter (\<lambda>d. P d \<and> Q d) ds))
     (aggregate (filter (\<lambda>d. P d \<and> \<not> Q d) ds))"
  by (induction ds) (auto simp: fp.comb_none fp.comb_ac)

lemma prefix_index_correct:
  assumes ok: "index_ok ix"
  shows "prefix_index ix bound = aggregate (filter (\<lambda>d. d < bound) (map fst (iter_index ix)))"
proof -
  let ?i = "bucket_of bound"
  let ?es = "bk_entries (ix_buckets ix ! ?i)"
  obtain A C where split: "iter_index ix = A @ ?es @ C"
    and A: "\<forall>e\<in>set A. fst e < bound \<and> bucket_of (fst e) \<noteq> ?i"
    and C: "\<forall>e\<in>set C. bound < fst e \<and> bucket_of (fst e) \<noteq> ?i"
    and agg: "aggregate (map fst A) = prefix_sum (bucket_fps ix) ?i"
    using index_split [OF ok, of bound] by metis
  have "sorted_keys ?es"
    using index_bucket_ok [OF ok, of bound] by (simp add: bucket_ok_def)
  then obtain ls rs where es: "?es = ls @ rs" "takeWhile (\<lambda>e. fst e < bound) ?es = ls"
    "\<forall>e\<in>set ls. fst e < bound" "\<forall>e\<in>set rs. bound \<le> fst e"
    by (rule sorted_keys_split [where k = bound])
  have "filter (\<lambda>d. d < bound) (map fst (iter_index ix)) = map fst A @ map fst ls"
    unfolding split es(1) using A C es(3,4) by (auto simp: filter_id_conv filter_empty_conv)
  moreover have "fenwick_prefix (ix_fenwick ix) ?i EMPTY = aggregate (map fst A)"
    using ok fenwick_prefix_correct [of "bucket_fps ix" "ix_fenwick ix" ?i EMPTY]
    by (simp add: agg index_ok_def fp.none_comb less_SucI)
  moreover have "foldl (\<lambda>acc e. combine acc (singleton (fst e))) acc es =
      combine acc (aggregate (map fst es))" for acc es
    unfolding fp.foldl_sum by (simp add: aggregate_def foldr_map comp_def)
  ultimately show ?thesis
    unfolding prefix_index_def Let_def es(2) by simp
qed

lemma range_index_correct:
  assumes ok: "index_ok ix"
  shows "range_index ix s e = aggregate (filter (\<lambda>d. s \<le> d \<and> d < e) (map fst (iter_index ix)))"
proof (cases "e \<le> s")
  case True
  then have "filter (\<lambda>d. s \<le> d \<and> d < e) (map fst (iter_index ix)) = []"
    by (auto simp: filter_empty_conv)
  with True show ?thesis by (simp add: range_index_def)
next
  case False
  have low: "filter (\<lambda>d. d < e \<and> d < s) ds = filter (\<lambda>d. d < s) ds"
    "filter (\<lambda>d. d < e \<and> \<not> d < s) ds = filter (\<lambda>d. s \<le> d \<and> d < e) ds" for ds :: "u64 list"
    using False by (auto intro!: filter_cong)
  have "prefix_index ix e = combine (prefix_index ix s)
      (aggregate (filter (\<lambda>d. s \<le> d \<and> d < e) (map fst (iter_index ix))))"
    unfolding prefix_index_correct [OF ok]
    by (subst aggregate_filter_partition [where Q = "\<lambda>d. d < s"]) (simp only: low)
  with False show ?thesis
    by (simp add: range_index_def remove_fp_inverse fp.comb_commute [of "prefix_index ix s"] fp.comb_neg_cancel)
qed

lemma range_entries_correct:
  assumes ok: "index_ok ix"
  shows "range_entries ix s e = filter (\<lambda>x. s \<le> fst x \<and> fst x < e) (iter_index ix)"
proof (cases "e \<le> s")
  case True
  then have "filter (\<lambda>x. s \<le> fst x \<and> fst x < e) (iter_index ix) = []"
    by (auto simp: filter_empty_conv)
  with True show ?thesis by (simp add: range_entries_def)
next
  case False
  let ?bs = "ix_buckets ix" and ?i = "bucket_of s" and ?j = "bucket_of e"
  let ?P = "\<lambda>x. s \<le> fst x \<and> fst x < e"
  from ok have len: "length ?bs = BUCKETS" and bok: "\<forall>k<BUCKETS. bucket_ok k (?bs ! k)"
    by (auto simp: index_ok_def)
  have outside: "filter ?P (bk_entries b) = []" if "b \<in> set (take ?i ?bs) \<union> set (drop (Suc ?j) ?bs)" for b
  proof -
    from that obtain k where k: "k < BUCKETS" "b = ?bs ! k" "k < ?i \<or> ?j < k"
    proof
      assume "b \<in> set (take ?i ?bs)"
      then obtain k where "k < ?i" "b = ?bs ! k" by (auto simp: in_set_conv_nth)
      with that show thesis using less_trans [OF _ bucket_of_less, of k s] by blast
    next
      assume "b \<in> set (drop (Suc ?j) ?bs)"
      then obtain k where "k < BUCKETS - Suc ?j" "b = ?bs ! (Suc ?j + k)"
        using len by (auto simp: in_set_conv_nth)
      with that [of "Suc ?j + k"] show thesis by simp
    qed
    with bok have "\<forall>x\<in>set (bk_entries b). bucket_of (fst x) < ?i \<or> ?j < bucket_of (fst x)"
      by (auto simp: bucket_ok_def)
    then show ?thesis by (fastforce simp: filter_empty_conv dest: bucket_of_less_imp)
  qed
  have ij: "?i \<le> ?j" using False by (simp add: bucket_of_mono)
  have "?bs = take ?i ?bs @ drop ?i (take (Suc ?j) ?bs) @ drop (Suc ?j) ?bs"
    using ij by (metis append_assoc append_take_drop_id le_SucI min.absorb1 take_take)
  then have "filter ?P (iter_index ix) = filter ?P (concat (map bk_entries (take ?i ?bs))) @
      filter ?P (concat (map bk_entries (drop ?i (take (Suc ?j) ?bs)))) @
      filter ?P (concat (map bk_entries (drop (Suc ?j) ?bs)))"
    unfolding iter_index_def by (metis concat_append filter_append map_append)
  moreover have "filter ?P (concat (map bk_entries (take ?i ?bs))) = []"
    "filter ?P (concat (map bk_entries (drop (Suc ?j) ?bs))) = []"
    using outside by (auto simp: filter_concat filter_empty_conv)
  ultimately show ?thesis using False by (simp add: range_entries_def)
qed

subsection \<open>The index as an interface\<close>

text \<open>
  What a client of the index relies on: an ordered map from digests with an aggregate for
  every prefix. The reference meaning of an aggregate is over the sorted set of digests, so
  it does not mention buckets or the tree.
\<close>

definition set_aggregate :: "u64 set \<Rightarrow> fingerprint" where
  "set_aggregate D = aggregate (sorted_list_of_set D)"

locale digest_index =
  fixes empty :: 'i and insert :: "'i \<Rightarrow> u64 \<Rightarrow> 'v \<Rightarrow> 'v option \<times> 'i"
    and remove :: "'i \<Rightarrow> u64 \<Rightarrow> 'v option \<times> 'i" and get :: "'i \<Rightarrow> u64 \<Rightarrow> 'v option"
    and iter :: "'i \<Rightarrow> (u64 \<times> 'v) list" and root :: "'i \<Rightarrow> fingerprint"
    and prefix :: "'i \<Rightarrow> u64 \<Rightarrow> fingerprint" and range :: "'i \<Rightarrow> u64 \<Rightarrow> u64 \<Rightarrow> fingerprint"
    and entries :: "'i \<Rightarrow> u64 \<Rightarrow> u64 \<Rightarrow> (u64 \<times> 'v) list"
    and \<alpha> :: "'i \<Rightarrow> u64 \<rightharpoonup> 'v" and invar :: "'i \<Rightarrow> bool"
  assumes empty_invar: "invar empty" and empty_map: "\<alpha> empty = Map.empty"
    and insert_law: "invar ix \<Longrightarrow> insert ix d v = (old, ix') \<Longrightarrow>
        invar ix' \<and> old = \<alpha> ix d \<and> \<alpha> ix' = (\<alpha> ix)(d \<mapsto> v)"
    and remove_law: "invar ix \<Longrightarrow> remove ix d = (old, ix') \<Longrightarrow>
        invar ix' \<and> old = \<alpha> ix d \<and> \<alpha> ix' = (\<alpha> ix)(d := None)"
    and get_law: "invar ix \<Longrightarrow> get ix d = \<alpha> ix d"
    and iter_law: "invar ix \<Longrightarrow> sorted_keys (iter ix) \<and> map_of (iter ix) = \<alpha> ix"
    and root_law: "invar ix \<Longrightarrow> root ix = aggregate (map fst (iter ix))"
    and prefix_law: "invar ix \<Longrightarrow> prefix ix b = aggregate (filter (\<lambda>d. d < b) (map fst (iter ix)))"
    and range_law: "invar ix \<Longrightarrow>
        range ix s e = aggregate (filter (\<lambda>d. s \<le> d \<and> d < e) (map fst (iter ix)))"
    and entries_law: "invar ix \<Longrightarrow> entries ix s e = filter (\<lambda>x. s \<le> fst x \<and> fst x < e) (iter ix)"
begin

lemma finite_dom: "invar ix \<Longrightarrow> finite (dom (\<alpha> ix))"
  using iter_law [of ix] by (metis finite_dom_map_of)

lemma iter_digests: "invar ix \<Longrightarrow> map fst (iter ix) = sorted_list_of_set (dom (\<alpha> ix))"
  using iter_law [of ix] finite_dom [of ix]
  by (metis dom_map_of_conv_image_fst list.set_map sorted_list_of_set.idem_if_sorted_distinct
      sorted_list_of_set.sorted_key_list_of_set_unique strict_sorted_iff)

lemma root_set: "invar ix \<Longrightarrow> root ix = set_aggregate (dom (\<alpha> ix))"
  by (simp add: root_law iter_digests set_aggregate_def)

lemma filter_sorted_list_of_set:
  fixes D :: "u64 set"
  shows "finite D \<Longrightarrow> filter P (sorted_list_of_set D) = sorted_list_of_set {d \<in> D. P d}"
  by (intro sorted_distinct_set_unique) (auto simp: sorted_wrt_filter)

lemma prefix_set: "invar ix \<Longrightarrow> prefix ix b = set_aggregate {d \<in> dom (\<alpha> ix). d < b}"
  by (simp add: prefix_law iter_digests set_aggregate_def filter_sorted_list_of_set finite_dom)

lemma range_set: "invar ix \<Longrightarrow> range ix s e = set_aggregate {d \<in> dom (\<alpha> ix). s \<le> d \<and> d < e}"
  by (simp add: range_law iter_digests set_aggregate_def filter_sorted_list_of_set finite_dom)

text \<open>Histories do not show: equal contents give equal enumerations and equal aggregates.\<close>

lemma iter_determined:
  assumes "invar ix" "invar ix'" "\<alpha> ix = \<alpha> ix'"
  shows "iter ix = iter ix'"
proof (rule map_sorted_distinct_set_unique [where f = fst])
  have d: "distinct (map fst (iter ix))" "distinct (map fst (iter ix'))"
    using iter_law assms by (auto simp: strict_sorted_iff)
  show "set (iter ix) = set (iter ix')"
    using iter_law [OF assms(1)] iter_law [OF assms(2)] assms(3) d
    by (metis map_of_inject_set)
  show "inj_on fst (set (iter ix) \<union> set (iter ix'))"
    using d \<open>set (iter ix) = set (iter ix')\<close> by (simp add: distinct_map)
qed (use iter_law assms in \<open>auto simp: strict_sorted_iff distinct_map\<close>)

lemma determined:
  assumes "invar ix" "invar ix'" "\<alpha> ix = \<alpha> ix'"
  shows "iter ix = iter ix' \<and> root ix = root ix' \<and> prefix ix b = prefix ix' b \<and> range ix s e = range ix' s e"
  using assms iter_determined [OF assms] by (simp add: root_set prefix_set range_set)

end

interpretation fi: digest_index new_index insert_index remove_index get_index iter_index
  ix_root prefix_index range_index range_entries index_map index_ok
proof
  show "sorted_keys (iter_index ix) \<and> map_of (iter_index ix) = index_map ix"
    if "index_ok ix" for ix :: "'a findex"
    using iter_index_sorted [OF that] by (simp only: index_map_def simp_thms)
  show "ix_root ix = aggregate (map fst (iter_index ix))" if "index_ok ix" for ix :: "'a findex"
    using that by (simp only: index_ok_def)
qed (rule index_ok_new index_map_new insert_index_correct remove_index_correct get_index_map
      prefix_index_correct range_index_correct range_entries_correct; assumption?)+

subsection \<open>Sequences of operations\<close>

text \<open>
  The two mutating operations as data, run from the empty index, against the finite map they
  should maintain.
\<close>

datatype 'v index_op = Insert_op u64 'v | Remove_op u64

fun index_step :: "'v index_op \<Rightarrow> 'v findex \<Rightarrow> 'v findex" where
  "index_step (Insert_op d v) ix = snd (insert_index ix d v)"
| "index_step (Remove_op d) ix = snd (remove_index ix d)"

fun map_step :: "'v index_op \<Rightarrow> (u64 \<rightharpoonup> 'v) \<Rightarrow> (u64 \<rightharpoonup> 'v)" where
  "map_step (Insert_op d v) m = m(d \<mapsto> v)"
| "map_step (Remove_op d) m = m(d := None)"

definition run_index :: "'v index_op list \<Rightarrow> 'v findex" where
  "run_index ops = fold index_step ops new_index"

definition run_map :: "'v index_op list \<Rightarrow> u64 \<rightharpoonup> 'v" where
  "run_map ops = fold map_step ops Map.empty"

lemma index_step_law:
  "index_ok ix \<Longrightarrow> index_ok (index_step op ix) \<and> index_map (index_step op ix) = map_step op (index_map ix)"
  using fi.insert_law [of ix _ _ _ "index_step op ix"] fi.remove_law [of ix _ _ "index_step op ix"]
  by (cases op) (simp_all add: prod_eq_iff)

lemma index_steps_law:
  "index_ok ix \<Longrightarrow> index_ok (fold index_step ops ix) \<and>
     index_map (fold index_step ops ix) = fold map_step ops (index_map ix)"
  by (induction ops arbitrary: ix) (simp_all add: index_step_law)

lemma run_index_ok: "index_ok (run_index ops)" and run_index_map: "index_map (run_index ops) = run_map ops"
  using index_steps_law [OF index_ok_new, of ops]
  by (simp_all add: run_index_def run_map_def index_map_new)

text \<open>
  C1: After any sequence of insertions and removals from the empty index, every query agrees
  with the finite map the sequence denotes: lookups, the values returned by a further insertion
  or removal, the ordered enumeration and its length, the root fingerprint, the fingerprint
  below any bound, and the fingerprint and entries of any half-open range.
\<close>

theorem index_runs_correctly:
  "get_index (run_index ops) d = run_map ops d \<and>
   fst (insert_index (run_index ops) d v) = run_map ops d \<and>
   fst (remove_index (run_index ops) d) = run_map ops d \<and>
   map fst (iter_index (run_index ops)) = sorted_list_of_set (dom (run_map ops)) \<and>
   map_of (iter_index (run_index ops)) = run_map ops \<and>
   ix_len (run_index ops) = card (dom (run_map ops)) \<and>
   ix_root (run_index ops) = set_aggregate (dom (run_map ops)) \<and>
   prefix_index (run_index ops) b = set_aggregate {x \<in> dom (run_map ops). x < b} \<and>
   range_index (run_index ops) s e = set_aggregate {x \<in> dom (run_map ops). s \<le> x \<and> x < e} \<and>
   range_entries (run_index ops) s e =
     filter (\<lambda>x. s \<le> fst x \<and> fst x < e) (iter_index (run_index ops))"
proof -
  note ok = run_index_ok [of ops] and m = run_index_map [of ops]
  have "ix_len (run_index ops) = length (map fst (iter_index (run_index ops)))"
    using ok by (simp add: index_ok_def)
  also have "\<dots> = card (dom (run_map ops))"
    using fi.finite_dom [OF ok] by (simp only: fi.iter_digests [OF ok] m sorted_list_of_set.length_sorted_key_list_of_set)
  finally have len: "ix_len (run_index ops) = card (dom (run_map ops))" .
  have ins: "fst (insert_index (run_index ops) d v) = run_map ops d"
    using fi.insert_law [OF ok prod.collapse [symmetric]] m by simp
  have rem: "fst (remove_index (run_index ops) d) = run_map ops d"
    using fi.remove_law [OF ok prod.collapse [symmetric]] m by simp
  show ?thesis
    using fi.get_law [OF ok] fi.iter_law [OF ok] fi.iter_digests [OF ok] fi.root_set [OF ok]
      fi.prefix_set [OF ok] fi.range_set [OF ok] fi.entries_law [OF ok] len ins rem
    by (simp only: m simp_thms)
qed



end
