(* ===== verification/Cbor_Canonical.thy ===== *)
theory Cbor_Canonical
  imports Radiata_Prelude "HOL-Library.List_Lexorder"
begin

text \<open>
  The canonical CBOR gate of \<^verbatim>\<open>src/protocol/cbor.rs\<close>: the limited writer, the argument reader, the
  stack machine that validates one item, and the encode and decode entry points built on it.

  The machine drives a \<^verbatim>\<open>minicbor::Decoder\<close>, which is not part of the repository. It is the
  parameter \<open>md\<close>, a record of the decoder operations the code calls, each taking the input and a
  position; \<open>decoder_ok\<close> states what the code relies on: the operations read items as RFC 8949
  lays them out. Encoding and decoding of a record type is derived by the same crate and is a
  parameter as well. An allocation failure of the writer or of the stack is not modelled.

  Unsigned 64-bit values and sizes are natural numbers; the checked operations carry their bound.
\<close>

unbundle bit_operations_syntax

subsection \<open>Limits and the limited writer\<close>

record cbor_limits =
  max_depth :: nat
  max_collection_items :: nat
  max_body_len :: nat

definition usize_add :: "nat \<Rightarrow> nat \<Rightarrow> nat option" where
  "usize_add a b = (if a + b < 2 ^ 64 then Some (a + b) else None)"

definition usize_sub :: "nat \<Rightarrow> nat \<Rightarrow> nat option" where
  "usize_sub a b = (if b \<le> a then Some (a - b) else None)"

record limited_writer =
  lw_bytes :: bytes
  lw_limit :: nat

definition new_writer :: "nat \<Rightarrow> limited_writer" where
  "new_writer limit = \<lparr>lw_bytes = [], lw_limit = limit\<rparr>"

text \<open>A refused write keeps the writer; the result says whether the write was accepted.\<close>

definition write_all :: "limited_writer \<Rightarrow> bytes \<Rightarrow> bool \<times> limited_writer" where
  "write_all w buf = (case usize_add (length (lw_bytes w)) (length buf) of
     None \<Rightarrow> (False, w)
   | Some stop \<Rightarrow> if lw_limit w < stop then (False, w) else (True, w\<lparr>lw_bytes := lw_bytes w @ buf\<rparr>))"

subsection \<open>The decoder interface\<close>

datatype cbor_type =
    TU8 | TU16 | TU32 | TU64 | TI8 | TI16 | TI32 | TI64 | TInt | TBytes | TString | TArray | TMap
  | TBool | TNull | TUndefined | TF16 | TF32 | TF64 | TSimple | TBytesIndef | TStringIndef
  | TArrayIndef | TMapIndef | TTag | TBreak | TUnknown u8

record minicbor =
  md_datatype :: "bytes \<Rightarrow> nat \<Rightarrow> cbor_type option"
  md_skip :: "bytes \<Rightarrow> nat \<Rightarrow> nat option"
  md_bytes :: "bytes \<Rightarrow> nat \<Rightarrow> nat option"
  md_str :: "bytes \<Rightarrow> nat \<Rightarrow> nat option"
  md_array :: "bytes \<Rightarrow> nat \<Rightarrow> (nat option \<times> nat) option"
  md_map :: "bytes \<Rightarrow> nat \<Rightarrow> (nat option \<times> nat) option"
  md_bool :: "bytes \<Rightarrow> nat \<Rightarrow> nat option"
  md_null :: "bytes \<Rightarrow> nat \<Rightarrow> nat option"

abbreviation or_invalid :: "'a option \<Rightarrow> string \<Rightarrow> 'a result" where
  "or_invalid x c \<equiv> (case x of None \<Rightarrow> Inl (invalid_input c) | Some y \<Rightarrow> Inr y)"

subsection \<open>Arguments\<close>

text \<open>\<^verbatim>\<open>bytes.get(a..b)\<close>.\<close>

definition get_slice :: "bytes \<Rightarrow> nat \<Rightarrow> nat \<Rightarrow> bytes option" where
  "get_slice b i j = (if i \<le> j \<and> j \<le> length b then Some (take (j - i) (drop i b)) else None)"

definition read_array :: "nat \<Rightarrow> bytes \<Rightarrow> nat \<Rightarrow> bytes result" where
  "read_array n b start =
    rbind (or_invalid (usize_add start 1) ''CBOR header'') (\<lambda>first.
    rbind (or_invalid (usize_add first n) ''CBOR header'') (\<lambda>last.
    rbind (or_invalid (get_slice b first last) ''CBOR header'') (\<lambda>s. fixed_bytes n s ''CBOR header'')))"

definition canonical_len :: "nat \<Rightarrow> nat" where
  "canonical_len v = (if v < 24 then 1 else if v < 2 ^ 8 then 2 else if v < 2 ^ 16 then 3
     else if v < 2 ^ 32 then 5 else 9)"

definition canonical_argument :: "bytes \<Rightarrow> nat \<Rightarrow> (nat \<times> nat) result" where
  "canonical_argument b start =
    rbind (or_invalid (if start < length b then Some (b ! start) else None) ''CBOR header'') (\<lambda>initial.
    rbind (let additional = unat (initial AND 0x1F) in
       if additional \<le> 23 then Inr (additional, 1)
       else if additional = 24 then rbind (read_array 1 b start) (\<lambda>a. Inr (of_be_bytes a, 2))
       else if additional = 25 then rbind (read_array 2 b start) (\<lambda>a. Inr (of_be_bytes a, 3))
       else if additional = 26 then rbind (read_array 4 b start) (\<lambda>a. Inr (of_be_bytes a, 5))
       else if additional = 27 then rbind (read_array 8 b start) (\<lambda>a. Inr (of_be_bytes a, 9))
       else Inl (invalid_input ''CBOR indefinite length''))
      (\<lambda>(v, header_len).
        if header_len \<noteq> canonical_len v then Inl (invalid_input ''CBOR non-shortest argument'')
        else Inr (v, header_len)))"

definition validate_sized_item :: "nat \<Rightarrow> nat \<Rightarrow> nat \<Rightarrow> nat \<Rightarrow> unit result" where
  "validate_sized_item start stop header_len value_len =
    (if \<not> value_len < 2 ^ 64 then Inl (invalid_input ''CBOR item length'')
     else case (usize_sub stop start, usize_add header_len value_len) of
       (Some x, Some y) \<Rightarrow> if x \<noteq> y then Inl (invalid_input ''CBOR item length'') else Inr ()
     | (None, None) \<Rightarrow> Inr ()
     | _ \<Rightarrow> Inl (invalid_input ''CBOR item length''))"

definition validate_container_depth :: "nat \<Rightarrow> cbor_limits \<Rightarrow> unit result" where
  "validate_container_depth depth lim =
    (if max_depth lim \<le> depth then Inl (invalid_input ''CBOR nesting depth'') else Inr ())"

subsection \<open>The stack machine\<close>

datatype container_frame =
    Array_frame nat
  | Map_frame nat bool "nat option" "(nat \<times> nat) option"

text \<open>The top of the stack is the head of the list.\<close>

definition set_key_start :: "nat \<Rightarrow> container_frame list \<Rightarrow> container_frame list" where
  "set_key_start pos st = (case st of
     Map_frame r True None pk # s \<Rightarrow> Map_frame r True (Some pos) pk # s | _ \<Rightarrow> st)"

fun complete_item :: "nat \<Rightarrow> bytes \<Rightarrow> container_frame list \<Rightarrow> (bool \<times> container_frame list) result" where
  "complete_item pos b [] = Inr (True, [])"
| "complete_item pos b (Array_frame r # s) =
    (if r = 0 then Inl (invalid_input ''CBOR array state'')
     else if r - 1 = 0 then complete_item pos b s else Inr (False, Array_frame (r - 1) # s))"
| "complete_item pos b (Map_frame r expecting ks pk # s) =
    (if expecting then
       rbind (or_invalid ks ''CBOR map key state'') (\<lambda>start.
       rbind (or_invalid (get_slice b start pos) ''CBOR map key'') (\<lambda>key.
       rbind (case pk of None \<Rightarrow> Inr ()
          | Some (ps, pe) \<Rightarrow> rbind (or_invalid (get_slice b ps pe) ''CBOR map key'') (\<lambda>previous.
              if key \<le> previous then Inl (invalid_input ''CBOR map key order'') else Inr ()))
         (\<lambda>_. Inr (False, Map_frame r False None (Some (start, pos)) # s))))
     else if r = 0 then Inl (invalid_input ''CBOR map state'')
     else if r - 1 = 0 then complete_item pos b s
     else Inr (False, Map_frame (r - 1) True ks pk # s))"

text \<open>Reading one item header or scalar: the container to push, if any, and the next position.\<close>

definition read_item :: "minicbor \<Rightarrow> bytes \<Rightarrow> cbor_limits \<Rightarrow> nat \<Rightarrow> nat \<Rightarrow>
    (container_frame option \<times> nat) result" where
  "read_item md b lim start depth =
    rbind (or_invalid (md_datatype md b start) ''CBOR type'') (\<lambda>ty.
    if ty \<in> {TU8, TU16, TU32, TU64, TI8, TI16, TI32, TI64, TInt} then
      rbind (canonical_argument b start) (\<lambda>(_, header_len).
      rbind (or_invalid (md_skip md b start) ''CBOR integer'') (\<lambda>pos.
      if usize_sub pos start \<noteq> Some header_len then Inl (invalid_input ''CBOR integer'') else Inr (None, pos)))
    else if ty = TBytes then
      rbind (canonical_argument b start) (\<lambda>(len, header_len).
      rbind (or_invalid (md_bytes md b start) ''CBOR bytes'') (\<lambda>pos.
      rbind (validate_sized_item start pos header_len len) (\<lambda>_. Inr (None, pos))))
    else if ty = TString then
      rbind (canonical_argument b start) (\<lambda>(len, header_len).
      rbind (or_invalid (md_str md b start) ''CBOR string'') (\<lambda>pos.
      rbind (validate_sized_item start pos header_len len) (\<lambda>_. Inr (None, pos))))
    else if ty = TArray then
      rbind (validate_container_depth depth lim) (\<lambda>_.
      rbind (canonical_argument b start) (\<lambda>(len, _).
      rbind (or_invalid (md_array md b start) ''CBOR array'') (\<lambda>(dl, pos).
      rbind (or_invalid dl ''CBOR indefinite array'') (\<lambda>decoded.
      if decoded \<noteq> len \<or> max_collection_items lim < len then Inl (invalid_input ''CBOR array length'')
      else Inr (Some (Array_frame len), pos)))))
    else if ty = TMap then
      rbind (validate_container_depth depth lim) (\<lambda>_.
      rbind (canonical_argument b start) (\<lambda>(len, _).
      rbind (or_invalid (md_map md b start) ''CBOR map'') (\<lambda>(dl, pos).
      rbind (or_invalid dl ''CBOR indefinite map'') (\<lambda>decoded.
      if decoded \<noteq> len \<or> max_collection_items lim < len then Inl (invalid_input ''CBOR map length'')
      else Inr (Some (Map_frame len True None None), pos)))))
    else if ty = TBool then rbind (or_invalid (md_bool md b start) ''CBOR bool'') (\<lambda>pos. Inr (None, pos))
    else if ty = TNull then rbind (or_invalid (md_null md b start) ''CBOR null'') (\<lambda>pos. Inr (None, pos))
    else Inl (invalid_input ''CBOR unsupported type''))"

datatype step_outcome = Done nat | Continue nat "container_frame list"

fun frame_empty :: "container_frame \<Rightarrow> bool" where
  "frame_empty (Array_frame r) = (r = 0)"
| "frame_empty (Map_frame r _ _ _) = (r = 0)"

definition validate_step :: "minicbor \<Rightarrow> bytes \<Rightarrow> cbor_limits \<Rightarrow> nat \<Rightarrow> container_frame list \<Rightarrow> step_outcome result" where
  "validate_step md b lim pos stack =
    (let stack = set_key_start pos stack in
     rbind (read_item md b lim pos (length stack)) (\<lambda>(container, pos').
       let finish = rbind (complete_item pos' b stack) (\<lambda>(complete, stack').
             Inr (if complete then Done pos' else Continue pos' stack')) in
       case container of
         Some frame \<Rightarrow> if \<not> frame_empty frame then Inr (Continue pos' (frame # stack)) else finish
       | None \<Rightarrow> finish))"

partial_function (option) validate_loop ::
  "minicbor \<Rightarrow> bytes \<Rightarrow> cbor_limits \<Rightarrow> nat \<Rightarrow> container_frame list \<Rightarrow> nat result option" where
  "validate_loop md b lim pos stack = (case validate_step md b lim pos stack of
     Inl e \<Rightarrow> Some (Inl e)
   | Inr (Done pos') \<Rightarrow> Some (Inr pos')
   | Inr (Continue pos' stack') \<Rightarrow> validate_loop md b lim pos' stack')"

definition validate_item :: "minicbor \<Rightarrow> bytes \<Rightarrow> cbor_limits \<Rightarrow> nat \<Rightarrow> nat result option" where
  "validate_item md b lim pos = validate_loop md b lim pos []"

definition validate_canonical :: "minicbor \<Rightarrow> bytes \<Rightarrow> cbor_limits \<Rightarrow> unit result option" where
  "validate_canonical md b lim =
    (if max_depth lim = 0 \<or> max_collection_items lim = 0 \<or> max_body_len lim = 0 \<or> b = [] \<or> max_body_len lim < length b
     then Some (Inl (invalid_input ''CBOR limits''))
     else map_option (\<lambda>r. rbind r (\<lambda>pos.
       if pos \<noteq> length b then Inl (invalid_input ''CBOR trailing data'') else Inr ()))
       (validate_item md b lim 0))"

subsection \<open>Encoding and decoding a record\<close>

text \<open>
  The derived encoder of a type is the list of buffers it writes, in order; the derived decoder
  returns a value and the position it stopped at.
\<close>

fun write_chunks :: "limited_writer \<Rightarrow> bytes list \<Rightarrow> bool \<times> limited_writer" where
  "write_chunks w [] = (True, w)"
| "write_chunks w (c # cs) = (case write_all w c of (ok, w') \<Rightarrow> if ok then write_chunks w' cs else (False, w'))"

definition encode_canonical :: "minicbor \<Rightarrow> ('a \<Rightarrow> bytes list) \<Rightarrow> 'a \<Rightarrow> cbor_limits \<Rightarrow> bytes result option" where
  "encode_canonical md encT v lim =
    (case write_chunks (new_writer (max_body_len lim)) (encT v) of (ok, w) \<Rightarrow>
       if \<not> ok then Some (Inl (invalid_input ''CBOR encode''))
       else map_option (\<lambda>r. rbind r (\<lambda>_. Inr (lw_bytes w))) (validate_canonical md (lw_bytes w) lim))"

definition decode_canonical :: "minicbor \<Rightarrow> (bytes \<Rightarrow> ('a \<times> nat) option) \<Rightarrow> bytes \<Rightarrow> cbor_limits \<Rightarrow> 'a result option" where
  "decode_canonical md decT b lim = map_option (\<lambda>r. rbind r (\<lambda>_.
     rbind (or_invalid (decT b) ''CBOR decode'') (\<lambda>(v, pos).
       if pos \<noteq> length b then Inl (invalid_input ''CBOR trailing data'') else Inr v)))
     (validate_canonical md b lim)"

datatype strict_decode_failure = Decode_failure error | NonCanonical

definition decode_canonical_strict_or :: "minicbor \<Rightarrow> ('a \<Rightarrow> bytes list) \<Rightarrow> (bytes \<Rightarrow> ('a \<times> nat) option) \<Rightarrow>
    bytes \<Rightarrow> cbor_limits \<Rightarrow> (strict_decode_failure + 'a) option" where
  "decode_canonical_strict_or md encT decT b lim =
    (case decode_canonical md decT b lim of
       None \<Rightarrow> None
     | Some (Inl e) \<Rightarrow> Some (Inl (Decode_failure e))
     | Some (Inr v) \<Rightarrow>
        (case encode_canonical md encT v lim of
           None \<Rightarrow> None
         | Some (Inl e) \<Rightarrow> Some (Inl (Decode_failure e))
         | Some (Inr b') \<Rightarrow> if b' \<noteq> b then Some (Inl NonCanonical) else Some (Inr v)))"

definition decode_canonical_strict :: "minicbor \<Rightarrow> ('a \<Rightarrow> bytes list) \<Rightarrow> (bytes \<Rightarrow> ('a \<times> nat) option) \<Rightarrow>
    bytes \<Rightarrow> cbor_limits \<Rightarrow> string \<Rightarrow> 'a result option" where
  "decode_canonical_strict md encT decT b lim c =
    map_option (\<lambda>r. case r of Inl (Decode_failure e) \<Rightarrow> Inl e | Inl NonCanonical \<Rightarrow> Inl (invalid_input c) | Inr v \<Rightarrow> Inr v)
      (decode_canonical_strict_or md encT decT b lim)"

end
