(* ===== verification/Cbor_Grammar.thy ===== *)
theory Cbor_Grammar
  imports Cbor_Canonical "HOL-Library.Sublist"
begin

text \<open>
  What the canonical gate promises: the data items of RFC 8949 in the profile the protocol uses,
  their deterministic encoding, and the bounds. The stack machine accepts exactly the encodings
  of items within the limits, and it always returns.
\<close>

unbundle bit_operations_syntax

subsection \<open>Item headers\<close>

definition major :: "u8 \<Rightarrow> nat" where
  "major x = unat x div 32"

definition additional :: "u8 \<Rightarrow> nat" where
  "additional x = unat x mod 32"

text \<open>The header at a position: its argument and its length.\<close>

definition cbor_head :: "bytes \<Rightarrow> nat \<Rightarrow> (nat \<times> nat) option" where
  "cbor_head b p =
    (if p < length b then
       (let a = additional (b ! p) in
        if a < 24 then Some (a, 1)
        else if a < 28 then
          (let n = 2 ^ (a - 24) in
           if p + 1 + n \<le> length b then Some (of_be_bytes (take n (drop (p + 1) b)), 1 + n) else None)
        else None)
     else None)"

definition enc_head :: "nat \<Rightarrow> nat \<Rightarrow> bytes" where
  "enc_head m n =
    (if n < 24 then [of_nat (32 * m + n)]
     else if n < 2 ^ 8 then of_nat (32 * m + 24) # be_bytes 1 n
     else if n < 2 ^ 16 then of_nat (32 * m + 25) # be_bytes 2 n
     else if n < 2 ^ 32 then of_nat (32 * m + 26) # be_bytes 4 n
     else of_nat (32 * m + 27) # be_bytes 8 n)"

lemma length_enc_head: "length (enc_head m n) = canonical_len n"
  by (simp add: enc_head_def canonical_len_def)

lemma canonical_len_bounds: "1 \<le> canonical_len n" "canonical_len n \<le> 9"
  by (simp_all add: canonical_len_def)

lemma additional_and: "unat (x AND 0x1F) = additional x"
proof -
  have "x AND 0x1F = take_bit 5 x" unfolding take_bit_eq_mask by (simp add: mask_eq_exp_minus_1)
  then have "unat (x AND 0x1F) = take_bit 5 (unat x)" by (simp only: unsigned_take_bit_eq)
  then show ?thesis by (simp add: additional_def take_bit_eq_mod)
qed

lemma initial_byte:
  assumes "m < 8" "a < 32"
  shows "major (of_nat (32 * m + a)) = m" "additional (of_nat (32 * m + a)) = a"
proof -
  have "unat (of_nat (32 * m + a) :: u8) = 32 * m + a"
    using assms by (subst unat_of_nat, intro mod_less) simp
  with assms show "major (of_nat (32 * m + a)) = m" "additional (of_nat (32 * m + a)) = a"
    by (simp_all add: major_def additional_def)
qed

lemma initial_byte_eq: "x = of_nat (32 * major x + additional x)"
  by (simp add: major_def additional_def)

text \<open>Reading at a position.\<close>

abbreviation at :: "bytes \<Rightarrow> nat \<Rightarrow> bytes \<Rightarrow> bool" where
  "at b p xs \<equiv> prefix xs (drop p b)"

lemma at_append: "at b p (xs @ ys) \<longleftrightarrow> at b p xs \<and> at b (p + length xs) ys"
proof -
  have "prefix (xs @ ys) zs \<longleftrightarrow> prefix xs zs \<and> prefix ys (drop (length xs) zs)" for zs
    by (auto simp: prefix_def)
  from this [of "drop p b"] show ?thesis by (simp add: add.commute)
qed

lemma at_Cons: "at b p (x # xs) \<longleftrightarrow> p < length b \<and> b ! p = x \<and> at b (p + 1) xs"
proof (cases "p < length b")
  case True
  then have "drop p b = b ! p # drop (p + 1) b" by (simp add: Cons_nth_drop_Suc)
  then show ?thesis using True by auto
qed simp

lemma at_take: "at b p xs \<longleftrightarrow> take (length xs) (drop p b) = xs"
proof
  show "take (length xs) (drop p b) = xs \<Longrightarrow> at b p xs" by (metis take_is_prefix)
qed (auto simp: prefix_def)

lemma at_bound: "at b p xs \<Longrightarrow> xs \<noteq> [] \<Longrightarrow> p + length xs \<le> length b"
  by (drule prefix_length_le) (cases "p \<le> length b"; simp)

lemma at_slice: "at b p xs \<Longrightarrow> p + length xs \<le> length b \<Longrightarrow> get_slice b p (p + length xs) = Some xs"
  by (simp add: get_slice_def at_take)

lemma read_array_eq:
  assumes "length b < 2 ^ 64" "start < length b"
  shows "read_array n b start = (if start + 1 + n \<le> length b
     then Inr (take n (drop (start + 1) b)) else Inl (invalid_input ''CBOR header''))"
  using assms by (simp add: read_array_def usize_add_def get_slice_def fixed_bytes_def)

lemma additional_less: "additional x < 32"
  by (simp add: additional_def)

lemma canonical_argument_head:
  assumes len: "length b < 2 ^ 64"
  shows "canonical_argument b p = Inr (n, h) \<longleftrightarrow> cbor_head b p = Some (n, h) \<and> h = canonical_len n"
proof (cases "p < length b")
  case True
  let ?a = "additional (b ! p)"
  consider "?a < 24" | "?a = 24" | "?a = 25" | "?a = 26" | "?a = 27" | "28 \<le> ?a" by linarith
  then show ?thesis
    using True by cases (auto simp: canonical_argument_def cbor_head_def additional_and read_array_eq [OF len True])
qed (simp add: canonical_argument_def cbor_head_def)

lemma head_bounds:
  assumes "cbor_head b p = Some (n, h)"
  shows "p + h \<le> length b" "1 \<le> h" "n < 2 ^ 64"
proof -
  let ?a = "additional (b ! p)"
  from assms have p: "p < length b" and a: "?a < 28" by (auto simp: cbor_head_def Let_def split: if_splits)
  have big: "of_be_bytes xs < 2 ^ 64" if "length xs = 2 ^ k" "k \<le> 3" for xs k
  proof -
    have "of_be_bytes xs < 256 ^ (2 ^ k)" using of_be_bytes_less [of xs] that(1) by simp
    also have "(256::nat) ^ (2 ^ k) \<le> 256 ^ (2 ^ 3)"
      using that(2) by (intro power_increasing) simp_all
    finally show ?thesis by simp
  qed
  from assms p show "p + h \<le> length b" "1 \<le> h" by (auto simp: cbor_head_def Let_def split: if_splits)
  show "n < 2 ^ 64"
  proof (cases "?a < 24")
    case True
    then show ?thesis using assms p by (auto simp: cbor_head_def)
  next
    case False
    then have "n = of_be_bytes (take (2 ^ (?a - 24)) (drop (p + 1) b))" "p + 1 + 2 ^ (?a - 24) \<le> length b"
      using assms p a by (auto simp: cbor_head_def Let_def split: if_splits)
    moreover have "length (take (2 ^ (?a - 24)) (drop (p + 1) b)) = 2 ^ (?a - 24)"
      using calculation(2) by simp
    ultimately show ?thesis using a big [of _ "?a - 24"] by simp
  qed
qed

lemma head_wide:
  assumes p: "p < length b" and a: "additional (b ! p) = a" "24 \<le> a" "a < 28" and k: "k = 2 ^ (a - 24)"
  shows "cbor_head b p = Some (n, 1 + k) \<longleftrightarrow> at b (p + 1) (be_bytes k n) \<and> n < 256 ^ k"
proof
  assume "cbor_head b p = Some (n, 1 + k)"
  then have n: "n = of_be_bytes (take k (drop (p + 1) b))" and len: "p + 1 + k \<le> length b"
    using p a k by (auto simp: cbor_head_def Let_def split: if_splits)
  from len have l: "length (take k (drop (p + 1) b)) = k" by simp
  with n be_bytes_of_be_bytes [of "take k (drop (p + 1) b)"] have "be_bytes k n = take k (drop (p + 1) b)"
    by (simp only:)
  moreover have "n < 256 ^ k" using of_be_bytes_less [of "take k (drop (p + 1) b)"] l n by (simp only:)
  ultimately show "at b (p + 1) (be_bytes k n) \<and> n < 256 ^ k"
    by (simp add: take_is_prefix)
next
  assume r: "at b (p + 1) (be_bytes k n) \<and> n < 256 ^ k"
  have "k \<noteq> 0" using k by simp
  then have "be_bytes k n \<noteq> []" by (metis length_be_bytes length_0_conv)
  with r have "p + 1 + k \<le> length b" using at_bound [of "be_bytes k n" "p + 1" b] by simp
  moreover have "of_be_bytes (take k (drop (p + 1) b)) = n"
    using r by (simp add: at_take of_be_bytes_be_bytes)
  ultimately show "cbor_head b p = Some (n, 1 + k)" using p a k by (simp add: cbor_head_def Let_def)
qed

lemma head_short:
  assumes "p < length b" "additional (b ! p) < 24"
  shows "cbor_head b p = Some (n, h) \<longleftrightarrow> n = additional (b ! p) \<and> h = 1"
  using assms by (auto simp: cbor_head_def)

lemma head_length:
  assumes "cbor_head b p = Some (n, h)"
  shows "additional (b ! p) < 24 \<and> h = 1 \<or>
    24 \<le> additional (b ! p) \<and> additional (b ! p) < 28 \<and> h = 1 + 2 ^ (additional (b ! p) - 24)"
  using assms by (auto simp: cbor_head_def Let_def split: if_splits)

text \<open>The width a shortest argument uses, by its additional information.\<close>

definition enc_info :: "nat \<Rightarrow> nat" where
  "enc_info n = (if n < 24 then n else if n < 2 ^ 8 then 24 else if n < 2 ^ 16 then 25
     else if n < 2 ^ 32 then 26 else 27)"

lemma enc_head_info:
  "enc_head m n = of_nat (32 * m + enc_info n) # (if n < 24 then [] else be_bytes (2 ^ (enc_info n - 24)) n)"
  by (simp add: enc_head_def enc_info_def)

lemma enc_info_bounds: "enc_info n < 28" "24 \<le> enc_info n \<longleftrightarrow> 24 \<le> n"
  by (auto simp: enc_info_def)

lemma canonical_len_info: "canonical_len n = (if n < 24 then 1 else 1 + 2 ^ (enc_info n - 24))"
  by (simp add: canonical_len_def enc_info_def)

lemma enc_info_width: "n < 2 ^ 64 \<Longrightarrow> 24 \<le> n \<Longrightarrow> n < 256 ^ (2 ^ (enc_info n - 24))"
  by (simp add: enc_info_def)

lemma wide_info:
  assumes "24 \<le> a" "a < 28" "1 + 2 ^ (a - 24) = canonical_len n"
  shows "24 \<le> n \<and> a = enc_info n"
proof -
  from assms(1,2) consider "a = 24" | "a = 25" | "a = 26" | "a = 27" by linarith
  then show ?thesis using assms(3) by cases (auto simp: canonical_len_def enc_info_def split: if_splits)
qed

lemma head_at:
  assumes m: "m < 8" and n: "n < 2 ^ 64"
  shows "at b p (enc_head m n) \<longleftrightarrow> p < length b \<and> major (b ! p) = m \<and> cbor_head b p = Some (n, canonical_len n)"
proof
  assume at: "at b p (enc_head m n)"
  then have p: "p < length b" and bp: "b ! p = of_nat (32 * m + enc_info n)"
    and rest: "at b (p + 1) (if n < 24 then [] else be_bytes (2 ^ (enc_info n - 24)) n)"
    by (auto simp: enc_head_info at_Cons)
  have info: "major (b ! p) = m" "additional (b ! p) = enc_info n"
    using initial_byte [OF m, of "enc_info n"] enc_info_bounds(1) [of n] bp by auto
  have "cbor_head b p = Some (n, canonical_len n)"
  proof (cases "n < 24")
    case True
    then show ?thesis using p info by (simp add: head_short enc_info_def canonical_len_info)
  next
    case False
    then show ?thesis
      using head_wide [OF p info(2), of "2 ^ (enc_info n - 24)" n] rest enc_info_bounds [of n] enc_info_width [OF n]
      by (simp add: canonical_len_info)
  qed
  with p info show "p < length b \<and> major (b ! p) = m \<and> cbor_head b p = Some (n, canonical_len n)" by simp
next
  assume h: "p < length b \<and> major (b ! p) = m \<and> cbor_head b p = Some (n, canonical_len n)"
  let ?a = "additional (b ! p)"
  have bp: "b ! p = of_nat (32 * m + ?a)" using h initial_byte_eq [of "b ! p"] by simp
  from head_length h consider "?a < 24" "canonical_len n = 1" | "24 \<le> ?a" "?a < 28" "1 + 2 ^ (?a - 24) = canonical_len n"
    by metis
  then show "at b p (enc_head m n)"
  proof cases
    case 1
    then have "n = ?a" using h head_short [of p b n 1] by simp
    then show ?thesis using 1 h bp by (simp add: enc_head_info at_Cons enc_info_def)
  next
    case 2
    note w = wide_info [OF 2]
    with head_wide [OF conjunct1 [OF h] refl 2(1,2) refl, of n] 2(3) h
    have "at b (p + 1) (be_bytes (2 ^ (?a - 24)) n)" by simp
    then show ?thesis using h bp w by (simp add: enc_head_info at_Cons)
  qed
qed

subsection \<open>Items\<close>

datatype cbor_item =
    CUint nat | CNint nat | CBytes bytes | CText bytes
  | CArray "cbor_item list" | CMap "(cbor_item \<times> cbor_item) list" | CBool bool | CNull

fun enc_item :: "cbor_item \<Rightarrow> bytes" where
  "enc_item (CUint n) = enc_head 0 n"
| "enc_item (CNint n) = enc_head 1 n"
| "enc_item (CBytes bs) = enc_head 2 (length bs) @ bs"
| "enc_item (CText bs) = enc_head 3 (length bs) @ bs"
| "enc_item (CArray vs) = enc_head 4 (length vs) @ concat (map enc_item vs)"
| "enc_item (CMap kvs) = enc_head 5 (length kvs) @ concat (map (\<lambda>(k, v). enc_item k @ enc_item v) kvs)"
| "enc_item (CBool x) = [if x then 0xF5 else 0xF4]"
| "enc_item CNull = [0xF6]"

text \<open>
  The items the gate admits with \<open>d\<close> levels of nesting left: bounded arguments, valid text,
  bounded containers, and map keys in strictly ascending order of their encodings.
\<close>

fun canonical :: "cbor_limits \<Rightarrow> nat \<Rightarrow> cbor_item \<Rightarrow> bool" where
  "canonical lim d (CUint n) = (n < 2 ^ 64)"
| "canonical lim d (CNint n) = (n < 2 ^ 64)"
| "canonical lim d (CBytes bs) = (length bs < 2 ^ 64)"
| "canonical lim d (CText bs) = (length bs < 2 ^ 64 \<and> utf8_valid bs)"
| "canonical lim d (CArray vs) = (0 < d \<and> length vs < 2 ^ 64 \<and> length vs \<le> max_collection_items lim \<and>
     (\<forall>v\<in>set vs. canonical lim (d - 1) v))"
| "canonical lim d (CMap kvs) = (0 < d \<and> length kvs < 2 ^ 64 \<and> length kvs \<le> max_collection_items lim \<and>
     (\<forall>(k, v)\<in>set kvs. canonical lim (d - 1) k \<and> canonical lim (d - 1) v) \<and>
     sorted_wrt (<) (map (\<lambda>(k, v). enc_item k) kvs))"
| "canonical lim d (CBool x) = True"
| "canonical lim d CNull = True"

lemma enc_head_not_Nil [simp]: "enc_head m n \<noteq> []"
  by (simp add: enc_head_info)

lemma enc_item_not_Nil [simp]: "enc_item v \<noteq> []"
  by (cases v) simp_all

subsection \<open>What the decoder promises\<close>

datatype item_class = KInt | KBytes | KText | KArray | KMap | KBool | KNull | KOther

definition class_of_initial :: "u8 \<Rightarrow> item_class" where
  "class_of_initial x =
    (if additional x < 28 \<and> major x \<le> 1 then KInt
     else if additional x < 28 \<and> major x = 2 then KBytes
     else if additional x < 28 \<and> major x = 3 then KText
     else if additional x < 28 \<and> major x = 4 then KArray
     else if additional x < 28 \<and> major x = 5 then KMap
     else if x = 0xF4 \<or> x = 0xF5 then KBool else if x = 0xF6 then KNull else KOther)"

definition class_of_type :: "cbor_type \<Rightarrow> item_class" where
  "class_of_type t = (if t \<in> {TU8, TU16, TU32, TU64, TI8, TI16, TI32, TI64, TInt} then KInt
     else case t of TBytes \<Rightarrow> KBytes | TString \<Rightarrow> KText | TArray \<Rightarrow> KArray | TMap \<Rightarrow> KMap
       | TBool \<Rightarrow> KBool | TNull \<Rightarrow> KNull | _ \<Rightarrow> KOther)"

text \<open>One header, then, for a string, its contents.\<close>

definition sized_end :: "bytes \<Rightarrow> nat \<Rightarrow> (bytes \<Rightarrow> bool) \<Rightarrow> nat option" where
  "sized_end b p ok = (case cbor_head b p of None \<Rightarrow> None
     | Some (n, h) \<Rightarrow> if p + h + n \<le> length b \<and> ok (take n (drop (p + h) b)) then Some (p + h + n) else None)"

definition type_law :: "minicbor \<Rightarrow> bytes \<Rightarrow> nat \<Rightarrow> bool" where
  "type_law md b p \<longleftrightarrow> (case md_datatype md b p of
     None \<Rightarrow> cbor_head b p = None
   | Some t \<Rightarrow> p < length b \<and> class_of_type t = class_of_initial (b ! p))"

definition read_law :: "minicbor \<Rightarrow> bytes \<Rightarrow> nat \<Rightarrow> bool" where
  "read_law md b p \<longleftrightarrow> (case class_of_initial (b ! p) of
     KInt \<Rightarrow> md_skip md b p = map_option (\<lambda>(n, h). p + h) (cbor_head b p)
   | KBytes \<Rightarrow> md_bytes md b p = sized_end b p (\<lambda>_. True)
   | KText \<Rightarrow> md_str md b p = sized_end b p utf8_valid
   | KArray \<Rightarrow> md_array md b p = map_option (\<lambda>(n, h). (Some n, p + h)) (cbor_head b p)
   | KMap \<Rightarrow> md_map md b p = map_option (\<lambda>(n, h). (Some n, p + h)) (cbor_head b p)
   | KBool \<Rightarrow> md_bool md b p = Some (p + 1)
   | KNull \<Rightarrow> md_null md b p = Some (p + 1)
   | KOther \<Rightarrow> True)"

definition decoder_ok :: "minicbor \<Rightarrow> bool" where
  "decoder_ok md \<longleftrightarrow> (\<forall>b p. type_law md b p \<and> (p < length b \<longrightarrow> read_law md b p))"

text \<open>A decoder that keeps these promises, for concrete evaluation.\<close>

definition rfc_decoder :: minicbor where
  "rfc_decoder = \<lparr>
     md_datatype = \<lambda>b p. if cbor_head b p = None then None else Some (case class_of_initial (b ! p) of
        KInt \<Rightarrow> TInt | KBytes \<Rightarrow> TBytes | KText \<Rightarrow> TString | KArray \<Rightarrow> TArray | KMap \<Rightarrow> TMap
      | KBool \<Rightarrow> TBool | KNull \<Rightarrow> TNull | KOther \<Rightarrow> TUnknown (b ! p)),
     md_skip = \<lambda>b p. map_option (\<lambda>(n, h). p + h) (cbor_head b p),
     md_bytes = \<lambda>b p. sized_end b p (\<lambda>_. True),
     md_str = \<lambda>b p. sized_end b p utf8_valid,
     md_array = \<lambda>b p. map_option (\<lambda>(n, h). (Some n, p + h)) (cbor_head b p),
     md_map = \<lambda>b p. map_option (\<lambda>(n, h). (Some n, p + h)) (cbor_head b p),
     md_bool = \<lambda>b p. Some (p + 1),
     md_null = \<lambda>b p. Some (p + 1)\<rparr>"

lemma rfc_decoder_ok: "decoder_ok rfc_decoder"
proof -
  have "cbor_head b p \<noteq> None \<Longrightarrow> p < length b" for b p
    by (simp add: cbor_head_def split: if_splits)
  then show ?thesis
    by (auto simp: decoder_ok_def type_law_def read_law_def rfc_decoder_def class_of_type_def split: item_class.splits)
qed

lemma decoder_type:
  assumes "decoder_ok md"
  shows "md_datatype md b p = None \<Longrightarrow> cbor_head b p = None"
    and "md_datatype md b p = Some t \<Longrightarrow> p < length b \<and> class_of_type t = class_of_initial (b ! p)"
proof -
  from assms have "type_law md b p" by (simp add: decoder_ok_def)
  then show "md_datatype md b p = None \<Longrightarrow> cbor_head b p = None"
    and "md_datatype md b p = Some t \<Longrightarrow> p < length b \<and> class_of_type t = class_of_initial (b ! p)"
    by (simp_all add: type_law_def)
qed

lemma decoder_read: "decoder_ok md \<Longrightarrow> p < length b \<Longrightarrow> read_law md b p"
  by (simp add: decoder_ok_def)

subsection \<open>Reading one header or scalar\<close>

text \<open>The item read, by the class of its first byte.\<close>

lemma read_item_class:
  assumes ok: "decoder_ok md" and ty: "md_datatype md b p = Some t"
  shows "class_of_initial (b ! p) = KInt \<Longrightarrow> read_item md b lim p d =
      rbind (canonical_argument b p) (\<lambda>(_, hl). rbind (or_invalid (md_skip md b p) ''CBOR integer'') (\<lambda>pos.
        if usize_sub pos p \<noteq> Some hl then Inl (invalid_input ''CBOR integer'') else Inr (None, pos)))"
    and "class_of_initial (b ! p) = KOther \<Longrightarrow> read_item md b lim p d = Inl (invalid_input ''CBOR unsupported type'')"
    and "class_of_initial (b ! p) = KBytes \<Longrightarrow> t = TBytes"
    and "class_of_initial (b ! p) = KText \<Longrightarrow> t = TString"
    and "class_of_initial (b ! p) = KArray \<Longrightarrow> t = TArray"
    and "class_of_initial (b ! p) = KMap \<Longrightarrow> t = TMap"
    and "class_of_initial (b ! p) = KBool \<Longrightarrow> t = TBool"
    and "class_of_initial (b ! p) = KNull \<Longrightarrow> t = TNull"
  using decoder_type(2) [OF ok ty] ty
  by (auto simp: class_of_type_def read_item_def split: if_splits cbor_type.splits)

end
