(* ===== verification/Cbor_Gate.thy ===== *)
theory Cbor_Gate
  imports Cbor_Grammar
begin

text \<open>
  The stack machine of the canonical gate against the grammar of \<open>Cbor_Grammar\<close>: it always
  returns, and it accepts exactly the canonical items within the limits. The entry points inherit
  this, and strict decoding admits one byte string per value.
\<close>

subsection \<open>Reading one header or scalar\<close>

fun scalar :: "cbor_item \<Rightarrow> bool" where
  "scalar (CArray _) = False"
| "scalar (CMap _) = False"
| "scalar _ = True"

lemma head_class:
  assumes "at b p (enc_head m n)" "m \<le> 5" "n < 2 ^ 64"
  shows "p < length b" "cbor_head b p = Some (n, canonical_len n)"
    "class_of_initial (b ! p) = (if m \<le> 1 then KInt else if m = 2 then KBytes else if m = 3 then KText
       else if m = 4 then KArray else KMap)"
proof -
  from assms head_at [of m n p b] have h: "p < length b" "major (b ! p) = m" "cbor_head b p = Some (n, canonical_len n)"
    by auto
  then show "p < length b" "cbor_head b p = Some (n, canonical_len n)" by simp_all
  from head_length [OF h(3)] have "additional (b ! p) < 28" by auto
  with h(2) assms(2) show "class_of_initial (b ! p) = (if m \<le> 1 then KInt else if m = 2 then KBytes
      else if m = 3 then KText else if m = 4 then KArray else KMap)"
    by (auto simp: class_of_initial_def)
qed

lemma class_head:
  assumes "class_of_initial (b ! p) \<in> {KInt, KBytes, KText, KArray, KMap}" "p < length b"
    "cbor_head b p = Some (n, canonical_len n)"
  shows "major (b ! p) \<le> 5" "at b p (enc_head (major (b ! p)) n)" "n < 2 ^ 64"
    "class_of_initial (b ! p) = KInt \<Longrightarrow> major (b ! p) = 0 \<or> major (b ! p) = 1"
    "class_of_initial (b ! p) = KBytes \<Longrightarrow> major (b ! p) = 2"
    "class_of_initial (b ! p) = KText \<Longrightarrow> major (b ! p) = 3"
    "class_of_initial (b ! p) = KArray \<Longrightarrow> major (b ! p) = 4"
    "class_of_initial (b ! p) = KMap \<Longrightarrow> major (b ! p) = 5"
proof -
  show m: "major (b ! p) \<le> 5" using assms(1) by (auto simp: class_of_initial_def split: if_splits)
  show n: "n < 2 ^ 64" using head_bounds(3) [OF assms(3)] .
  show "at b p (enc_head (major (b ! p)) n)" using m n assms head_at [of "major (b ! p)" n p b] by simp
qed (auto simp: class_of_initial_def split: if_splits)

lemma byte_class:
  "class_of_initial 0xF4 = KBool" "class_of_initial 0xF5 = KBool" "class_of_initial 0xF6 = KNull"
  "additional 0xF4 = 20" "additional 0xF5 = 21" "additional 0xF6 = 22"
  by (simp_all add: class_of_initial_def major_def additional_def)

lemma class_byte:
  "class_of_initial x = KBool \<Longrightarrow> x = 0xF4 \<or> x = 0xF5" "class_of_initial x = KNull \<Longrightarrow> x = 0xF6"
  by (auto simp: class_of_initial_def split: if_splits)

lemma read_container:
  assumes ok: "decoder_ok md" and len: "length b < 2 ^ 64" and n: "n < 2 ^ 64" "n \<le> max_collection_items lim"
    and d: "d < max_depth lim"
  shows "at b p (enc_head 4 n) \<Longrightarrow> read_item md b lim p d = Inr (Some (Array_frame n), p + canonical_len n)"
    and "at b p (enc_head 5 n) \<Longrightarrow> read_item md b lim p d = Inr (Some (Map_frame n True None None), p + canonical_len n)"
proof -
  assume "at b p (enc_head 4 n)"
  from head_class [OF this _ n(1)] have h: "p < length b" "cbor_head b p = Some (n, canonical_len n)"
    "class_of_initial (b ! p) = KArray" by simp_all
  from decoder_type(1) [OF ok, of b p] h(2) obtain t where t: "md_datatype md b p = Some t" by fastforce
  from canonical_argument_head [OF len] h(2) have "canonical_argument b p = Inr (n, canonical_len n)" by blast
  with decoder_read [OF ok h(1)] h t read_item_class(5) [OF ok t h(3)] n d
  show "read_item md b lim p d = Inr (Some (Array_frame n), p + canonical_len n)"
    by (simp add: read_item_def read_law_def validate_container_depth_def)
next
  assume "at b p (enc_head 5 n)"
  from head_class [OF this _ n(1)] have h: "p < length b" "cbor_head b p = Some (n, canonical_len n)"
    "class_of_initial (b ! p) = KMap" by simp_all
  from decoder_type(1) [OF ok, of b p] h(2) obtain t where t: "md_datatype md b p = Some t" by fastforce
  from canonical_argument_head [OF len] h(2) have "canonical_argument b p = Inr (n, canonical_len n)" by blast
  with decoder_read [OF ok h(1)] h t read_item_class(6) [OF ok t h(3)] n d
  show "read_item md b lim p d = Inr (Some (Map_frame n True None None), p + canonical_len n)"
    by (simp add: read_item_def read_law_def validate_container_depth_def)
qed

lemma validate_sized_item_iff:
  assumes "start \<le> stop" "stop < 2 ^ 64"
  shows "validate_sized_item start stop h n = Inr () \<longleftrightarrow> stop = start + h + n"
  using assms by (auto simp: validate_sized_item_def usize_sub_def usize_add_def)

lemma read_string:
  assumes ok: "decoder_ok md" and len: "length b < 2 ^ 64" and n: "length bs < 2 ^ 64"
  shows "at b p (enc_head 2 (length bs) @ bs) \<Longrightarrow>
      read_item md b lim p d = Inr (None, p + length (enc_head 2 (length bs) @ bs))"
    and "at b p (enc_head 3 (length bs) @ bs) \<Longrightarrow> utf8_valid bs \<Longrightarrow>
      read_item md b lim p d = Inr (None, p + length (enc_head 3 (length bs) @ bs))"
proof -
  let ?n = "length bs"
  have size: "p + canonical_len ?n + ?n \<le> length b \<and> take ?n (drop (p + canonical_len ?n) b) = bs"
    if "at b p (enc_head m ?n @ bs)" for m
  proof -
    from that have "at b (p + canonical_len ?n) bs" by (simp only: at_append length_enc_head simp_thms)
    then have "take ?n (drop (p + canonical_len ?n) b) = bs" by (simp only: at_take)
    with at_bound [OF that] show ?thesis by (simp add: length_enc_head)
  qed
  have arg: "canonical_argument b p = Inr (?n, canonical_len ?n)" if "cbor_head b p = Some (?n, canonical_len ?n)"
    using that canonical_argument_head [OF len] by blast
  have sz: "validate_sized_item p (p + canonical_len ?n + ?n) (canonical_len ?n) ?n = Inr ()"
    if "p + canonical_len ?n + ?n \<le> length b"
    using that len validate_sized_item_iff [of p "p + canonical_len ?n + ?n" "canonical_len ?n" ?n] by simp
  {
    assume a: "at b p (enc_head 2 ?n @ bs)"
    then have "at b p (enc_head 2 ?n)" by (simp add: at_append)
    from head_class [OF this _ n] have h: "p < length b" "cbor_head b p = Some (?n, canonical_len ?n)"
      "class_of_initial (b ! p) = KBytes" by simp_all
    from decoder_type(1) [OF ok, of b p] h(2) obtain t where t: "md_datatype md b p = Some t" by fastforce
    have "md_bytes md b p = Some (p + canonical_len ?n + ?n)"
      using decoder_read [OF ok h(1)] h size [OF a] by (simp add: read_law_def sized_end_def)
    with t read_item_class(3) [OF ok t h(3)] arg [OF h(2)] sz size [OF a]
    show "read_item md b lim p d = Inr (None, p + length (enc_head 2 ?n @ bs))"
      by (simp add: read_item_def length_enc_head)
  }
  {
    assume a: "at b p (enc_head 3 ?n @ bs)" and u: "utf8_valid bs"
    then have "at b p (enc_head 3 ?n)" by (simp add: at_append)
    from head_class [OF this _ n] have h: "p < length b" "cbor_head b p = Some (?n, canonical_len ?n)"
      "class_of_initial (b ! p) = KText" by simp_all
    from decoder_type(1) [OF ok, of b p] h(2) obtain t where t: "md_datatype md b p = Some t" by fastforce
    have "md_str md b p = Some (p + canonical_len ?n + ?n)"
      using decoder_read [OF ok h(1)] h size [OF a] u by (simp add: read_law_def sized_end_def)
    with t read_item_class(4) [OF ok t h(3)] arg [OF h(2)] sz size [OF a]
    show "read_item md b lim p d = Inr (None, p + length (enc_head 3 ?n @ bs))"
      by (simp add: read_item_def length_enc_head)
  }
qed

lemma read_scalar:
  assumes ok: "decoder_ok md" and len: "length b < 2 ^ 64" and v: "scalar v" "canonical lim k v"
    and a: "at b p (enc_item v)"
  shows "read_item md b lim p d = Inr (None, p + length (enc_item v))"
proof -
  have int: "read_item md b lim p d = Inr (None, p + length (enc_head m n))"
    if a: "at b p (enc_head m n)" and m: "m \<le> 1" and n: "n < 2 ^ 64" for m n
  proof -
    from head_class [OF a _ n] m have h: "p < length b" "cbor_head b p = Some (n, canonical_len n)"
      "class_of_initial (b ! p) = KInt" by simp_all
    from decoder_type(1) [OF ok, of b p] h(2) obtain t where t: "md_datatype md b p = Some t" by fastforce
    from canonical_argument_head [OF len] h(2) have arg: "canonical_argument b p = Inr (n, canonical_len n)" by blast
    from decoder_read [OF ok h(1)] h have "md_skip md b p = Some (p + canonical_len n)" by (simp add: read_law_def)
    with arg show ?thesis using read_item_class(1) [OF ok t h(3)] by (simp add: usize_sub_def length_enc_head)
  qed
  have simple: "\<exists>t. md_datatype md b p = Some t" if "at b p [x]" "additional x < 24" for x
  proof -
    from that have "cbor_head b p \<noteq> None" by (simp add: at_Cons cbor_head_def)
    with decoder_type(1) [OF ok, of b p] show ?thesis by fastforce
  qed
  show ?thesis
  proof (cases v)
    case (CBool x)
    with a have p: "p < length b" "b ! p = (if x then 0xF5 else 0xF4)" by (simp_all add: at_Cons)
    from a CBool obtain t where t: "md_datatype md b p = Some t"
      using simple [of "if x then 0xF5 else 0xF4"] byte_class by (auto split: if_splits)
    have "class_of_initial (b ! p) = KBool" using p(2) byte_class by simp
    with decoder_read [OF ok p(1)] read_item_class(7) [OF ok t] t CBool show ?thesis
      by (simp add: read_item_def read_law_def)
  next
    case CNull
    with a have p: "p < length b" "b ! p = 0xF6" by (simp_all add: at_Cons)
    from a CNull obtain t where t: "md_datatype md b p = Some t" using simple [of "0xF6"] byte_class by auto
    have "class_of_initial (b ! p) = KNull" using p(2) byte_class by simp
    with decoder_read [OF ok p(1)] read_item_class(8) [OF ok t] t CNull show ?thesis
      by (simp add: read_item_def read_law_def)
  qed (use v a int [of 0] int [of 1] read_string [OF ok len] in auto)
qed

lemma read_item_sound:
  assumes ok: "decoder_ok md" and len: "length b < 2 ^ 64" and r: "read_item md b lim p d = Inr (c, q)"
  shows "(c = None \<and> (\<exists>v. scalar v \<and> canonical lim k v \<and> at b p (enc_item v) \<and> q = p + length (enc_item v))) \<or>
    (\<exists>n. c = Some (Array_frame n) \<and> at b p (enc_head 4 n) \<and> n < 2 ^ 64 \<and> n \<le> max_collection_items lim \<and>
       d < max_depth lim \<and> q = p + canonical_len n) \<or>
    (\<exists>n. c = Some (Map_frame n True None None) \<and> at b p (enc_head 5 n) \<and> n < 2 ^ 64 \<and> n \<le> max_collection_items lim \<and>
       d < max_depth lim \<and> q = p + canonical_len n)"
proof -
  obtain t where t: "md_datatype md b p = Some t"
  proof (cases "md_datatype md b p")
    case None
    with r show ?thesis by (simp add: read_item_def)
  qed (rule that)
  note pc = decoder_type(2) [OF ok t]
  note law = decoder_read [OF ok conjunct1 [OF pc]] and cls = read_item_class [OF ok t]
  have head: "cbor_head b p = Some (n, canonical_len n) \<and> h = canonical_len n"
    if "canonical_argument b p = Inr (n, h)" for n h
    using that canonical_argument_head [OF len, of p n h] by simp
  show ?thesis
  proof (cases "class_of_initial (b ! p)")
    case KInt
    with r cls(1) obtain n h where arg: "canonical_argument b p = Inr (n, h)" and cq: "c = None" "q = p + h"
      using law by (auto simp: usize_sub_def split: if_splits option.splits)
    note h = head [OF arg] and ch = class_head [OF _ conjunct1 [OF pc]]
    from ch [OF _ conjunct1 [OF h]] KInt have "n < 2 ^ 64" "at b p (enc_item (CUint n)) \<or> at b p (enc_item (CNint n))"
      by auto
    with cq h show ?thesis by (auto simp: length_enc_head intro: exI [of _ "CUint n"] exI [of _ "CNint n"])
  next
    case KOther
    with r cls(2) show ?thesis by simp
  next
    case KBool
    have ty: "md_datatype md b p = Some TBool" using t cls(7) [OF KBool] by simp
    note r' = r [unfolded read_item_def ty, simplified]
    from KBool r' law class_byte(1) [OF KBool] pc show ?thesis
      by (auto simp: read_law_def at_Cons intro: exI [of _ "CBool True"] exI [of _ "CBool False"])
  next
    case KNull
    have ty: "md_datatype md b p = Some TNull" using t cls(8) [OF KNull] by simp
    note r' = r [unfolded read_item_def ty, simplified]
    from KNull r' law class_byte(2) [OF KNull] pc show ?thesis
      by (auto simp: read_law_def at_Cons intro: exI [of _ CNull])
  next
    case KArray
    have ty: "md_datatype md b p = Some TArray" using t cls(5) [OF KArray] by simp
    note r' = r [unfolded read_item_def ty, simplified]
    from r' obtain n h where arg: "canonical_argument b p = Inr (n, h)"
      and c: "c = Some (Array_frame n)" "d < max_depth lim" "n \<le> max_collection_items lim"
      and q: "md_array md b p = Some (Some n, q)"
      by (auto simp: validate_container_depth_def split: if_splits option.splits)
    note h = head [OF arg]
    with q law KArray have "q = p + canonical_len n" by (simp add: read_law_def)
    with c class_head [OF _ conjunct1 [OF pc] conjunct1 [OF h]] KArray show ?thesis by simp
  next
    case KMap
    have ty: "md_datatype md b p = Some TMap" using t cls(6) [OF KMap] by simp
    note r' = r [unfolded read_item_def ty, simplified]
    from r' obtain n h where arg: "canonical_argument b p = Inr (n, h)"
      and c: "c = Some (Map_frame n True None None)" "d < max_depth lim" "n \<le> max_collection_items lim"
      and q: "md_map md b p = Some (Some n, q)"
      by (auto simp: validate_container_depth_def split: if_splits option.splits)
    note h = head [OF arg]
    with q law KMap have "q = p + canonical_len n" by (simp add: read_law_def)
    with c class_head [OF _ conjunct1 [OF pc] conjunct1 [OF h]] KMap show ?thesis by simp
  next
    case KBytes
    have ty: "md_datatype md b p = Some TBytes" using t cls(3) [OF KBytes] by simp
    note r' = r [unfolded read_item_def ty, simplified]
    from r' obtain n h where arg: "canonical_argument b p = Inr (n, h)"
      and c: "c = None" and q: "md_bytes md b p = Some q"
      by (auto split: if_splits option.splits)
    note h = head [OF arg]
    let ?s = "take n (drop (p + canonical_len n) b)"
    from q law KBytes h have q': "q = p + canonical_len n + n" "p + canonical_len n + n \<le> length b"
      by (auto simp: read_law_def sized_end_def split: if_splits)
    then have ln: "length ?s = n" by simp
    from class_head [OF _ conjunct1 [OF pc] conjunct1 [OF h]] KBytes
    have "n < 2 ^ 64" "at b p (enc_head 2 n)" by simp_all
    then have "at b p (enc_item (CBytes ?s))" "canonical lim k (CBytes ?s)"
      using ln by (simp_all add: at_append length_enc_head take_is_prefix)
    moreover have "q = p + length (enc_item (CBytes ?s))" using q' ln by (simp add: length_enc_head)
    ultimately show ?thesis using c scalar.simps(5) by blast
  next
    case KText
    have ty: "md_datatype md b p = Some TString" using t cls(4) [OF KText] by simp
    note r' = r [unfolded read_item_def ty, simplified]
    from r' obtain n h where arg: "canonical_argument b p = Inr (n, h)"
      and c: "c = None" and q: "md_str md b p = Some q"
      by (auto split: if_splits option.splits)
    note h = head [OF arg]
    let ?s = "take n (drop (p + canonical_len n) b)"
    from q law KText h have q': "q = p + canonical_len n + n" "p + canonical_len n + n \<le> length b" "utf8_valid ?s"
      by (auto simp: read_law_def sized_end_def split: if_splits)
    then have ln: "length ?s = n" by simp
    from class_head [OF _ conjunct1 [OF pc] conjunct1 [OF h]] KText
    have "n < 2 ^ 64" "at b p (enc_head 3 n)" by simp_all
    then have "at b p (enc_item (CText ?s))" "canonical lim k (CText ?s)"
      using ln q'(3) by (simp_all add: at_append length_enc_head take_is_prefix)
    moreover have "q = p + length (enc_item (CText ?s))" using q' ln by (simp add: length_enc_head)
    ultimately show ?thesis using c scalar.simps(6) by blast
  qed
qed

subsection \<open>The machine runs one item\<close>

text \<open>What the machine does after an item ends at \<open>pos\<close> with the frames \<open>st\<close> open.\<close>

definition resume :: "minicbor \<Rightarrow> bytes \<Rightarrow> cbor_limits \<Rightarrow> nat \<Rightarrow> container_frame list \<Rightarrow> nat result option" where
  "resume md b lim pos st = (case complete_item pos b st of
     Inl e \<Rightarrow> Some (Inl e)
   | Inr (complete, st') \<Rightarrow> if complete then Some (Inr pos) else validate_loop md b lim pos st')"

lemma length_set_key_start [simp]: "length (set_key_start p st) = length st"
  by (simp add: set_key_start_def split: list.splits container_frame.splits bool.splits option.splits)

lemma loop_leaf:
  assumes "read_item md b lim p (length st) = Inr (c, q)" "c = None \<or> (\<exists>f. c = Some f \<and> frame_empty f)"
  shows "validate_loop md b lim p st = resume md b lim q (set_key_start p st)"
  using assms
  by (subst validate_loop.simps)
     (auto simp: validate_step_def resume_def Let_def split: sum.splits option.splits if_splits)

lemma loop_push:
  assumes "read_item md b lim p (length st) = Inr (Some f, q)" "\<not> frame_empty f"
  shows "validate_loop md b lim p st = validate_loop md b lim q (f # set_key_start p st)"
  using assms by (subst validate_loop.simps) (simp add: validate_step_def)

lemma resume_array:
  "resume md b lim q (Array_frame (Suc k) # s) =
     (if k = 0 then resume md b lim q s else validate_loop md b lim q (Array_frame k # s))"
  by (simp add: resume_def)

lemma resume_map_value:
  "resume md b lim q (Map_frame (Suc k) False ks pk # s) =
     (if k = 0 then resume md b lim q s else validate_loop md b lim q (Map_frame k True ks pk # s))"
  by (simp add: resume_def)

definition key_follows :: "bytes \<Rightarrow> (nat \<times> nat) option \<Rightarrow> bytes \<Rightarrow> bool" where
  "key_follows b pk key = (case pk of None \<Rightarrow> True
     | Some (i, j) \<Rightarrow> \<exists>prev. get_slice b i j = Some prev \<and> prev < key)"

lemma resume_map_key:
  assumes "get_slice b p q = Some key" "key_follows b pk key"
  shows "resume md b lim q (Map_frame n True (Some p) pk # s) =
    validate_loop md b lim q (Map_frame n False None (Some (p, q)) # s)"
  using assms by (auto simp: resume_def key_follows_def not_le split: option.splits)

text \<open>An item is run when the machine passes from its start to its end with the same frames.\<close>

definition runs :: "minicbor \<Rightarrow> bytes \<Rightarrow> cbor_limits \<Rightarrow> nat \<Rightarrow> cbor_item \<Rightarrow> bool" where
  "runs md b lim depth v \<longleftrightarrow> (\<forall>p st. length st = depth \<longrightarrow> at b p (enc_item v) \<longrightarrow>
     validate_loop md b lim p st = resume md b lim (p + length (enc_item v)) (set_key_start p st))"

lemma runsD: "runs md b lim depth v \<Longrightarrow> length st = depth \<Longrightarrow> at b p (enc_item v) \<Longrightarrow>
    validate_loop md b lim p st = resume md b lim (p + length (enc_item v)) (set_key_start p st)"
  by (simp add: runs_def)

lemma loop_array:
  assumes "\<And>v. v \<in> set vs \<Longrightarrow> runs md b lim (Suc (length s)) v" "vs \<noteq> []"
    "at b q (concat (map enc_item vs))"
  shows "validate_loop md b lim q (Array_frame (length vs) # s) =
    resume md b lim (q + length (concat (map enc_item vs))) s"
  using assms
proof (induction vs arbitrary: q)
  case (Cons v vs)
  let ?q = "q + length (enc_item v)"
  from Cons.prems(3) have a: "at b q (enc_item v)" "at b ?q (concat (map enc_item vs))"
    by (simp_all add: at_append)
  have "validate_loop md b lim q (Array_frame (length (v # vs)) # s) =
      resume md b lim ?q (Array_frame (Suc (length vs)) # s)"
    using runsD [OF Cons.prems(1) [of v] _ a(1), of "Array_frame (length (v # vs)) # s"]
    by (simp add: set_key_start_def)
  also have "\<dots> = resume md b lim (?q + length (concat (map enc_item vs))) s"
    using Cons.IH [OF Cons.prems(1) _ a(2)] by (cases vs) (simp_all add: resume_array)
  finally show ?case by (simp add: add.assoc)
qed simp

abbreviation enc_pair :: "cbor_item \<times> cbor_item \<Rightarrow> bytes" where
  "enc_pair \<equiv> \<lambda>(k, v). enc_item k @ enc_item v"

lemma loop_map:
  assumes "\<And>k v. (k, v) \<in> set kvs \<Longrightarrow> runs md b lim (Suc (length s)) k \<and> runs md b lim (Suc (length s)) v"
    "kvs \<noteq> []" "at b q (concat (map enc_pair kvs))"
    "sorted_wrt (<) (map (\<lambda>(k, v). enc_item k) kvs)" "key_follows b pk (enc_item (fst (hd kvs)))"
  shows "validate_loop md b lim q (Map_frame (length kvs) True None pk # s) =
    resume md b lim (q + length (concat (map enc_pair kvs))) s"
  using assms
proof (induction kvs arbitrary: q pk)
  case (Cons kv kvs)
  obtain k v where kv: "kv = (k, v)" by (cases kv)
  let ?n = "Suc (length kvs)" and ?q = "q + length (enc_item k)" and ?r = "q + length (enc_item k) + length (enc_item v)"
  from Cons.prems(3) kv have a: "at b q (enc_item k)" "at b ?q (enc_item v)" "at b ?r (concat (map enc_pair kvs))"
    by (simp_all add: at_append add.assoc)
  have run: "runs md b lim (Suc (length s)) k" "runs md b lim (Suc (length s)) v" using Cons.prems(1) kv by auto
  have key: "get_slice b q ?q = Some (enc_item k)" using at_slice [OF a(1)] at_bound [OF a(1)] by simp
  have "validate_loop md b lim q (Map_frame ?n True None pk # s) = resume md b lim ?q (Map_frame ?n True (Some q) pk # s)"
    using runsD [OF run(1) _ a(1), of "Map_frame ?n True None pk # s"] by (simp add: set_key_start_def)
  also have "\<dots> = validate_loop md b lim ?q (Map_frame ?n False None (Some (q, ?q)) # s)"
    using resume_map_key [OF key, of pk] Cons.prems(5) kv by simp
  also have "\<dots> = resume md b lim ?r (Map_frame ?n False None (Some (q, ?q)) # s)"
    using runsD [OF run(2) _ a(2), of "Map_frame ?n False None (Some (q, ?q)) # s"] by (simp add: set_key_start_def)
  also have "\<dots> = resume md b lim (?r + length (concat (map enc_pair kvs))) s"
  proof (cases kvs)
    case Nil
    then show ?thesis by (simp add: resume_map_value)
  next
    case (Cons kv' kvs')
    then have "key_follows b (Some (q, ?q)) (enc_item (fst (hd kvs)))"
      using key Cons.prems(4) kv by (cases kv') (simp add: key_follows_def)
    moreover have "sorted_wrt (<) (map (\<lambda>(k, v). enc_item k) kvs)" using Cons.prems(4) by simp
    ultimately have "validate_loop md b lim ?r (Map_frame (length kvs) True None (Some (q, ?q)) # s) =
        resume md b lim (?r + length (concat (map enc_pair kvs))) s"
      using Cons.IH [OF Cons.prems(1) _ a(3)] Cons by simp
    then show ?thesis using Cons by (simp add: resume_map_value)
  qed
  finally show ?case using kv by (simp add: add.assoc)
qed simp

text \<open>Every canonical item that fits the remaining depth is run.\<close>

lemma canonical_runs:
  assumes ok: "decoder_ok md" and len: "length b < 2 ^ 64"
  shows "canonical lim d v \<Longrightarrow> d + depth = max_depth lim \<Longrightarrow> runs md b lim depth v"
proof (induction lim d v arbitrary: depth rule: canonical.induct)
  case (5 lim d vs)
  let ?n = "length vs"
  have IH: "runs md b lim (Suc depth) v" if "v \<in> set vs" for v
    using 5 that by simp
  show ?case unfolding runs_def
  proof (intro allI impI)
    fix p and st :: "container_frame list"
    assume st: "length st = depth" and a: "at b p (enc_item (CArray vs))"
    then have h: "at b p (enc_head 4 ?n)" and e: "at b (p + canonical_len ?n) (concat (map enc_item vs))"
      by (simp_all add: at_append length_enc_head)
    have r: "read_item md b lim p (length st) = Inr (Some (Array_frame ?n), p + canonical_len ?n)"
      using read_container(1) [OF ok len _ _ _ h] 5 st by simp
    show "validate_loop md b lim p st = resume md b lim (p + length (enc_item (CArray vs))) (set_key_start p st)"
    proof (cases "vs = []")
      case True
      then show ?thesis using loop_leaf [OF r] by (simp add: length_enc_head)
    next
      case False
      then have "\<not> frame_empty (Array_frame ?n)" by simp
      from loop_push [OF r this] loop_array [of vs md b lim "set_key_start p st"] IH False e st
      show ?thesis by (simp add: length_enc_head add.assoc)
    qed
  qed
next
  case (6 lim d kvs)
  let ?n = "length kvs"
  have IH: "runs md b lim (Suc depth) k \<and> runs md b lim (Suc depth) v" if "(k, v) \<in> set kvs" for k v
    using 6 that by fastforce
  show ?case unfolding runs_def
  proof (intro allI impI)
    fix p and st :: "container_frame list"
    assume st: "length st = depth" and a: "at b p (enc_item (CMap kvs))"
    then have h: "at b p (enc_head 5 ?n)" and e: "at b (p + canonical_len ?n) (concat (map enc_pair kvs))"
      by (simp_all add: at_append length_enc_head)
    have r: "read_item md b lim p (length st) = Inr (Some (Map_frame ?n True None None), p + canonical_len ?n)"
      using read_container(2) [OF ok len _ _ _ h] 6 st by simp
    show "validate_loop md b lim p st = resume md b lim (p + length (enc_item (CMap kvs))) (set_key_start p st)"
    proof (cases "kvs = []")
      case True
      then show ?thesis using loop_leaf [OF r] by (simp add: length_enc_head)
    next
      case False
      then have "\<not> frame_empty (Map_frame ?n True None None)" by simp
      from loop_push [OF r this] loop_map [of kvs md b lim "set_key_start p st" _ None] IH False e st 6(3)
      show ?thesis by (simp add: length_enc_head add.assoc key_follows_def)
    qed
  qed
qed (auto simp: runs_def intro!: loop_leaf simp del: enc_item.simps intro: read_scalar [OF ok len])

lemma runs_item:
  assumes "decoder_ok md" "length b < 2 ^ 64" "canonical lim (max_depth lim - length st) v"
    "length st \<le> max_depth lim" "at b p (enc_item v)"
  shows "validate_loop md b lim p st = resume md b lim (p + length (enc_item v)) (set_key_start p st)"
  using canonical_runs [OF assms(1,2,3), of "length st"] assms(4,5) by (simp add: runsD)

subsection \<open>Accepted input is canonical\<close>

text \<open>
  \<open>parses\<close> says that an accepting run from a position starts with a canonical item there. It is
  shown by induction on the bytes left, through the two container lemmas below.
\<close>

definition parses :: "minicbor \<Rightarrow> bytes \<Rightarrow> cbor_limits \<Rightarrow> nat \<Rightarrow> bool" where
  "parses md b lim p \<longleftrightarrow> (\<forall>st e. length st \<le> max_depth lim \<longrightarrow> validate_loop md b lim p st = Some (Inr e) \<longrightarrow>
     (\<exists>v. canonical lim (max_depth lim - length st) v \<and> at b p (enc_item v)))"

lemma parsesD:
  assumes "parses md b lim p" "validate_loop md b lim p st = Some (Inr e)" "length st \<le> max_depth lim"
  obtains v where "canonical lim (max_depth lim - length st) v" "at b p (enc_item v)"
  using assms unfolding parses_def by blast

lemma array_parses:
  assumes ok: "decoder_ok md" and len: "length b < 2 ^ 64" and later: "\<And>q. p < q \<Longrightarrow> parses md b lim q"
    and d: "length s < max_depth lim"
  shows "p < q \<Longrightarrow> validate_loop md b lim q (Array_frame (Suc k) # s) = Some (Inr e) \<Longrightarrow>
    \<exists>vs. length vs = Suc k \<and> (\<forall>v\<in>set vs. canonical lim (max_depth lim - Suc (length s)) v) \<and>
      at b q (concat (map enc_item vs))"
proof (induction k arbitrary: q)
  case (0 q)
  from parsesD [OF later [OF 0(1)] 0(2)] d obtain v where
    "canonical lim (max_depth lim - Suc (length s)) v" "at b q (enc_item v)" by auto
  then show ?case by (intro exI [of _ "[v]"]) simp
next
  case (Suc k q)
  let ?st = "Array_frame (Suc (Suc k)) # s"
  from parsesD [OF later [OF Suc.prems(1)] Suc.prems(2)] d obtain v where
    v: "canonical lim (max_depth lim - length ?st) v" "at b q (enc_item v)" by auto
  let ?q = "q + length (enc_item v)"
  from runs_item [OF ok len v(1) _ v(2)] d Suc.prems(2)
  have "resume md b lim ?q ?st = Some (Inr e)" by (simp add: set_key_start_def)
  then have "validate_loop md b lim ?q (Array_frame (Suc k) # s) = Some (Inr e)" by (simp add: resume_array)
  from Suc.IH [OF _ this] Suc.prems(1) obtain vs where
    "length vs = Suc k" "\<forall>v\<in>set vs. canonical lim (max_depth lim - Suc (length s)) v" "at b ?q (concat (map enc_item vs))"
    by (metis trans_less_add1)
  with v show ?case by (intro exI [of _ "v # vs"]) (simp add: at_append)
qed

lemma resume_map_key_Some:
  assumes "resume md b lim q (Map_frame n True (Some p) pk # s) = Some (Inr e)" "get_slice b p q = Some key"
  shows "key_follows b pk key"
  using assms by (auto simp: resume_def key_follows_def not_le split: option.splits if_splits)

lemma map_pair_parses:
  assumes ok: "decoder_ok md" and len: "length b < 2 ^ 64" and later: "\<And>q. p < q \<Longrightarrow> parses md b lim q"
    and d: "length s < max_depth lim" and q: "p < q"
    and run: "validate_loop md b lim q (Map_frame (Suc n) True None pk # s) = Some (Inr e)"
  obtains k v q' r where "canonical lim (max_depth lim - Suc (length s)) k" "canonical lim (max_depth lim - Suc (length s)) v"
    "at b q (enc_item k @ enc_item v)" "q' = q + length (enc_item k)" "r = q' + length (enc_item v)" "q < r"
    "key_follows b pk (enc_item k)" "get_slice b q q' = Some (enc_item k)"
    "n = 0 \<or> validate_loop md b lim r (Map_frame n True None (Some (q, q')) # s) = Some (Inr e)"
proof -
  let ?st = "Map_frame (Suc n) True None pk # s"
  from parsesD [OF later [OF q] run] d obtain k where
    k: "canonical lim (max_depth lim - length ?st) k" "at b q (enc_item k)" by auto
  let ?q = "q + length (enc_item k)"
  have slice: "get_slice b q ?q = Some (enc_item k)" using at_slice [OF k(2)] at_bound [OF k(2)] by simp
  from runs_item [OF ok len k(1) _ k(2)] d run
  have r1: "resume md b lim ?q (Map_frame (Suc n) True (Some q) pk # s) = Some (Inr e)" by (simp add: set_key_start_def)
  note follows = resume_map_key_Some [OF r1 slice]
  let ?st2 = "Map_frame (Suc n) False None (Some (q, ?q)) # s"
  from r1 resume_map_key [OF slice follows] have l2: "validate_loop md b lim ?q ?st2 = Some (Inr e)" by simp
  from parsesD [OF later l2] q d obtain v where
    v: "canonical lim (max_depth lim - length ?st2) v" "at b ?q (enc_item v)" by auto
  from runs_item [OF ok len v(1) _ v(2)] d l2
  have "resume md b lim (?q + length (enc_item v)) ?st2 = Some (Inr e)" by (simp add: set_key_start_def)
  then have "n = 0 \<or> validate_loop md b lim (?q + length (enc_item v)) (Map_frame n True None (Some (q, ?q)) # s) = Some (Inr e)"
    by (simp add: resume_map_value split: if_splits)
  with k v follows slice show thesis by (intro that [of k v ?q "?q + length (enc_item v)"]) (auto simp: at_append)
qed

lemma map_parses:
  assumes ok: "decoder_ok md" and len: "length b < 2 ^ 64" and later: "\<And>q. p < q \<Longrightarrow> parses md b lim q"
    and d: "length s < max_depth lim"
  shows "p < q \<Longrightarrow> validate_loop md b lim q (Map_frame (Suc n) True None pk # s) = Some (Inr e) \<Longrightarrow>
    \<exists>kvs. length kvs = Suc n \<and> (\<forall>(k, v)\<in>set kvs. canonical lim (max_depth lim - Suc (length s)) k \<and>
        canonical lim (max_depth lim - Suc (length s)) v) \<and>
      sorted_wrt (<) (map (\<lambda>(k, v). enc_item k) kvs) \<and> key_follows b pk (enc_item (fst (hd kvs))) \<and>
      at b q (concat (map enc_pair kvs))"
proof (induction n arbitrary: q pk)
  case (0 q pk)
  obtain k v q' r where
    "canonical lim (max_depth lim - Suc (length s)) k" "canonical lim (max_depth lim - Suc (length s)) v"
    "at b q (enc_item k @ enc_item v)" "q' = q + length (enc_item k)" "r = q' + length (enc_item v)" "q < r"
    "key_follows b pk (enc_item k)" "get_slice b q q' = Some (enc_item k)"
    "(0::nat) = 0 \<or> validate_loop md b lim r (Map_frame 0 True None (Some (q, q')) # s) = Some (Inr e)"
    by (rule map_pair_parses [OF ok len later d 0])
  then show ?case by (intro exI [of _ "[(k, v)]"]) simp
next
  case (Suc n q pk)
  obtain k v q' r where
    kv: "canonical lim (max_depth lim - Suc (length s)) k" "canonical lim (max_depth lim - Suc (length s)) v"
      "at b q (enc_item k @ enc_item v)" and pos: "q' = q + length (enc_item k)" "r = q' + length (enc_item v)" "q < r"
    and key: "key_follows b pk (enc_item k)" and sl: "get_slice b q q' = Some (enc_item k)"
    and next_run: "Suc n = 0 \<or> validate_loop md b lim r (Map_frame (Suc n) True None (Some (q, q')) # s) = Some (Inr e)"
    by (rule map_pair_parses [OF ok len later d Suc.prems])
  from Suc.prems(1) pos(3) have "p < r" by simp
  from Suc.IH [OF this] next_run obtain kvs where kvs: "length kvs = Suc n"
    "\<forall>(k, v)\<in>set kvs. canonical lim (max_depth lim - Suc (length s)) k \<and> canonical lim (max_depth lim - Suc (length s)) v"
    "sorted_wrt (<) (map (\<lambda>(k, v). enc_item k) kvs)" "key_follows b (Some (q, q')) (enc_item (fst (hd kvs)))"
    "at b r (concat (map enc_pair kvs))" by blast
  obtain k' v' rest where hd: "kvs = (k', v') # rest" using kvs(1) by (cases kvs) auto
  have "enc_item k < enc_item k'" using kvs(4) sl hd by (simp add: key_follows_def)
  with kvs(3) hd have "sorted_wrt (<) (map (\<lambda>(k, v). enc_item k) ((k, v) # kvs))"
    by (auto intro: less_trans)
  moreover have "at b q (concat (map enc_pair ((k, v) # kvs)))"
    using kv(3) kvs(5) pos by (simp add: at_append add.assoc)
  ultimately show ?case using kv(1,2) key kvs(1,2) by (intro exI [of _ "(k, v) # kvs"]) simp
qed

lemma accepting_parses:
  assumes ok: "decoder_ok md" and len: "length b < 2 ^ 64"
  shows "parses md b lim p"
proof (induction "length b - p" arbitrary: p rule: less_induct)
  case less
  show ?case unfolding parses_def
  proof (intro allI impI)
    fix st :: "container_frame list" and e
    assume st: "length st \<le> max_depth lim" and run: "validate_loop md b lim p st = Some (Inr e)"
    let ?d = "max_depth lim - length st" and ?st = "set_key_start p st"
    obtain c q where r: "read_item md b lim p (length st) = Inr (c, q)"
      using run by (subst (asm) validate_loop.simps) (auto simp: validate_step_def Let_def split: sum.splits)
    have later: "parses md b lim q'" if "p < q'" "p < length b" for q'
      using less [of q'] that by simp
    from read_item_sound [OF ok len r, of ?d] consider
        (leaf) v where "canonical lim ?d v" "at b p (enc_item v)"
      | (array) n where "c = Some (Array_frame n)" "at b p (enc_head 4 n)" "n < 2 ^ 64" "n \<le> max_collection_items lim"
          "length st < max_depth lim" "q = p + canonical_len n"
      | (map) n where "c = Some (Map_frame n True None None)" "at b p (enc_head 5 n)" "n < 2 ^ 64"
          "n \<le> max_collection_items lim" "length st < max_depth lim" "q = p + canonical_len n" by blast
    then show "\<exists>v. canonical lim ?d v \<and> at b p (enc_item v)"
    proof cases
      case array
      have pq: "p < q" "p < length b" using array(6) canonical_len_bounds [of n] at_bound [OF array(2)] by (auto simp: length_enc_head)
      have "\<exists>vs. length vs = n \<and> (\<forall>v\<in>set vs. canonical lim (max_depth lim - Suc (length ?st)) v) \<and>
          at b q (concat (map enc_item vs))"
      proof (cases n)
        case (Suc k)
        then have "validate_loop md b lim q (Array_frame (Suc k) # ?st) = Some (Inr e)"
          using loop_push [of md b lim p st "Array_frame n" q] r array(1) run by simp
        from array_parses [OF ok len later _ pq(1) this] array(5) pq Suc show ?thesis by simp
      qed simp
      then obtain vs where "length vs = n" "\<forall>v\<in>set vs. canonical lim (?d - 1) v" "at b q (concat (map enc_item vs))" by auto
      then show ?thesis using array by (intro exI [of _ "CArray vs"]) (simp add: at_append length_enc_head)
    next
      case map
      have pq: "p < q" "p < length b" using map(6) canonical_len_bounds [of n] at_bound [OF map(2)] by (auto simp: length_enc_head)
      have "\<exists>kvs. length kvs = n \<and> (\<forall>(k, v)\<in>set kvs. canonical lim (max_depth lim - Suc (length ?st)) k \<and>
          canonical lim (max_depth lim - Suc (length ?st)) v) \<and> sorted_wrt (<) (map (\<lambda>(k, v). enc_item k) kvs) \<and>
          at b q (concat (map enc_pair kvs))"
      proof (cases n)
        case (Suc k)
        then have "validate_loop md b lim q (Map_frame (Suc k) True None None # ?st) = Some (Inr e)"
          using loop_push [of md b lim p st "Map_frame n True None None" q] r map(1) run by simp
        from map_parses [OF ok len later _ pq(1) this] map(5) pq Suc show ?thesis by (simp del: split_paired_Ex) blast
      qed simp
      then obtain kvs where "length kvs = n" "\<forall>(k, v)\<in>set kvs. canonical lim (?d - 1) k \<and> canonical lim (?d - 1) v"
        "sorted_wrt (<) (map (\<lambda>(k, v). enc_item k) kvs)" "at b q (concat (map enc_pair kvs))" by auto
      then show ?thesis using map by (intro exI [of _ "CMap kvs"]) (simp add: at_append length_enc_head)
    qed blast
  qed
qed

subsection \<open>The gate\<close>

lemma step_progress:
  assumes "decoder_ok md" "length b < 2 ^ 64" "validate_step md b lim p st = Inr (Continue q st')"
  shows "p < q" "p < length b"
proof -
  obtain c where r: "read_item md b lim p (length st) = Inr (c, q)"
    using assms(3) by (auto simp: validate_step_def Let_def split: option.splits if_splits)
  have "p < q \<and> p < length b" if "at b p xs" "xs \<noteq> []" "q = p + length xs" for xs
    using at_bound [OF that(1,2)] that(2,3) by (cases xs) auto
  with read_item_sound [OF assms(1,2) r, of 0] show "p < q" "p < length b"
    by (metis enc_item_not_Nil enc_head_not_Nil length_enc_head)+
qed

lemma loop_returns:
  assumes ok: "decoder_ok md" and len: "length b < 2 ^ 64"
  shows "\<exists>r. validate_loop md b lim p st = Some r"
proof (induction "length b - p" arbitrary: p st rule: less_induct)
  case less
  show ?case
  proof (cases "validate_step md b lim p st")
    case (Inr out)
    then show ?thesis
    proof (cases out)
      case (Continue q st')
      with step_progress [OF ok len] Inr less [of q st'] show ?thesis
        by (subst validate_loop.simps) (simp add: diff_less_mono2)
    qed (simp add: validate_loop.simps)
  qed (simp add: validate_loop.simps)
qed

text \<open>Errors of the machine are all input errors.\<close>

definition rejects :: "'a result \<Rightarrow> bool" where
  "rejects r \<longleftrightarrow> (\<forall>e. r = Inl e \<longrightarrow> err_kind e = InvalidInput)"

lemma rejects_intros [intro!]:
  "rejects (Inr x)" "rejects (Inl (invalid_input c))"
  "rejects m \<Longrightarrow> (\<And>x. rejects (f x)) \<Longrightarrow> rejects (rbind m f)"
  "(P \<Longrightarrow> rejects m) \<Longrightarrow> (\<not> P \<Longrightarrow> rejects m') \<Longrightarrow> rejects (if P then m else m')"
  "rejects (or_invalid x' c)"
  by (auto simp: rejects_def invalid_input_def rbind_eq_Inl split: option.splits)

lemma canonical_argument_rejects [intro!]: "rejects (canonical_argument b p)"
  unfolding canonical_argument_def read_array_def fixed_bytes_def Let_def by auto

lemma read_item_rejects [intro!]: "rejects (read_item md b lim p d)"
  unfolding read_item_def validate_sized_item_def validate_container_depth_def
  by (intro rejects_intros canonical_argument_rejects) (auto split: prod.splits option.splits intro!: rejects_intros)

lemma complete_item_rejects [intro!]: "rejects (complete_item p b st)"
proof (induction p b st rule: complete_item.induct)
  case (3 pos b r expecting ks pk s)
  then show ?case by (auto split: option.splits prod.splits)
qed auto

lemma loop_rejects:
  assumes ok: "decoder_ok md" and len: "length b < 2 ^ 64"
  shows "validate_loop md b lim p st = Some r \<Longrightarrow> rejects r"
proof (induction "length b - p" arbitrary: p st rule: less_induct)
  case less
  have step: "rejects (validate_step md b lim p st)"
    unfolding validate_step_def Let_def by (auto split: prod.splits option.splits)
  show ?case
  proof (cases "validate_step md b lim p st")
    case (Inl e)
    with less.prems step show ?thesis by (subst (asm) validate_loop.simps) (auto simp: rejects_def)
  next
    case (Inr out)
    then show ?thesis
    proof (cases out)
      case (Continue q st')
      with less.prems Inr have "validate_loop md b lim q st' = Some r" by (subst (asm) validate_loop.simps) simp
      with less.hyps [of q st'] step_progress [OF ok len] Inr Continue show ?thesis by (simp add: diff_less_mono2)
    qed (use less.prems Inr in \<open>auto simp: validate_loop.simps\<close>)
  qed
qed

lemma loop_accepts_iff:
  assumes ok: "decoder_ok md" and len: "length b < 2 ^ 64"
  shows "validate_loop md b lim 0 [] = Some (Inr (length b)) \<longleftrightarrow>
    (\<exists>v. b = enc_item v \<and> canonical lim (max_depth lim) v)"
proof
  assume run: "validate_loop md b lim 0 [] = Some (Inr (length b))"
  obtain v where v: "canonical lim (max_depth lim) v" "at b 0 (enc_item v)"
    using parsesD [OF accepting_parses [OF ok len] run] by auto
  have "length (enc_item v) = length b"
    using runs_item [OF ok len, of lim "[]" v 0] v run by (simp add: resume_def set_key_start_def)
  with v show "\<exists>v. b = enc_item v \<and> canonical lim (max_depth lim) v" by (auto simp: prefix_def)
next
  assume "\<exists>v. b = enc_item v \<and> canonical lim (max_depth lim) v"
  then obtain v where "b = enc_item v" "canonical lim (max_depth lim) v" by blast
  then show "validate_loop md b lim 0 [] = Some (Inr (length b))"
    using runs_item [OF ok len, of lim "[]" v 0] by (simp add: resume_def set_key_start_def)
qed

text \<open>The two facts about the gate that the codecs built on it use.\<close>

lemma gate_accepts_iff:
  assumes "decoder_ok md" "max_body_len lim < 2 ^ 64"
  shows "validate_canonical md b lim = Some (Inr ()) \<longleftrightarrow>
    0 < max_depth lim \<and> 0 < max_collection_items lim \<and> length b \<le> max_body_len lim \<and>
    (\<exists>v. b = enc_item v \<and> canonical lim (max_depth lim) v)"
proof (cases "length b \<le> max_body_len lim")
  case True
  then have len: "length b < 2 ^ 64" using assms(2) by simp
  have "map_option (\<lambda>r. rbind r (\<lambda>pos. if pos \<noteq> length b then Inl (invalid_input ''CBOR trailing data'') else Inr ()))
      (validate_loop md b lim 0 []) = Some (Inr ()) \<longleftrightarrow> validate_loop md b lim 0 [] = Some (Inr (length b))"
    by (auto split: if_splits)
  moreover have "0 < max_body_len lim" if "b \<noteq> []" using True that by (cases b) auto
  ultimately show ?thesis
    using True loop_accepts_iff [OF assms(1) len, of lim] enc_item_not_Nil
    by (auto simp: validate_canonical_def validate_item_def)
qed (simp add: validate_canonical_def)

lemma gate_returns:
  assumes "decoder_ok md" "max_body_len lim < 2 ^ 64"
  shows "\<exists>r. validate_canonical md b lim = Some r \<and> (\<forall>e. r = Inl e \<longrightarrow> err_kind e = InvalidInput)"
proof (cases "length b \<le> max_body_len lim")
  case True
  then have len: "length b < 2 ^ 64" using assms(2) by simp
  from loop_returns [OF assms(1) len] obtain r where r: "validate_loop md b lim 0 [] = Some r" by blast
  from loop_rejects [OF assms(1) len r] r show ?thesis
    by (auto simp: validate_canonical_def validate_item_def rejects_def rbind_eq_Inl invalid_input_def)
qed (simp add: validate_canonical_def invalid_input_def)

text \<open>
  C4: The canonical gate is exact. With a decoder that reads RFC 8949 headers and strings, input is
  accepted when, and only when, the limits are positive, the input is within the body limit, and it
  is the deterministic encoding of one item: shortest arguments, definite lengths, valid text,
  at most the permitted nesting and container sizes, and map keys strictly ascending.
\<close>

theorem validate_canonical_exact:
  assumes "decoder_ok md" "max_body_len lim < 2 ^ 64"
  shows "validate_canonical md b lim = Some (Inr ()) \<longleftrightarrow>
    0 < max_depth lim \<and> 0 < max_collection_items lim \<and> length b \<le> max_body_len lim \<and>
    (\<exists>v. b = enc_item v \<and> canonical lim (max_depth lim) v)"
  by (rule gate_accepts_iff [OF assms])

theorem validate_canonical_exact_witness:
  "validate_canonical rfc_decoder (enc_item (CMap [(CUint 1, CText [97]), (CUint 2, CArray [CNull])]))
     \<lparr>max_depth = 2, max_collection_items = 4, max_body_len = 64\<rparr> = Some (Inr ())"
  using validate_canonical_exact [OF rfc_decoder_ok, of "\<lparr>max_depth = 2, max_collection_items = 4, max_body_len = 64\<rparr>"
      "enc_item (CMap [(CUint 1, CText [97]), (CUint 2, CArray [CNull])])"]
  by (auto simp: enc_head_def intro!: exI [of _ "CMap [(CUint 1, CText [97]), (CUint 2, CArray [CNull])]"])



subsection \<open>Encoding and decoding\<close>

text \<open>The writer accepts a sequence of writes exactly when their total fits the limit.\<close>

lemma write_chunks_eq:
  assumes "lw_limit w < 2 ^ 64" "length (lw_bytes w) \<le> lw_limit w"
  shows "fst (write_chunks w cs) \<longleftrightarrow> length (lw_bytes w) + length (concat cs) \<le> lw_limit w"
    and "fst (write_chunks w cs) \<Longrightarrow> lw_bytes (snd (write_chunks w cs)) = lw_bytes w @ concat cs"
proof -
  have "(fst (write_chunks w cs) \<longleftrightarrow> length (lw_bytes w) + length (concat cs) \<le> lw_limit w) \<and>
    (fst (write_chunks w cs) \<longrightarrow> lw_bytes (snd (write_chunks w cs)) = lw_bytes w @ concat cs)"
    using assms
  proof (induction cs arbitrary: w)
    case (Cons c cs)
    show ?case
    proof (cases "length (lw_bytes w) + length c \<le> lw_limit w")
      case True
      then have "write_all w c = (True, w\<lparr>lw_bytes := lw_bytes w @ c\<rparr>)"
        using Cons.prems by (simp add: write_all_def usize_add_def)
      with Cons.IH [of "w\<lparr>lw_bytes := lw_bytes w @ c\<rparr>"] Cons.prems True show ?thesis by (simp add: add.assoc)
    next
      case False
      then have "write_all w c = (False, w)" by (simp add: write_all_def usize_add_def)
      with False show ?thesis by simp
    qed
  qed simp
  then show "fst (write_chunks w cs) \<longleftrightarrow> length (lw_bytes w) + length (concat cs) \<le> lw_limit w"
    and "fst (write_chunks w cs) \<Longrightarrow> lw_bytes (snd (write_chunks w cs)) = lw_bytes w @ concat cs" by simp_all
qed

lemma encode_canonical_iff:
  assumes "max_body_len lim < 2 ^ 64"
  shows "encode_canonical md encT v lim = Some (Inr bs) \<longleftrightarrow>
    bs = concat (encT v) \<and> length bs \<le> max_body_len lim \<and> validate_canonical md bs lim = Some (Inr ())"
proof -
  let ?w = "new_writer (max_body_len lim)"
  note w = write_chunks_eq [of ?w "encT v"]
  show ?thesis
  proof (cases "write_chunks ?w (encT v)")
    case (Pair ok w')
    then show ?thesis
      using w assms by (cases ok) (auto simp: encode_canonical_def new_writer_def)
  qed
qed

lemma decode_strict_orD:
  assumes "decode_canonical_strict md encT decT b lim c = Some (Inr v)"
  shows "decode_canonical_strict_or md encT decT b lim = Some (Inr v)"
proof -
  from assms obtain r where r: "decode_canonical_strict_or md encT decT b lim = Some r"
    and v: "(case r of Inl (Decode_failure e) \<Rightarrow> Inl e | Inl NonCanonical \<Rightarrow> Inl (invalid_input c) | Inr v \<Rightarrow> Inr v) = Inr v"
    by (auto simp: decode_canonical_strict_def)
  from v have "r = Inr v" by (auto split: sum.splits strict_decode_failure.splits)
  with r show ?thesis by simp
qed

lemma decode_strict_encodes:
  "decode_canonical_strict md encT decT b lim c = Some (Inr v) \<Longrightarrow> encode_canonical md encT v lim = Some (Inr b)"
  by (drule decode_strict_orD) (auto simp: decode_canonical_strict_or_def split: option.splits sum.splits if_splits)

lemma decode_strict_decodes:
  "decode_canonical_strict md encT decT b lim c = Some (Inr v) \<Longrightarrow> decT b = Some (v, length b)"
  by (drule decode_strict_orD) (auto simp: decode_canonical_strict_or_def decode_canonical_def rbind_eq_Inr
      split: option.splits sum.splits if_splits)

text \<open>
  C7: Strict decoding admits one byte string per value, whatever the derived codec of the type does:
  an accepted input is the value's own encoding, it passes the canonical gate within the body limit,
  and no other input decodes to the same value.
\<close>

theorem strict_decode_unique:
  assumes "max_body_len lim < 2 ^ 64" "decode_canonical_strict md encT decT b lim c = Some (Inr v)"
  shows "b = concat (encT v) \<and> length b \<le> max_body_len lim \<and> validate_canonical md b lim = Some (Inr ()) \<and>
    (\<forall>b' c'. decode_canonical_strict md encT decT b' lim c' = Some (Inr v) \<longrightarrow> b' = b)"
proof -
  note b = decode_strict_encodes [OF assms(2), unfolded encode_canonical_iff [OF assms(1)]]
  moreover have "b' = b" if "decode_canonical_strict md encT decT b' lim c' = Some (Inr v)" for b' c'
    using decode_strict_encodes [OF that] encode_canonical_iff [OF assms(1), of md encT v b'] b by simp
  ultimately show ?thesis by blast
qed

lemma true_encoding_accepted:
  "validate_canonical rfc_decoder [0xF5] \<lparr>max_depth = 1, max_collection_items = 1, max_body_len = 8\<rparr> = Some (Inr ())"
proof -
  let ?lim = "\<lparr>max_depth = 1, max_collection_items = 1, max_body_len = 8\<rparr>"
  have "validate_loop rfc_decoder [0xF5] ?lim 0 [] = Some (Inr (length ([0xF5] :: bytes)))"
    using loop_accepts_iff [OF rfc_decoder_ok, of "[0xF5]" ?lim] by (auto intro!: exI [of _ "CBool True"])
  then show ?thesis by (simp add: validate_canonical_def validate_item_def)
qed

theorem strict_decode_unique_witness:
  "decode_canonical_strict rfc_decoder (\<lambda>x. [[if x then 0xF5 else 0xF4]])
     (\<lambda>b. case b of [x] \<Rightarrow> Some (x = 0xF5, 1) | _ \<Rightarrow> None) [0xF5]
     \<lparr>max_depth = 1, max_collection_items = 1, max_body_len = 8\<rparr> ''flag'' = Some (Inr True) \<and>
   length ([0xF5] :: bytes) \<le> 8"
proof -
  let ?lim = "\<lparr>max_depth = 1, max_collection_items = 1, max_body_len = 8\<rparr>"
  let ?enc = "\<lambda>x. [[if x then 0xF5 else 0xF4]] :: bytes list"
  let ?dec = "\<lambda>b :: bytes. case b of [x] \<Rightarrow> Some (x = 0xF5, 1) | _ \<Rightarrow> None"
  have e: "encode_canonical rfc_decoder ?enc True ?lim = Some (Inr [0xF5])"
    using true_encoding_accepted encode_canonical_iff [of ?lim rfc_decoder ?enc True "[0xF5]"] by simp
  have d: "decode_canonical_strict rfc_decoder ?enc ?dec [0xF5] ?lim ''flag'' = Some (Inr True)"
    using true_encoding_accepted e
    by (simp add: decode_canonical_strict_def decode_canonical_strict_or_def decode_canonical_def)
  with strict_decode_unique [OF _ d] show ?thesis by simp
qed

end
