(* ===== verification/Cbor_Parse.thy ===== *)
theory Cbor_Parse
  imports Cbor_Gate
begin

text \<open>
  A reference parser for the items of the canonical gate. It shows that the deterministic encoding
  is uniquely readable, so an accepted input denotes exactly one item, and it gives concrete
  instances of the derived codecs that other theories take as parameters.
\<close>

function (sequential) parse_item :: "nat \<Rightarrow> bytes \<Rightarrow> (cbor_item \<times> bytes) option"
  and parse_items :: "nat \<Rightarrow> nat \<Rightarrow> bytes \<Rightarrow> (cbor_item list \<times> bytes) option" where
  "parse_item 0 b = None"
| "parse_item (Suc f) b = (case cbor_head b 0 of None \<Rightarrow> None | Some (n, h) \<Rightarrow>
    (case class_of_initial (b ! 0) of
       KInt \<Rightarrow> Some (if major (b ! 0) = 0 then CUint n else CNint n, drop h b)
     | KBytes \<Rightarrow> if h + n \<le> length b then Some (CBytes (take n (drop h b)), drop (h + n) b) else None
     | KText \<Rightarrow> if h + n \<le> length b then Some (CText (take n (drop h b)), drop (h + n) b) else None
     | KArray \<Rightarrow> (case parse_items f n (drop h b) of None \<Rightarrow> None | Some (vs, r) \<Rightarrow> Some (CArray vs, r))
     | KMap \<Rightarrow> (case parse_items f (2 * n) (drop h b) of None \<Rightarrow> None | Some (vs, r) \<Rightarrow> Some (CMap (pairs vs), r))
     | KBool \<Rightarrow> Some (CBool (b ! 0 = 0xF5), drop 1 b)
     | KNull \<Rightarrow> Some (CNull, drop 1 b)
     | KOther \<Rightarrow> None))"
| "parse_items f 0 b = Some ([], b)"
| "parse_items f (Suc n) b = (case parse_item f b of None \<Rightarrow> None | Some (v, r) \<Rightarrow>
    (case parse_items f n r of None \<Rightarrow> None | Some (vs, r') \<Rightarrow> Some (v # vs, r')))"
  by pat_completeness auto
termination
  by (relation "inv_image (less_than <*lex*> less_than)
      (\<lambda>x. case x of Inl (f, b) \<Rightarrow> (f, 0) | Inr (f, n, b) \<Rightarrow> (f, n))") auto

lemma at_self: "at (xs @ r) 0 xs"
  by simp

lemma parse_items_append:
  assumes "\<And>v r. v \<in> set vs \<Longrightarrow> parse_item f (enc_item v @ r) = Some (v, r)"
  shows "parse_items f (length vs) (concat (map enc_item vs) @ r) = Some (vs, r)"
  using assms by (induction vs arbitrary: r) simp_all

lemma parse_pairs_append:
  assumes "\<And>k v r. (k, v) \<in> set kvs \<Longrightarrow> parse_item f (enc_item k @ r) = Some (k, r) \<and> parse_item f (enc_item v @ r) = Some (v, r)"
  shows "parse_items f (2 * length kvs) (concat (map enc_pair kvs) @ r) = Some (concat (map (\<lambda>(k, v). [k, v]) kvs), r)"
  using assms
proof (induction kvs arbitrary: r)
  case (Cons kv kvs)
  obtain k v where "kv = (k, v)" by (cases kv)
  moreover have "parse_items f (2 * length kvs) (concat (map enc_pair kvs) @ r) = Some (concat (map (\<lambda>(k, v). [k, v]) kvs), r)"
    using Cons(2) by (intro Cons(1)) (meson list.set_intros(2))
  ultimately show ?case using Cons(2) [of k v] by simp
qed simp

lemma head_here:
  assumes "m \<le> 5" "n < 2 ^ 64"
  shows "cbor_head (enc_head m n @ r) 0 = Some (n, canonical_len n)"
    "class_of_initial ((enc_head m n @ r) ! 0) = (if m \<le> 1 then KInt else if m = 2 then KBytes
       else if m = 3 then KText else if m = 4 then KArray else KMap)"
    "major ((enc_head m n @ r) ! 0) = m"
proof -
  have a: "at (enc_head m n @ r) 0 (enc_head m n)" by simp
  from head_class [OF a assms] show "cbor_head (enc_head m n @ r) 0 = Some (n, canonical_len n)"
    "class_of_initial ((enc_head m n @ r) ! 0) = (if m \<le> 1 then KInt else if m = 2 then KBytes
       else if m = 3 then KText else if m = 4 then KArray else KMap)" by simp_all
  show "major ((enc_head m n @ r) ! 0) = m" using a assms head_at [of m n 0 "enc_head m n @ r"] by simp
qed

lemma parse_enc_item: "canonical lim d v \<Longrightarrow> parse_item (Suc d) (enc_item v @ r) = Some (v, r)"
proof (induction lim d v arbitrary: r rule: canonical.induct)
  case (5 lim d vs)
  then obtain d' where d: "d = Suc d'" by (cases d) auto
  have "parse_items d (length vs) (concat (map enc_item vs) @ r) = Some (vs, r)"
    using 5 d by (intro parse_items_append) simp
  with 5(2) show ?case by (simp add: head_here length_enc_head)
next
  case (6 lim d kvs)
  then obtain d' where d: "d = Suc d'" by (cases d) auto
  have "parse_items d (2 * length kvs) (concat (map enc_pair kvs) @ r) = Some (concat (map (\<lambda>(k, v). [k, v]) kvs), r)"
    using 6 d by (intro parse_pairs_append) fastforce
  with 6(3) show ?case by (simp add: head_here length_enc_head)
next
  case (7 lim d x)
  then show ?case by (simp add: cbor_head_def byte_class)
next
  case (8 lim d)
  then show ?case by (simp add: cbor_head_def byte_class)
qed (simp_all add: head_here length_enc_head)

text \<open>Two canonical items with one encoding are one item, even as prefixes.\<close>

lemma canonical_mono: "canonical lim d v \<Longrightarrow> d \<le> d' \<Longrightarrow> canonical lim d' v"
proof (induction lim d v arbitrary: d' rule: canonical.induct)
  case (5 lim d vs)
  then have "canonical lim (d' - 1) v" if "v \<in> set vs" for v using that by simp
  with 5(2,3) show ?case by simp
next
  case (6 lim d kvs)
  then have "canonical lim (d' - 1) k \<and> canonical lim (d' - 1) v" if "(k, v) \<in> set kvs" for k v
    using that by fastforce
  with 6(3,4) show ?case by auto
qed simp_all

lemma enc_item_inject:
  assumes "canonical lim d v" "canonical lim' d' v'" "enc_item v @ r = enc_item v' @ r'"
  shows "v = v' \<and> r = r'"
  using parse_enc_item [OF canonical_mono [OF assms(1)], of "max d d'" r]
    parse_enc_item [OF canonical_mono [OF assms(2)], of "max d d'" r'] assms(3) by simp

subsection \<open>Well-formed items\<close>

text \<open>What an item must satisfy whatever the limits of the gate are.\<close>

fun item_wf :: "cbor_item \<Rightarrow> bool" where
  "item_wf (CUint n) = (n < 2 ^ 64)"
| "item_wf (CNint n) = (n < 2 ^ 64)"
| "item_wf (CBytes bs) = True"
| "item_wf (CText bs) = utf8_valid bs"
| "item_wf (CArray vs) = (\<forall>v\<in>set vs. item_wf v)"
| "item_wf (CMap kvs) = ((\<forall>(k, v)\<in>set kvs. item_wf k \<and> item_wf v) \<and> sorted_wrt (<) (map (\<lambda>(k, v). enc_item k) kvs))"
| "item_wf (CBool x) = True"
| "item_wf CNull = True"

lemma length_concat_ge:
  "(\<And>x. x \<in> set xs \<Longrightarrow> f x \<noteq> []) \<Longrightarrow> length xs \<le> length (concat (map f xs))"
proof (induction xs)
  case (Cons x xs)
  then have "1 \<le> length (f x)" by (simp add: Suc_le_eq)
  with Cons show ?case by (simp add: add_mono)
qed simp

lemma length_in_concat: "x \<in> set xs \<Longrightarrow> length (f x) \<le> length (concat (map f xs))"
  by (induction xs) auto

definition open_limits :: cbor_limits where
  "open_limits = \<lparr>max_depth = 2 ^ 64, max_collection_items = 2 ^ 64, max_body_len = 2 ^ 64\<rparr>"

lemma item_wf_canonical:
  "item_wf v \<Longrightarrow> length (enc_item v) \<le> d \<Longrightarrow> d < 2 ^ 64 \<Longrightarrow> canonical open_limits d v"
proof (induction v arbitrary: d rule: item_wf.induct)
  case (5 vs)
  let ?body = "concat (map enc_item vs)"
  have len: "canonical_len (length vs) + length ?body \<le> d" "1 \<le> canonical_len (length vs)"
    using 5(3) canonical_len_bounds [of "length vs"] by (simp_all add: length_enc_head)
  have "length vs \<le> length ?body" by (rule length_concat_ge) simp
  moreover have "canonical open_limits (d - 1) v" if v: "v \<in> set vs" for v
    using length_in_concat [OF v, of enc_item] 5 len v by (intro 5(1)) auto
  ultimately show ?case using len 5(4) by (simp add: open_limits_def)
next
  case (6 kvs)
  let ?body = "concat (map enc_pair kvs)"
  have len: "canonical_len (length kvs) + length ?body \<le> d" "1 \<le> canonical_len (length kvs)"
    using 6(4) canonical_len_bounds [of "length kvs"] by (simp_all add: length_enc_head)
  have "length kvs \<le> length ?body" by (rule length_concat_ge) auto
  moreover have "canonical open_limits (d - 1) k \<and> canonical open_limits (d - 1) v" if kv: "(k, v) \<in> set kvs" for k v
    using length_in_concat [OF kv, of enc_pair] 6(1) [OF kv refl, of "d - 1"] 6(2) [OF kv refl, of "d - 1"] 6(3,5) len kv by force
  ultimately show ?case using len 6(3,5) by (auto simp: open_limits_def)
qed (simp_all add: length_enc_head)

lemma gate_accepts_item:
  assumes "decoder_ok md" "max_body_len lim < 2 ^ 64" "item_wf v"
  shows "validate_canonical md (enc_item v) lim = Some (Inr ()) \<longleftrightarrow>
    0 < max_depth lim \<and> 0 < max_collection_items lim \<and> length (enc_item v) \<le> max_body_len lim \<and>
    canonical lim (max_depth lim) v"
proof -
  have "canonical lim (max_depth lim) v"
    if "length (enc_item v) \<le> max_body_len lim" "enc_item v = enc_item v'" "canonical lim (max_depth lim) v'" for v'
    using enc_item_inject [OF item_wf_canonical [OF assms(3) order.refl] that(3), of "[]" "[]"] that assms(2) by simp
  with gate_accepts_iff [OF assms(1,2), of "enc_item v"] show ?thesis by blast
qed

subsection \<open>Derived codecs\<close>

text \<open>
  What the derivation of a struct's codec documents: the encoder writes the item of the struct's
  fields, and the decoder reads that item back to the struct and stops at its end.
\<close>

definition derived_codec :: "('a \<Rightarrow> bytes list) \<Rightarrow> (bytes \<Rightarrow> ('a \<times> nat) option) \<Rightarrow> ('a \<Rightarrow> cbor_item) \<Rightarrow> 'a \<Rightarrow> bool" where
  "derived_codec encT decT itm v \<longleftrightarrow> concat (encT v) = enc_item (itm v) \<and>
     (length (enc_item (itm v)) < 2 ^ 64 \<longrightarrow> decT (enc_item (itm v)) = Some (v, length (enc_item (itm v))))"

lemma encode_item_iff:
  assumes "decoder_ok md" "max_body_len lim < 2 ^ 64" "concat (encT v) = enc_item (itm v)" "item_wf (itm v)"
  shows "encode_canonical md encT v lim = Some (Inr b) \<longleftrightarrow>
    b = enc_item (itm v) \<and> 0 < max_depth lim \<and> 0 < max_collection_items lim \<and> length b \<le> max_body_len lim \<and>
    canonical lim (max_depth lim) (itm v)"
  using gate_accepts_item [OF assms(1,2,4)] by (auto simp: encode_canonical_iff [OF assms(2)] assms(3))

lemma decode_strict_iff:
  assumes "max_body_len lim < 2 ^ 64" "derived_codec encT decT itm v"
  shows "decode_canonical_strict md encT decT b lim c = Some (Inr v) \<longleftrightarrow> encode_canonical md encT v lim = Some (Inr b)"
proof
  assume e: "encode_canonical md encT v lim = Some (Inr b)"
  note b = e [unfolded encode_canonical_iff [OF assms(1)]]
  from b assms(1) have "length b < 2 ^ 64" by linarith
  moreover from b assms(2) have "b = enc_item (itm v)" by (simp add: derived_codec_def)
  ultimately have "decT b = Some (v, length b)" using assms(2) by (simp add: derived_codec_def)
  moreover from b have "validate_canonical md b lim = Some (Inr ())" by blast
  ultimately have "decode_canonical md decT b lim = Some (Inr v)" by (simp add: decode_canonical_def)
  with e show "decode_canonical_strict md encT decT b lim c = Some (Inr v)"
    by (simp add: decode_canonical_strict_def decode_canonical_strict_or_def)
qed (rule decode_strict_encodes)

lemma encode_returns:
  assumes "decoder_ok md" "max_body_len lim < 2 ^ 64"
  shows "\<exists>r. encode_canonical md encT v lim = Some r \<and> (\<forall>e. r = Inl e \<longrightarrow> err_kind e = InvalidInput)"
proof -
  obtain ok w where "write_chunks (new_writer (max_body_len lim)) (encT v) = (ok, w)"
    by (cases "write_chunks (new_writer (max_body_len lim)) (encT v)")
  with gate_returns [OF assms, of "lw_bytes w"] show ?thesis
    by (auto simp: encode_canonical_def rbind_eq_Inl invalid_input_def)
qed

lemma decode_strict_returns:
  assumes "decoder_ok md" "max_body_len lim < 2 ^ 64"
  shows "\<exists>r. decode_canonical_strict md encT decT b lim c = Some r \<and> (\<forall>e. r = Inl e \<longrightarrow> err_kind e = InvalidInput)"
proof -
  obtain r where r: "validate_canonical md b lim = Some r" "\<forall>e. r = Inl e \<longrightarrow> err_kind e = InvalidInput"
    using gate_returns [OF assms, of b] by auto
  define d where "d = rbind r (\<lambda>_. rbind (or_invalid (decT b) ''CBOR decode'') (\<lambda>(v, pos).
       if pos \<noteq> length b then Inl (invalid_input ''CBOR trailing data'') else Inr v))"
  have d: "decode_canonical md decT b lim = Some d" by (simp add: decode_canonical_def r d_def)
  have de: "\<forall>e. d = Inl e \<longrightarrow> err_kind e = InvalidInput"
    using r(2) by (auto simp: d_def rbind_eq_Inl invalid_input_def split: option.splits if_splits)
  obtain s where s: "decode_canonical_strict_or md encT decT b lim = Some s"
    "\<forall>e. s = Inl (Decode_failure e) \<longrightarrow> err_kind e = InvalidInput"
  proof (cases d)
    case (Inl e)
    with d de that [of "Inl (Decode_failure e)"] show thesis by (simp add: decode_canonical_strict_or_def)
  next
    case (Inr v)
    obtain r' where r': "encode_canonical md encT v lim = Some r'" "\<forall>e. r' = Inl e \<longrightarrow> err_kind e = InvalidInput"
      using encode_returns [OF assms, of encT v] by auto
    show thesis
    proof (cases r')
      case (Inl e)
      with d \<open>d = Inr v\<close> r' that [of "Inl (Decode_failure e)"] show thesis by (simp add: decode_canonical_strict_or_def)
    next
      case (Inr b')
      with d \<open>d = Inr v\<close> r' that [of "if b' \<noteq> b then Inl NonCanonical else Inr v"] show thesis
        by (simp add: decode_canonical_strict_or_def split: if_splits)
    qed
  qed
  then show ?thesis
    by (auto simp: decode_canonical_strict_def invalid_input_def split: sum.splits strict_decode_failure.splits)
qed

end
