(* ===== verification/Wire_Envelope.thy ===== *)
theory Wire_Envelope
  imports Cbor_Canonical
begin

text \<open>
  The frame envelope of \<^verbatim>\<open>src/protocol/envelope.rs\<close> and the closed kind registry of
  \<^verbatim>\<open>src/protocol/wire.rs\<close>: the sixteen-byte prelude, the declared/flags/limit checks both
  directions share, the split of a received message into prelude and body, and the resolution of
  schema and kind identifiers.
\<close>

unbundle bit_operations_syntax

subsection \<open>The prelude\<close>

definition PRELUDE_LEN :: nat where "PRELUDE_LEN = 16"
definition MAX_BODY_BYTES :: nat where "MAX_BODY_BYTES = 65536"

definition MAGIC_BYTES :: bytes where "MAGIC_BYTES = ascii ''MRLY''"

record prelude =
  schema_id :: u16
  kind_id :: u16
  flags :: u16
  body_len :: u32

definition encode_prelude :: "prelude \<Rightarrow> bytes" where
  "encode_prelude p = MAGIC_BYTES @ be_bytes 2 (unat (schema_id p)) @ be_bytes 2 (unat (kind_id p)) @
     be_bytes 2 (unat (flags p)) @ [0, 0] @ be_bytes 4 (unat (body_len p))"

definition decode_prelude :: "bytes \<Rightarrow> prelude result" where
  "decode_prelude b =
    (if length b < PRELUDE_LEN \<or> take 4 b \<noteq> MAGIC_BYTES then Inl (invalid_input ''wire prelude'')
     else if b ! 10 \<noteq> 0 \<or> b ! 11 \<noteq> 0 then Inl (invalid_input ''wire reserved bits'')
     else Inr \<lparr>schema_id = of_nat (of_be_bytes [b ! 4, b ! 5]), kind_id = of_nat (of_be_bytes [b ! 6, b ! 7]),
       flags = of_nat (of_be_bytes [b ! 8, b ! 9]),
       body_len = of_nat (of_be_bytes [b ! 12, b ! 13, b ! 14, b ! 15])\<rparr>)"

definition check_frame :: "prelude \<Rightarrow> u16 \<Rightarrow> u32 \<Rightarrow> (u16 \<Rightarrow> u16 \<Rightarrow> bool) \<Rightarrow> unit result" where
  "check_frame p allowed limit is_decl =
    (if \<not> is_decl (schema_id p) (kind_id p) \<or> flags p AND NOT allowed \<noteq> 0 \<or> limit < body_len p
     then Inl (invalid_input ''wire limits'') else Inr ())"

definition split_message :: "bytes \<Rightarrow> u16 \<Rightarrow> u32 \<Rightarrow> u32 \<Rightarrow> (u16 \<Rightarrow> u16 \<Rightarrow> bool) \<Rightarrow> (prelude \<times> bytes) result" where
  "split_message m allowed limit receive_limit is_decl =
    rbind (decode_prelude m) (\<lambda>p.
    rbind (check_frame p allowed limit is_decl) (\<lambda>_.
    if receive_limit < body_len p then Inl (invalid_input ''wire limits'')
    else rbind (or_invalid (if unat (body_len p) < 2 ^ 64 then Some (unat (body_len p)) else None) ''wire body length'') (\<lambda>blen.
      rbind (or_invalid (usize_add PRELUDE_LEN blen) ''wire body length'') (\<lambda>expected.
      if length m \<noteq> expected then Inl (invalid_input ''wire body length'')
      else Inr (p, drop PRELUDE_LEN m)))))"

subsection \<open>The kind registry\<close>

definition BASE_SCHEMA_ID :: u16 where "BASE_SCHEMA_ID = 0x0001"

datatype handshake_kind =
    InitiatorHello | ResponderHello | ResponderProof | InitiatorProof | SelectionConfirmation | MergeGrantDelivery

definition handshake_kinds :: "handshake_kind list" where
  "handshake_kinds = [InitiatorHello, ResponderHello, ResponderProof, InitiatorProof, SelectionConfirmation, MergeGrantDelivery]"

fun handshake_kind_id :: "handshake_kind \<Rightarrow> u16" where
  "handshake_kind_id InitiatorHello = 0x0001"
| "handshake_kind_id ResponderHello = 0x0002"
| "handshake_kind_id ResponderProof = 0x0003"
| "handshake_kind_id InitiatorProof = 0x0004"
| "handshake_kind_id SelectionConfirmation = 0x0005"
| "handshake_kind_id MergeGrantDelivery = 0x0006"

fun handshake_position :: "handshake_kind \<Rightarrow> u8" where
  "handshake_position InitiatorHello = 1"
| "handshake_position ResponderHello = 2"
| "handshake_position ResponderProof = 3"
| "handshake_position InitiatorProof = 4"
| "handshake_position SelectionConfirmation = 5"
| "handshake_position MergeGrantDelivery = 6"

fun handshake_arity :: "handshake_kind \<Rightarrow> u8" where
  "handshake_arity InitiatorHello = 7"
| "handshake_arity ResponderHello = 5"
| "handshake_arity ResponderProof = 3"
| "handshake_arity InitiatorProof = 3"
| "handshake_arity SelectionConfirmation = 2"
| "handshake_arity MergeGrantDelivery = 2"

datatype packet_kind = Open | Chunk | End | Ack

definition packet_kinds :: "packet_kind list" where
  "packet_kinds = [Open, Chunk, End, Ack]"

fun packet_kind_id :: "packet_kind \<Rightarrow> u16" where
  "packet_kind_id Open = 0x0010"
| "packet_kind_id Chunk = 0x0011"
| "packet_kind_id End = 0x0012"
| "packet_kind_id Ack = 0x0013"

definition lookup_handshake :: "u16 \<Rightarrow> u16 \<Rightarrow> handshake_kind option" where
  "lookup_handshake s k = (if s \<noteq> BASE_SCHEMA_ID then None else find (\<lambda>x. handshake_kind_id x = k) handshake_kinds)"

definition lookup_packet :: "u16 \<Rightarrow> u16 \<Rightarrow> packet_kind option" where
  "lookup_packet s k = (if s \<noteq> BASE_SCHEMA_ID then None else find (\<lambda>x. packet_kind_id x = k) packet_kinds)"

definition is_declared :: "u16 \<Rightarrow> u16 \<Rightarrow> bool" where
  "is_declared s k \<longleftrightarrow> lookup_handshake s k \<noteq> None \<or> lookup_packet s k \<noteq> None"

record frame_rules =
  allowed_flags :: u16
  message_limit :: u32
  receive_limit :: u32

definition CONTROL_CBOR_LIMITS :: cbor_limits where
  "CONTROL_CBOR_LIMITS = \<lparr>max_depth = 16, max_collection_items = 1024, max_body_len = MAX_BODY_BYTES\<rparr>"

definition connection_frame_rules :: "frame_rules result" where
  "connection_frame_rules =
    rbind (or_invalid (if max_body_len CONTROL_CBOR_LIMITS < 2 ^ 32
        then Some (of_nat (max_body_len CONTROL_CBOR_LIMITS)) else None) ''handshake frame limit'')
      (\<lambda>limit. Inr \<lparr>allowed_flags = 0, message_limit = limit, receive_limit = limit\<rparr>)"

subsection \<open>The prelude is a codec\<close>

lemma be_bytes_2: "be_bytes 2 v = [of_nat (v div 256 mod 256), of_nat (v mod 256)]"
  by (simp add: numeral_2_eq_2)

lemma be_bytes_4: "be_bytes 4 v = [of_nat (v div 256 div 256 div 256 mod 256), of_nat (v div 256 div 256 mod 256),
    of_nat (v div 256 mod 256), of_nat (v mod 256)]"
proof -
  have four: "(4::nat) = Suc (Suc (Suc (Suc 0)))" by simp
  show ?thesis unfolding four by (simp only: be_bytes.simps append_Nil append_Cons)
qed

lemma of_nat_be_u16: "of_nat (of_be_bytes (be_bytes 2 (unat x))) = (x :: u16)"
proof -
  have "unat x < 256 ^ 2" using unsigned_less [of x] by simp
  then show ?thesis by (simp only: of_be_bytes_be_bytes) simp
qed

lemma of_nat_be_u32: "of_nat (of_be_bytes (be_bytes 4 (unat x))) = (x :: u32)"
proof -
  have "unat x < 256 ^ 4" using unsigned_less [of x] by simp
  then show ?thesis by (simp only: of_be_bytes_be_bytes) simp
qed

lemma be_of_nat_u16: "length b = 2 \<Longrightarrow> be_bytes 2 (unat (of_nat (of_be_bytes b) :: u16)) = b"
  using of_be_bytes_less [of b] be_bytes_of_be_bytes [of b] by (simp add: unat_of_nat)

lemma be_of_nat_u32: "length b = 4 \<Longrightarrow> be_bytes 4 (unat (of_nat (of_be_bytes b) :: u32)) = b"
  using of_be_bytes_less [of b] be_bytes_of_be_bytes [of b] by (simp add: unat_of_nat)

lemma length_encode_prelude [simp]: "length (encode_prelude p) = PRELUDE_LEN"
  by (simp add: encode_prelude_def MAGIC_BYTES_def ascii_def PRELUDE_LEN_def)

lemma decode_prelude_encode: "decode_prelude (encode_prelude p @ rest) = Inr p"
proof -
  obtain s1 s2 where s: "be_bytes 2 (unat (schema_id p)) = [s1, s2]" by (simp add: be_bytes_2)
  obtain k1 k2 where k: "be_bytes 2 (unat (kind_id p)) = [k1, k2]" by (simp add: be_bytes_2)
  obtain f1 f2 where f: "be_bytes 2 (unat (flags p)) = [f1, f2]" by (simp add: be_bytes_2)
  obtain l1 l2 l3 l4 where l: "be_bytes 4 (unat (body_len p)) = [l1, l2, l3, l4]" by (simp add: be_bytes_4)
  have "decode_prelude (encode_prelude p @ rest) = Inr \<lparr>schema_id = of_nat (of_be_bytes [s1, s2]),
      kind_id = of_nat (of_be_bytes [k1, k2]), flags = of_nat (of_be_bytes [f1, f2]),
      body_len = of_nat (of_be_bytes [l1, l2, l3, l4])\<rparr>"
    by (simp add: decode_prelude_def encode_prelude_def s k f l MAGIC_BYTES_def ascii_def PRELUDE_LEN_def)
  then show ?thesis
    using of_nat_be_u16 [of "schema_id p"] of_nat_be_u16 [of "kind_id p"] of_nat_be_u16 [of "flags p"]
      of_nat_be_u32 [of "body_len p"] by (simp add: s k f l)
qed

lemma list_16:
  assumes "16 \<le> length b"
  obtains b0 b1 b2 b3 b4 b5 b6 b7 b8 b9 b10 b11 b12 b13 b14 b15 r
  where "b = b0 # b1 # b2 # b3 # b4 # b5 # b6 # b7 # b8 # b9 # b10 # b11 # b12 # b13 # b14 # b15 # r"
proof -
  have sixteen: "(16::nat) = Suc (Suc (Suc (Suc (Suc (Suc (Suc (Suc (Suc (Suc (Suc (Suc (Suc (Suc (Suc (Suc (0))))))))))))))))" by simp
  from assms show thesis unfolding sixteen Suc_le_length_iff
    by (elim exE conjE) (rule that, simp only:)
qed

lemma encode_prelude_decode:
  assumes "decode_prelude b = Inr p"
  shows "b = encode_prelude p @ drop PRELUDE_LEN b"
proof -
  from assms have len: "16 \<le> length b" by (auto simp: decode_prelude_def PRELUDE_LEN_def split: if_splits)
  obtain b0 b1 b2 b3 b4 b5 b6 b7 b8 b9 b10 b11 b12 b13 b14 b15 r
    where b: "b = b0 # b1 # b2 # b3 # b4 # b5 # b6 # b7 # b8 # b9 # b10 # b11 # b12 # b13 # b14 # b15 # r"
    using list_16 [OF len] .
  from assms b have "[b0, b1, b2, b3] = MAGIC_BYTES" "b10 = 0" "b11 = 0"
    "p = \<lparr>schema_id = of_nat (of_be_bytes [b4, b5]), kind_id = of_nat (of_be_bytes [b6, b7]),
       flags = of_nat (of_be_bytes [b8, b9]), body_len = of_nat (of_be_bytes [b12, b13, b14, b15])\<rparr>"
    by (auto simp: decode_prelude_def split: if_splits)
  then show ?thesis
    using be_of_nat_u16 [of "[b4, b5]"] be_of_nat_u16 [of "[b6, b7]"] be_of_nat_u16 [of "[b8, b9]"]
      be_of_nat_u32 [of "[b12, b13, b14, b15]"]
    by (simp add: encode_prelude_def PRELUDE_LEN_def b)
qed

subsection \<open>Frames\<close>

text \<open>The frames a receiver with given rules admits.\<close>

definition admissible :: "u16 \<Rightarrow> u32 \<Rightarrow> u32 \<Rightarrow> (u16 \<Rightarrow> u16 \<Rightarrow> bool) \<Rightarrow> prelude \<times> bytes \<Rightarrow> bool" where
  "admissible allowed limit rlimit is_decl = (\<lambda>(p, body). is_decl (schema_id p) (kind_id p) \<and>
     flags p AND NOT allowed = 0 \<and> body_len p \<le> limit \<and> body_len p \<le> rlimit \<and> unat (body_len p) = length body)"

abbreviation frame :: "prelude \<times> bytes \<Rightarrow> bytes" where
  "frame \<equiv> \<lambda>(p, body). encode_prelude p @ body"

lemma unat_u32_less: "unat (x :: u32) < 2 ^ 32"
  using unsigned_less [of x] by simp

lemma split_message_iff:
  "split_message m allowed limit rlimit is_decl = Inr (p, body) \<longleftrightarrow>
     admissible allowed limit rlimit is_decl (p, body) \<and> m = frame (p, body)"
proof
  assume s: "split_message m allowed limit rlimit is_decl = Inr (p, body)"
  then have d: "decode_prelude m = Inr p" and body: "body = drop PRELUDE_LEN m"
    and c: "check_frame p allowed limit is_decl = Inr ()" and r: "\<not> rlimit < body_len p"
    and len: "length m = PRELUDE_LEN + unat (body_len p)"
    by (auto simp: split_message_def usize_add_def split: if_splits)
  from encode_prelude_decode [OF d] body have m: "m = encode_prelude p @ body" by simp
  then have "length body = unat (body_len p)" using len by (metis add_left_cancel length_append length_encode_prelude)
  with c r m show "admissible allowed limit rlimit is_decl (p, body) \<and> m = frame (p, body)"
    by (auto simp: admissible_def check_frame_def split: if_splits)
next
  assume a: "admissible allowed limit rlimit is_decl (p, body) \<and> m = frame (p, body)"
  then have m: "m = encode_prelude p @ body" and len: "unat (body_len p) = length body" by (auto simp: admissible_def)
  have "length body < 2 ^ 32" using unat_u32_less [of "body_len p"] len by simp
  with a m len show "split_message m allowed limit rlimit is_decl = Inr (p, body)"
    by (simp add: split_message_def decode_prelude_encode check_frame_def admissible_def usize_add_def PRELUDE_LEN_def not_less)
qed

interpretation framing: canonical_codec frame "\<lambda>m. split_message m allowed limit rlimit is_decl"
  "admissible allowed limit rlimit is_decl"
proof
  show "split_message (frame x) allowed limit rlimit is_decl = Inr x"
    if "admissible allowed limit rlimit is_decl x" for x
    using that split_message_iff [of "frame x" allowed limit rlimit is_decl "fst x" "snd x"] by simp
  show "admissible allowed limit rlimit is_decl x \<and> frame x = m"
    if "split_message m allowed limit rlimit is_decl = Inr x" for m x
    using that split_message_iff [of m allowed limit rlimit is_decl "fst x" "snd x"] by simp
qed

text \<open>
  C20: Splitting a received frame is exact and unambiguous: it succeeds precisely on the bytes of a
  prelude followed by a body whose declared kind, flags and length pass the local rules, and it
  returns that prelude and that body; so two different frames never split alike, and every error is
  an input error.
\<close>

theorem split_message_exact:
  "(split_message m allowed limit rlimit is_decl = Inr (p, body) \<longleftrightarrow>
      m = encode_prelude p @ body \<and> is_decl (schema_id p) (kind_id p) \<and> flags p AND NOT allowed = 0 \<and>
      body_len p \<le> limit \<and> body_len p \<le> rlimit \<and> unat (body_len p) = length body) \<and>
   (case split_message m allowed limit rlimit is_decl of Inl e \<Rightarrow> err_kind e = InvalidInput | Inr _ \<Rightarrow> True)"
proof -
  have "split_message m allowed limit rlimit is_decl = Inr (p, body) \<longleftrightarrow>
      admissible allowed limit rlimit is_decl (p, body) \<and> frame (p, body) = m"
    by (rule framing.dec_iff)
  moreover have "err_kind e = InvalidInput" if "split_message m allowed limit rlimit is_decl = Inl e" for e
    using that by (auto simp: split_message_def decode_prelude_def check_frame_def rbind_eq_Inl invalid_input_def
        usize_add_def split: if_splits)
  ultimately show ?thesis by (auto simp: admissible_def split: sum.splits)
qed

lemma find_found: "(\<exists>y. find P xs = Some y) \<longleftrightarrow> (\<exists>x\<in>set xs. P x)"
  by (induction xs) auto

text \<open>
  C35: The kind registry is closed and unambiguous: each published kind resolves to itself under the
  base schema, no identifier resolves to both a handshake and a packet kind, and exactly the ten
  published identifiers of the base schema are declared.
\<close>

theorem kind_registry_closed:
  "lookup_handshake BASE_SCHEMA_ID (handshake_kind_id h) = Some h \<and>
   lookup_packet BASE_SCHEMA_ID (packet_kind_id q) = Some q \<and>
   (lookup_handshake s k = None \<or> lookup_packet s k = None) \<and>
   (lookup_handshake s k = Some h \<longleftrightarrow> s = BASE_SCHEMA_ID \<and> k = handshake_kind_id h) \<and>
   (lookup_packet s k = Some q \<longleftrightarrow> s = BASE_SCHEMA_ID \<and> k = packet_kind_id q) \<and>
   (is_declared s k \<longleftrightarrow> s = BASE_SCHEMA_ID \<and>
      k \<in> {0x0001, 0x0002, 0x0003, 0x0004, 0x0005, 0x0006, 0x0010, 0x0011, 0x0012, 0x0013})"
proof -
  have h: "lookup_handshake BASE_SCHEMA_ID (handshake_kind_id h) = Some h" for h
    by (cases h) (simp_all add: lookup_handshake_def handshake_kinds_def)
  have q: "lookup_packet BASE_SCHEMA_ID (packet_kind_id q) = Some q" for q
    by (cases q) (simp_all add: lookup_packet_def packet_kinds_def)
  have hS: "lookup_handshake s k = Some h \<Longrightarrow> s = BASE_SCHEMA_ID \<and> k = handshake_kind_id h" for h
    by (auto simp: lookup_handshake_def find_Some_iff split: if_splits)
  have qS: "lookup_packet s k = Some q \<Longrightarrow> s = BASE_SCHEMA_ID \<and> k = packet_kind_id q" for q
    by (auto simp: lookup_packet_def find_Some_iff split: if_splits)
  have hN: "lookup_handshake s k \<noteq> None \<longleftrightarrow> s = BASE_SCHEMA_ID \<and> k \<in> handshake_kind_id ` set handshake_kinds"
    using find_found [of "\<lambda>x. handshake_kind_id x = k" handshake_kinds] by (auto simp: lookup_handshake_def)
  have qN: "lookup_packet s k \<noteq> None \<longleftrightarrow> s = BASE_SCHEMA_ID \<and> k \<in> packet_kind_id ` set packet_kinds"
    using find_found [of "\<lambda>x. packet_kind_id x = k" packet_kinds] by (auto simp: lookup_packet_def)
  have dis: "lookup_handshake s k = None \<or> lookup_packet s k = None"
    using hN qN by (auto simp: handshake_kinds_def packet_kinds_def)
  have "is_declared s k \<longleftrightarrow> s = BASE_SCHEMA_ID \<and>
      k \<in> {0x0001, 0x0002, 0x0003, 0x0004, 0x0005, 0x0006, 0x0010, 0x0011, 0x0012, 0x0013}"
    unfolding is_declared_def hN qN by (auto simp: handshake_kinds_def packet_kinds_def)
  moreover have "lookup_handshake s k = Some h \<longleftrightarrow> s = BASE_SCHEMA_ID \<and> k = handshake_kind_id h"
    using hS [of h] h [of h] by auto
  moreover have "lookup_packet s k = Some q \<longleftrightarrow> s = BASE_SCHEMA_ID \<and> k = packet_kind_id q"
    using qS [of q] q [of q] by auto
  ultimately show ?thesis using h q dis by simp
qed

end
