(* ===== verification/Reconcile_Wire.thy ===== *)
theory Reconcile_Wire
  imports Cbor_Parse Wire_Envelope
begin

text \<open>
  The reconciliation messages of \<^verbatim>\<open>src/reconcile/wire.rs\<close>, the lane codes of
  \<^verbatim>\<open>src/reconcile/lane.rs\<close> and the row digest of \<^verbatim>\<open>src/reconcile/digest.rs\<close>.

  The wire structs are encoded and decoded by code that \<^verbatim>\<open>minicbor\<close> derives from their
  declarations. It is the parameter \<open>wc\<close>: the buffers written for a struct and the decoder of each
  struct type. \<open>wire_codec_ok\<close> states what the derivation documents: a struct is the CBOR array of
  its fields in index order. SHA-256 is the parameter \<open>sha256\<close>.
\<close>

subsection \<open>Lanes\<close>

datatype lane_id = Descriptors | Trust | Resources | Tombstones

text \<open>The registry rows in variant order: the lane a row's policy names and its wire code.\<close>

definition LANES :: "(lane_id \<times> u8) list" where
  "LANES = [(Descriptors, 1), (Trust, 2), (Resources, 3), (Tombstones, 4)]"

fun lane_index :: "lane_id \<Rightarrow> nat" where
  "lane_index Descriptors = 0" | "lane_index Trust = 1" | "lane_index Resources = 2" | "lane_index Tombstones = 3"

definition lane_code :: "lane_id \<Rightarrow> u8" where
  "lane_code l = snd (LANES ! lane_index l)"

definition lane_from_code :: "u8 \<Rightarrow> lane_id option" where
  "lane_from_code c = map_option fst (find (\<lambda>e. snd e = c) LANES)"

datatype tombstone_kind = Leave | Cleanup | Revocation | Checkpoint

fun tombstone_prefix :: "tombstone_kind \<Rightarrow> u8" where
  "tombstone_prefix Leave = 1" | "tombstone_prefix Cleanup = 2"
| "tombstone_prefix Revocation = 3" | "tombstone_prefix Checkpoint = 4"

definition tombstone_from_prefix :: "u8 \<Rightarrow> tombstone_kind option" where
  "tombstone_from_prefix p = (if p = 1 then Some Leave else if p = 2 then Some Cleanup
     else if p = 3 then Some Revocation else if p = 4 then Some Checkpoint else None)"

definition tombstone_row_key :: "tombstone_kind \<Rightarrow> bytes \<Rightarrow> bytes" where
  "tombstone_row_key k subject = tombstone_prefix k # subject"

subsection \<open>Messages\<close>

definition MAX_RANGES_PER_MESSAGE :: nat where "MAX_RANGES_PER_MESSAGE = 32"
definition MAX_ROWS_PER_MESSAGE :: nat where "MAX_ROWS_PER_MESSAGE = 64"

definition RECONCILE_CBOR_LIMITS :: cbor_limits where
  "RECONCILE_CBOR_LIMITS = \<lparr>max_depth = 8, max_collection_items = 1024, max_body_len = MAX_BODY_BYTES\<rparr>"

definition KIND_ROOT :: u8 where "KIND_ROOT = 1"
definition KIND_HINT :: u8 where "KIND_HINT = 2"
definition KIND_OFFER :: u8 where "KIND_OFFER = 3"
definition KIND_NEED :: u8 where "KIND_NEED = 4"
definition KIND_ROWS :: u8 where "KIND_ROWS = 5"
definition KIND_DONE :: u8 where "KIND_DONE = 6"

lemmas kind_codes = KIND_ROOT_def KIND_HINT_def KIND_OFFER_def KIND_NEED_def KIND_ROWS_def KIND_DONE_def

record digest_range =
  dr_start :: u64
  dr_end :: u64

record range_fingerprint =
  rf_start :: u64
  rf_end :: u64
  rf_count :: u64
  rf_xor :: u64

record row =
  row_key :: bytes
  row_content :: bytes

datatype message =
    Root lane_id u64 u64
  | Hint lane_id "range_fingerprint list" "row list"
  | Offer lane_id "range_fingerprint list"
  | Need lane_id "digest_range list"
  | Rows lane_id "row list"
  | Done lane_id u64

fun message_lane :: "message \<Rightarrow> lane_id" where
  "message_lane (Root l _ _) = l" | "message_lane (Hint l _ _) = l" | "message_lane (Offer l _) = l"
| "message_lane (Need l _) = l" | "message_lane (Rows l _) = l" | "message_lane (Done l _) = l"

subsection \<open>Wire structs\<close>

record range_wire =
  rw_start :: u64
  rw_end :: u64
  rw_count :: u64
  rw_xor :: u64

record bound_wire =
  bw_start :: u64
  bw_end :: u64

record row_wire =
  ww_key :: bytes
  ww_content :: bytes

text \<open>The six message structs; the first two fields of each are the kind and the lane code.\<close>

datatype wire =
    RootWire u8 u8 u64 u64
  | HintWire u8 u8 "range_wire list" "row_wire list"
  | OfferWire u8 u8 "range_wire list"
  | NeedWire u8 u8 "bound_wire list"
  | RowsWire u8 u8 "row_wire list"
  | DoneWire u8 u8 u64

datatype shape = Root_shape | Hint_shape | Offer_shape | Need_shape | Rows_shape | Done_shape

fun shape_of :: "wire \<Rightarrow> shape" where
  "shape_of (RootWire _ _ _ _) = Root_shape" | "shape_of (HintWire _ _ _ _) = Hint_shape"
| "shape_of (OfferWire _ _ _) = Offer_shape" | "shape_of (NeedWire _ _ _) = Need_shape"
| "shape_of (RowsWire _ _ _) = Rows_shape" | "shape_of (DoneWire _ _ _) = Done_shape"

record wire_codec =
  wc_encode :: "wire \<Rightarrow> bytes list"
  wc_decode :: "shape \<Rightarrow> bytes \<Rightarrow> (wire \<times> nat) option"
  wc_u64 :: "bytes \<Rightarrow> nat \<Rightarrow> (nat \<times> nat) option"

subsection \<open>Shape checks\<close>

definition check_ranges :: "range_fingerprint list \<Rightarrow> unit result" where
  "check_ranges rs = (if MAX_RANGES_PER_MESSAGE < length rs then Inl (invalid_input ''reconcile ranges bound'')
     else if list_ex (\<lambda>r. rf_end r < rf_start r) rs then Inl (invalid_input ''reconcile range order'') else Inr ())"

definition check_bounds :: "digest_range list \<Rightarrow> unit result" where
  "check_bounds bs = (if MAX_RANGES_PER_MESSAGE < length bs then Inl (invalid_input ''reconcile bounds bound'')
     else if list_ex (\<lambda>r. dr_end r < dr_start r) bs then Inl (invalid_input ''reconcile range order'') else Inr ())"

definition ranges_to_wire :: "range_fingerprint list \<Rightarrow> range_wire list result" where
  "ranges_to_wire rs = rbind (check_ranges rs) (\<lambda>_. Inr (map (\<lambda>r.
     \<lparr>rw_start = rf_start r, rw_end = rf_end r, rw_count = rf_count r, rw_xor = rf_xor r\<rparr>) rs))"

definition bounds_to_wire :: "digest_range list \<Rightarrow> bound_wire list result" where
  "bounds_to_wire bs = rbind (check_bounds bs) (\<lambda>_. Inr (map (\<lambda>r. \<lparr>bw_start = dr_start r, bw_end = dr_end r\<rparr>) bs))"

definition rows_to_wire :: "row list \<Rightarrow> row_wire list result" where
  "rows_to_wire rs = (if MAX_ROWS_PER_MESSAGE < length rs then Inl (invalid_input ''reconcile rows bound'')
     else Inr (map (\<lambda>r. \<lparr>ww_key = row_key r, ww_content = row_content r\<rparr>) rs))"

definition rows_from_wire :: "row_wire list \<Rightarrow> row list result" where
  "rows_from_wire rs = (if MAX_ROWS_PER_MESSAGE < length rs then Inl (invalid_input ''reconcile rows bound'')
     else Inr (map (\<lambda>r. \<lparr>row_key = ww_key r, row_content = ww_content r\<rparr>) rs))"

definition ranges_from_wire :: "range_wire list \<Rightarrow> range_fingerprint list result" where
  "ranges_from_wire ws = (let rs = map (\<lambda>r.
     \<lparr>rf_start = rw_start r, rf_end = rw_end r, rf_count = rw_count r, rf_xor = rw_xor r\<rparr>) ws in
     rbind (check_ranges rs) (\<lambda>_. Inr rs))"

definition bounds_from_wire :: "bound_wire list \<Rightarrow> digest_range list result" where
  "bounds_from_wire ws = (let bs = map (\<lambda>r. \<lparr>dr_start = bw_start r, dr_end = bw_end r\<rparr>) ws in
     rbind (check_bounds bs) (\<lambda>_. Inr bs))"

definition lane_from :: "u8 \<Rightarrow> lane_id result" where
  "lane_from c = or_invalid (lane_from_code c) ''reconcile lane''"

subsection \<open>Encoding and decoding\<close>

text \<open>The conversion to a wire struct, then the canonical encoder.\<close>

definition message_to_wire :: "message \<Rightarrow> wire result" where
  "message_to_wire m = (let code = lane_code (message_lane m) in case m of
     Root _ count x \<Rightarrow> Inr (RootWire KIND_ROOT code count x)
   | Hint _ ranges rows \<Rightarrow> rbind (ranges_to_wire ranges) (\<lambda>rs. rbind (rows_to_wire rows) (\<lambda>ws.
       Inr (HintWire KIND_HINT code rs ws)))
   | Offer _ ranges \<Rightarrow> rbind (ranges_to_wire ranges) (\<lambda>rs. Inr (OfferWire KIND_OFFER code rs))
   | Need _ bounds \<Rightarrow> rbind (bounds_to_wire bounds) (\<lambda>bs. Inr (NeedWire KIND_NEED code bs))
   | Rows _ rows \<Rightarrow> rbind (rows_to_wire rows) (\<lambda>ws. Inr (RowsWire KIND_ROWS code ws))
   | Done _ token \<Rightarrow> Inr (DoneWire KIND_DONE code token))"

definition encode_message :: "minicbor \<Rightarrow> wire_codec \<Rightarrow> message \<Rightarrow> bytes result option" where
  "encode_message md wc m = (case message_to_wire m of
     Inl e \<Rightarrow> Some (Inl e)
   | Inr w \<Rightarrow> encode_canonical md (wc_encode wc) w RECONCILE_CBOR_LIMITS)"

definition probe_kind :: "minicbor \<Rightarrow> wire_codec \<Rightarrow> bytes \<Rightarrow> u8 result" where
  "probe_kind md wc b =
    rbind (or_invalid (md_array md b 0) ''reconcile message array'') (\<lambda>(arity, pos).
    rbind (or_invalid arity ''reconcile indefinite array'') (\<lambda>_.
    rbind (or_invalid (wc_u64 wc b pos) ''reconcile message kind'') (\<lambda>(kind, _).
    if kind < 2 ^ 8 then Inr (of_nat kind) else Inl (invalid_input ''reconcile message kind''))))"

text \<open>The strict decode of one struct type and the checks on its fields.\<close>

definition strict_wire :: "minicbor \<Rightarrow> wire_codec \<Rightarrow> shape \<Rightarrow> bytes \<Rightarrow> string \<Rightarrow> wire result option" where
  "strict_wire md wc sh b c = decode_canonical_strict md (wc_encode wc) (wc_decode wc sh) b RECONCILE_CBOR_LIMITS c"

fun wire_to_message :: "wire \<Rightarrow> message result" where
  "wire_to_message (RootWire _ l count x) = rbind (lane_from l) (\<lambda>lane. Inr (Root lane count x))"
| "wire_to_message (HintWire _ l rs ws) = rbind (ranges_from_wire rs) (\<lambda>ranges. rbind (rows_from_wire ws) (\<lambda>rows.
     rbind (lane_from l) (\<lambda>lane. Inr (Hint lane ranges rows))))"
| "wire_to_message (OfferWire _ l rs) = rbind (ranges_from_wire rs) (\<lambda>ranges. rbind (lane_from l) (\<lambda>lane. Inr (Offer lane ranges)))"
| "wire_to_message (NeedWire _ l bs) = rbind (bounds_from_wire bs) (\<lambda>bounds. rbind (lane_from l) (\<lambda>lane. Inr (Need lane bounds)))"
| "wire_to_message (RowsWire _ l ws) = rbind (rows_from_wire ws) (\<lambda>rows. rbind (lane_from l) (\<lambda>lane. Inr (Rows lane rows)))"
| "wire_to_message (DoneWire _ l token) = rbind (lane_from l) (\<lambda>lane. Inr (Done lane token))"

text \<open>The dispatch table of the kind codes: the struct type and the context of its strict decode.\<close>

definition kind_shape :: "u8 \<Rightarrow> (shape \<times> string) option" where
  "kind_shape k =
    (if k = KIND_ROOT then Some (Root_shape, ''reconcile root canonical'')
     else if k = KIND_HINT then Some (Hint_shape, ''reconcile hint canonical'')
     else if k = KIND_OFFER then Some (Offer_shape, ''reconcile offer canonical'')
     else if k = KIND_NEED then Some (Need_shape, ''reconcile need canonical'')
     else if k = KIND_ROWS then Some (Rows_shape, ''reconcile rows canonical'')
     else if k = KIND_DONE then Some (Done_shape, ''reconcile done canonical'') else None)"

definition decode_message :: "minicbor \<Rightarrow> wire_codec \<Rightarrow> bytes \<Rightarrow> message result option" where
  "decode_message md wc b = (case probe_kind md wc b of
     Inl e \<Rightarrow> Some (Inl e)
   | Inr k \<Rightarrow> (case kind_shape k of
       None \<Rightarrow> Some (Inl (invalid_input ''reconcile message kind''))
     | Some (sh, c) \<Rightarrow> map_option (\<lambda>r. rbind r wire_to_message) (strict_wire md wc sh b c)))"

subsection \<open>Row sizes and row digests\<close>

definition bstr_header_len :: "nat \<Rightarrow> nat" where
  "bstr_header_len len = (if len < 24 then 1 else if len < 0x100 then 2 else if len < 0x10000 then 3
     else if len < 0x100000000 then 5 else 9)"

definition single_row_message_len :: "nat \<Rightarrow> nat \<Rightarrow> nat" where
  "single_row_message_len k c = 5 + bstr_header_len k + k + bstr_header_len c + c"

definition row_fits_message :: "nat \<Rightarrow> nat \<Rightarrow> bool" where
  "row_fits_message k c \<longleftrightarrow> single_row_message_len k c \<le> MAX_BODY_BYTES"

definition PREIMAGE_LIMITS :: cbor_limits where
  "PREIMAGE_LIMITS = \<lparr>max_depth = 4, max_collection_items = 4, max_body_len = MAX_BODY_BYTES\<rparr>"

text \<open>
  The preimage struct is the array of key and content; \<open>encP\<close> is its derived encoder.
\<close>

definition preimage_item :: "bytes \<times> bytes \<Rightarrow> cbor_item" where
  "preimage_item p = CArray [CBytes (fst p), CBytes (snd p)]"

definition item_digest :: "minicbor \<Rightarrow> (bytes \<times> bytes \<Rightarrow> bytes list) \<Rightarrow> (bytes \<Rightarrow> bytes) \<Rightarrow> bytes \<Rightarrow> bytes \<Rightarrow> u64 result option" where
  "item_digest md encP sha256 key content =
    map_option (\<lambda>r. rbind r (\<lambda>preimage. Inr (of_nat (of_be_bytes (take 8 (sha256 preimage))))))
      (encode_canonical md encP (key, content) PREIMAGE_LIMITS)"

subsection \<open>The items of the wire structs\<close>

abbreviation uint_item :: "'a::len word \<Rightarrow> cbor_item" where
  "uint_item x \<equiv> CUint (unat x)"

definition range_item :: "range_wire \<Rightarrow> cbor_item" where
  "range_item r = CArray [uint_item (rw_start r), uint_item (rw_end r), uint_item (rw_count r), uint_item (rw_xor r)]"

definition bound_item :: "bound_wire \<Rightarrow> cbor_item" where
  "bound_item r = CArray [uint_item (bw_start r), uint_item (bw_end r)]"

definition row_item :: "row_wire \<Rightarrow> cbor_item" where
  "row_item r = CArray [CBytes (ww_key r), CBytes (ww_content r)]"

fun wire_item :: "wire \<Rightarrow> cbor_item" where
  "wire_item (RootWire k l c x) = CArray [uint_item k, uint_item l, uint_item c, uint_item x]"
| "wire_item (HintWire k l rs ws) = CArray [uint_item k, uint_item l, CArray (map range_item rs), CArray (map row_item ws)]"
| "wire_item (OfferWire k l rs) = CArray [uint_item k, uint_item l, CArray (map range_item rs)]"
| "wire_item (NeedWire k l bs) = CArray [uint_item k, uint_item l, CArray (map bound_item bs)]"
| "wire_item (RowsWire k l ws) = CArray [uint_item k, uint_item l, CArray (map row_item ws)]"
| "wire_item (DoneWire k l t) = CArray [uint_item k, uint_item l, uint_item t]"

fun wire_kind :: "wire \<Rightarrow> u8" where
  "wire_kind (RootWire k _ _ _) = k" | "wire_kind (HintWire k _ _ _) = k" | "wire_kind (OfferWire k _ _) = k"
| "wire_kind (NeedWire k _ _) = k" | "wire_kind (RowsWire k _ _) = k" | "wire_kind (DoneWire k _ _) = k"

lemmas struct_items = range_item_def bound_item_def row_item_def

text \<open>
  The documented behaviour of the derived codecs and of \<^verbatim>\<open>Decoder::u64\<close>, which reads one
  unsigned integer header.
\<close>

definition wire_codec_ok :: "wire_codec \<Rightarrow> bool" where
  "wire_codec_ok wc \<longleftrightarrow>
    (\<forall>w. derived_codec (wc_encode wc) (wc_decode wc (shape_of w)) wire_item w) \<and>
    (\<forall>sh b w p. wc_decode wc sh b = Some (w, p) \<longrightarrow> shape_of w = sh) \<and>
    (\<forall>b p. p < length b \<longrightarrow> class_of_initial (b ! p) = KInt \<longrightarrow> major (b ! p) = 0 \<longrightarrow>
       wc_u64 wc b p = map_option (\<lambda>(n, h). (n, p + h)) (cbor_head b p))"

lemma unat_u8_wide [simp]: "unat (x :: u8) < 2 ^ 64" "unat (x :: u8) < 18446744073709551616" "unat (x :: u8) < 256"
proof -
  have *: "unat x < 256" using unsigned_less [of x] by simp
  show "unat x < 2 ^ 64" by (rule less_trans [OF *]) simp
  show "unat x < 18446744073709551616" by (rule less_trans [OF *]) simp
  show "unat x < 256" by (rule *)
qed

lemma unat_u64_less [simp]: "unat (x :: u64) < 2 ^ 64" "unat (x :: u64) < 18446744073709551616"
proof -
  have "unat x < 2 ^ 64" using unsigned_less [of x] by simp
  then show "unat x < 2 ^ 64" "unat x < 18446744073709551616" by simp_all
qed

lemma wire_item_wf: "item_wf (wire_item w)"
  by (cases w) (auto simp: struct_items)

subsection \<open>A concrete codec\<close>

fun item_num :: "cbor_item \<Rightarrow> nat" where
  "item_num (CUint n) = n" | "item_num _ = 0"

fun item_elems :: "cbor_item \<Rightarrow> cbor_item list" where
  "item_elems (CArray vs) = vs" | "item_elems _ = []"

fun item_bytes :: "cbor_item \<Rightarrow> bytes" where
  "item_bytes (CBytes bs) = bs" | "item_bytes _ = []"

abbreviation item_word :: "cbor_item \<Rightarrow> 'a::len word" where
  "item_word v \<equiv> of_nat (item_num v)"

definition item_range :: "cbor_item \<Rightarrow> range_wire" where
  "item_range v = (let vs = item_elems v in \<lparr>rw_start = item_word (vs ! 0), rw_end = item_word (vs ! 1),
     rw_count = item_word (vs ! 2), rw_xor = item_word (vs ! 3)\<rparr>)"

definition item_bound :: "cbor_item \<Rightarrow> bound_wire" where
  "item_bound v = (let vs = item_elems v in \<lparr>bw_start = item_word (vs ! 0), bw_end = item_word (vs ! 1)\<rparr>)"

definition item_row :: "cbor_item \<Rightarrow> row_wire" where
  "item_row v = (let vs = item_elems v in \<lparr>ww_key = item_bytes (vs ! 0), ww_content = item_bytes (vs ! 1)\<rparr>)"

definition item_wire :: "shape \<Rightarrow> cbor_item \<Rightarrow> wire" where
  "item_wire sh v = (let vs = item_elems v; k = item_word (vs ! 0); l = item_word (vs ! 1) in case sh of
     Root_shape \<Rightarrow> RootWire k l (item_word (vs ! 2)) (item_word (vs ! 3))
   | Hint_shape \<Rightarrow> HintWire k l (map item_range (item_elems (vs ! 2))) (map item_row (item_elems (vs ! 3)))
   | Offer_shape \<Rightarrow> OfferWire k l (map item_range (item_elems (vs ! 2)))
   | Need_shape \<Rightarrow> NeedWire k l (map item_bound (item_elems (vs ! 2)))
   | Rows_shape \<Rightarrow> RowsWire k l (map item_row (item_elems (vs ! 2)))
   | Done_shape \<Rightarrow> DoneWire k l (item_word (vs ! 2)))"

definition plain_codec :: wire_codec where
  "plain_codec = \<lparr>
     wc_encode = \<lambda>w. [enc_item (wire_item w)],
     wc_decode = \<lambda>sh b. (case parse_item 4 b of None \<Rightarrow> None
       | Some (v, r) \<Rightarrow> Some (item_wire sh v, length b - length r)),
     wc_u64 = \<lambda>b p. map_option (\<lambda>(n, h). (n, p + h)) (cbor_head b p)\<rparr>"

lemma struct_items_inverse: "item_range (range_item r) = r" "item_bound (bound_item b) = b" "item_row (row_item w) = w"
  by (simp_all add: struct_items item_range_def item_bound_def item_row_def)

lemma item_wire_item: "item_wire (shape_of w) (wire_item w) = w"
  by (cases w) (simp_all add: item_wire_def struct_items_inverse comp_def)

lemma item_wire_shape: "shape_of (item_wire sh v) = sh"
  by (cases sh) (simp_all add: item_wire_def Let_def)

lemma wire_item_canonical:
  assumes "length (enc_item (wire_item w)) < 2 ^ 64"
  shows "canonical open_limits 3 (wire_item w)"
proof -
  note item_wf_canonical [OF wire_item_wf order.refl assms]
  then show ?thesis by (cases w) (auto simp: struct_items)
qed

lemma plain_codec_ok: "wire_codec_ok plain_codec"
proof -
  have "parse_item 4 (enc_item (wire_item w)) = Some (wire_item w, [])" if "length (enc_item (wire_item w)) < 2 ^ 64" for w
    using parse_enc_item [OF wire_item_canonical [OF that], of "[]"] by simp
  then show ?thesis
    by (auto simp: wire_codec_ok_def plain_codec_def derived_codec_def item_wire_item item_wire_shape
        split: option.splits)
qed

subsection \<open>Messages and structs correspond\<close>

text \<open>The messages the sender may encode: bounded lists, and ranges whose end does not precede their start.\<close>

fun message_ok :: "message \<Rightarrow> bool" where
  "message_ok (Root _ _ _) = True"
| "message_ok (Hint _ rs ws) = (length rs \<le> MAX_RANGES_PER_MESSAGE \<and> (\<forall>r\<in>set rs. rf_start r \<le> rf_end r) \<and> length ws \<le> MAX_ROWS_PER_MESSAGE)"
| "message_ok (Offer _ rs) = (length rs \<le> MAX_RANGES_PER_MESSAGE \<and> (\<forall>r\<in>set rs. rf_start r \<le> rf_end r))"
| "message_ok (Need _ bs) = (length bs \<le> MAX_RANGES_PER_MESSAGE \<and> (\<forall>r\<in>set bs. dr_start r \<le> dr_end r))"
| "message_ok (Rows _ ws) = (length ws \<le> MAX_ROWS_PER_MESSAGE)"
| "message_ok (Done _ _) = True"

lemma check_ranges_iff:
  "check_ranges rs = Inr () \<longleftrightarrow> length rs \<le> MAX_RANGES_PER_MESSAGE \<and> (\<forall>r\<in>set rs. rf_start r \<le> rf_end r)"
  by (auto simp: check_ranges_def list_ex_iff not_less not_le)

lemma check_bounds_iff:
  "check_bounds bs = Inr () \<longleftrightarrow> length bs \<le> MAX_RANGES_PER_MESSAGE \<and> (\<forall>r\<in>set bs. dr_start r \<le> dr_end r)"
  by (auto simp: check_bounds_def list_ex_iff not_less not_le)

lemmas check_iff = check_ranges_iff check_bounds_iff

lemma record_eta:
  "\<lparr>rf_start = rf_start r, rf_end = rf_end r, rf_count = rf_count r, rf_xor = rf_xor r\<rparr> = r"
  "\<lparr>rw_start = rw_start v, rw_end = rw_end v, rw_count = rw_count v, rw_xor = rw_xor v\<rparr> = v"
  "\<lparr>dr_start = dr_start d, dr_end = dr_end d\<rparr> = d" "\<lparr>bw_start = bw_start b, bw_end = bw_end b\<rparr> = b"
  "\<lparr>row_key = row_key x, row_content = row_content x\<rparr> = x" "\<lparr>ww_key = ww_key y, ww_content = ww_content y\<rparr> = y"
  by simp_all

lemma checked_map_iff:
  assumes "\<And>x. g (f x) = x" "\<And>y. f (g y) = y"
  shows "rbind (chk xs) (\<lambda>_. Inr (map f xs)) = Inr ys \<longleftrightarrow>
    (let zs = map g ys in rbind (chk zs) (\<lambda>_. Inr zs)) = (Inr xs :: 'a list result)"
proof -
  have "map f xs = ys \<longleftrightarrow> map g ys = xs" using assms by (auto simp: comp_def)
  then show ?thesis by (auto simp: rbind_eq_Inr Let_def)
qed

lemma lists_to_from:
  "ranges_to_wire rs = Inr ws \<longleftrightarrow> ranges_from_wire ws = Inr rs"
  "bounds_to_wire bs = Inr vs \<longleftrightarrow> bounds_from_wire vs = Inr bs"
  "rows_to_wire qs = Inr us \<longleftrightarrow> rows_from_wire us = Inr qs"
proof -
  show "ranges_to_wire rs = Inr ws \<longleftrightarrow> ranges_from_wire ws = Inr rs"
    unfolding ranges_to_wire_def ranges_from_wire_def by (rule checked_map_iff) simp_all
  show "bounds_to_wire bs = Inr vs \<longleftrightarrow> bounds_from_wire vs = Inr bs"
    unfolding bounds_to_wire_def bounds_from_wire_def by (rule checked_map_iff) simp_all
  show "rows_to_wire qs = Inr us \<longleftrightarrow> rows_from_wire us = Inr qs"
    by (auto simp: rows_to_wire_def rows_from_wire_def comp_def record_eta)
qed

lemma lane_from_iff: "lane_from c = Inr l \<longleftrightarrow> c = lane_code l"
  by (cases l) (auto simp: lane_from_def lane_from_code_def lane_code_def LANES_def split: if_splits option.splits)

lemma wire_message_iff:
  "message_to_wire m = Inr w \<longleftrightarrow>
     wire_to_message w = Inr m \<and> (\<exists>c. kind_shape (wire_kind w) = Some (shape_of w, c))"
proof -
  have distinct: "(\<exists>c. kind_shape k = Some (sh, c)) \<longleftrightarrow> (sh = Root_shape \<and> k = KIND_ROOT) \<or> (sh = Hint_shape \<and> k = KIND_HINT) \<or>
      (sh = Offer_shape \<and> k = KIND_OFFER) \<or> (sh = Need_shape \<and> k = KIND_NEED) \<or> (sh = Rows_shape \<and> k = KIND_ROWS) \<or>
      (sh = Done_shape \<and> k = KIND_DONE)" for k sh
    by (cases sh) (auto simp: kind_shape_def kind_codes)
  show ?thesis
    by (cases m; cases w) (auto simp: message_to_wire_def Let_def distinct rbind_eq_Inr lists_to_from lane_from_iff)
qed

lemma message_to_wire_ok: "(\<exists>w. message_to_wire m = Inr w) \<longleftrightarrow> message_ok m"
  by (cases m) (auto simp: message_to_wire_def Let_def rbind_eq_Inr ranges_to_wire_def bounds_to_wire_def rows_to_wire_def check_iff)

lemma message_to_wire_error: "message_to_wire m = Inl e \<Longrightarrow> err_kind e = InvalidInput"
  by (cases m) (auto simp: message_to_wire_def Let_def rbind_eq_Inl ranges_to_wire_def bounds_to_wire_def rows_to_wire_def
      check_ranges_def check_bounds_def invalid_input_def split: if_splits)

lemma wire_to_message_error: "wire_to_message w = Inl e \<Longrightarrow> err_kind e = InvalidInput"
  by (cases w) (auto simp: rbind_eq_Inl ranges_from_wire_def bounds_from_wire_def rows_from_wire_def lane_from_def Let_def
      check_ranges_def check_bounds_def invalid_input_def split: if_splits option.splits)

subsection \<open>Encodings\<close>

lemma RECONCILE_LIMITS [simp]: "max_body_len RECONCILE_CBOR_LIMITS < 2 ^ 64" "max_depth RECONCILE_CBOR_LIMITS = 8"
  "max_collection_items RECONCILE_CBOR_LIMITS = 1024" "max_body_len RECONCILE_CBOR_LIMITS = MAX_BODY_BYTES"
  by (simp_all add: RECONCILE_CBOR_LIMITS_def MAX_BODY_BYTES_def)

lemma struct_items_canonical:
  "0 < d \<Longrightarrow> canonical lim d (range_item r) \<longleftrightarrow> 4 \<le> max_collection_items lim"
  "0 < d \<Longrightarrow> canonical lim d (bound_item b) \<longleftrightarrow> 2 \<le> max_collection_items lim"
  "0 < d \<Longrightarrow> canonical lim d (row_item w) \<longleftrightarrow>
    2 \<le> max_collection_items lim \<and> length (ww_key w) < 2 ^ 64 \<and> length (ww_content w) < 2 ^ 64"
  by (auto simp: struct_items)

lemma wire_item_limits:
  assumes "canonical open_limits 3 (wire_item w)" "case w of HintWire _ _ rs ws \<Rightarrow> length rs \<le> 1024 \<and> length ws \<le> 1024
    | OfferWire _ _ rs \<Rightarrow> length rs \<le> 1024 | NeedWire _ _ bs \<Rightarrow> length bs \<le> 1024
    | RowsWire _ _ ws \<Rightarrow> length ws \<le> 1024 | _ \<Rightarrow> True"
  shows "canonical RECONCILE_CBOR_LIMITS 8 (wire_item w)"
  using assms by (cases w) (auto simp: struct_items_canonical)

lemma message_wire_canonical:
  assumes "message_to_wire m = Inr w" "length (enc_item (wire_item w)) < 2 ^ 64"
  shows "canonical RECONCILE_CBOR_LIMITS 8 (wire_item w)"
proof (rule wire_item_limits [OF wire_item_canonical [OF assms(2)]])
  have "message_ok m" using message_to_wire_ok assms(1) by blast
  with assms(1) show "case w of HintWire _ _ rs ws \<Rightarrow> length rs \<le> 1024 \<and> length ws \<le> 1024
    | OfferWire _ _ rs \<Rightarrow> length rs \<le> 1024 | NeedWire _ _ bs \<Rightarrow> length bs \<le> 1024
    | RowsWire _ _ ws \<Rightarrow> length ws \<le> 1024 | _ \<Rightarrow> True"
    by (cases m) (auto simp: message_to_wire_def Let_def rbind_eq_Inr ranges_to_wire_def bounds_to_wire_def
        rows_to_wire_def MAX_RANGES_PER_MESSAGE_def MAX_ROWS_PER_MESSAGE_def split: if_splits)
qed

lemma wire_codec_concat: "wire_codec_ok wc \<Longrightarrow> concat (wc_encode wc w) = enc_item (wire_item w)"
  by (simp add: wire_codec_ok_def derived_codec_def)

lemma MAX_BODY_BYTES_u64: "MAX_BODY_BYTES < 2 ^ 64"
  by (simp add: MAX_BODY_BYTES_def)

lemma encode_message_iff:
  assumes "decoder_ok md" "wire_codec_ok wc"
  shows "encode_message md wc m = Some (Inr b) \<longleftrightarrow>
    (\<exists>w. message_to_wire m = Inr w \<and> b = enc_item (wire_item w) \<and> length b \<le> MAX_BODY_BYTES)"
proof (cases "message_to_wire m")
  case (Inr w)
  have "canonical RECONCILE_CBOR_LIMITS 8 (wire_item w)" if "length (enc_item (wire_item w)) \<le> MAX_BODY_BYTES"
    using message_wire_canonical [OF Inr] that MAX_BODY_BYTES_u64 by linarith
  with Inr encode_item_iff [of md RECONCILE_CBOR_LIMITS "wc_encode wc" w wire_item b, OF assms(1) RECONCILE_LIMITS(1)
      wire_codec_concat [OF assms(2)] wire_item_wf]
  show ?thesis by (auto simp: encode_message_def)
qed (simp add: encode_message_def)

text \<open>The probe reads the kind field of any struct.\<close>

lemma wire_item_kind: "\<exists>vs. wire_item w = CArray (uint_item (wire_kind w) # vs) \<and> length vs \<le> 3"
  by (cases w) auto

lemma probe_wire:
  assumes "decoder_ok md" "wire_codec_ok wc"
  shows "probe_kind md wc (enc_item (wire_item w)) = Inr (wire_kind w)"
proof -
  obtain vs where vs: "wire_item w = CArray (uint_item (wire_kind w) # vs)" "length vs \<le> 3"
    using wire_item_kind by blast
  let ?b = "enc_item (wire_item w)" and ?n = "Suc (length vs)"
  let ?p = "canonical_len ?n"
  have "at ?b 0 (enc_head 4 ?n @ enc_head 0 (unat (wire_kind w)) @ concat (map enc_item vs))" by (simp add: vs)
  then have h: "at ?b 0 (enc_head 4 ?n)" "at ?b ?p (enc_head 0 (unat (wire_kind w)))"
    unfolding at_append length_enc_head by simp_all
  have n: "?n < 2 ^ 64" using vs(2) by simp
  note a = head_class [OF h(1) _ n] and k = head_class [OF h(2) _ unat_u8_wide(1)]
  have maj: "major (?b ! ?p) = 0" using h(2) head_at [of 0 "unat (wire_kind w)" ?p ?b] by simp
  from a decoder_read [OF assms(1), of 0 ?b] have "md_array md ?b 0 = Some (Some ?n, ?p)" by (simp add: read_law_def)
  moreover from k maj assms(2) have "wc_u64 wc ?b ?p = Some (unat (wire_kind w), ?p + canonical_len (unat (wire_kind w)))"
    by (simp add: wire_codec_ok_def)
  ultimately show ?thesis by (simp add: probe_kind_def)
qed

lemma strict_wire_iff:
  assumes "wire_codec_ok wc"
  shows "strict_wire md wc (shape_of w) b c = Some (Inr w) \<longleftrightarrow> encode_canonical md (wc_encode wc) w RECONCILE_CBOR_LIMITS = Some (Inr b)"
proof -
  from assms have "derived_codec (wc_encode wc) (wc_decode wc (shape_of w)) wire_item w" by (simp add: wire_codec_ok_def)
  from decode_strict_iff [OF RECONCILE_LIMITS(1) this] show ?thesis by (simp add: strict_wire_def)
qed

lemma strict_wire_shape:
  assumes "wire_codec_ok wc" "strict_wire md wc sh b c = Some (Inr w)"
  shows "shape_of w = sh"
proof -
  from assms(1) have "\<forall>sh b w p. wc_decode wc sh b = Some (w, p) \<longrightarrow> shape_of w = sh" unfolding wire_codec_ok_def by blast
  with decode_strict_decodes [OF assms(2) [unfolded strict_wire_def]] show ?thesis by blast
qed

lemma decode_message_sound:
  assumes "decoder_ok md" "wire_codec_ok wc" "decode_message md wc b = Some (Inr m)"
  shows "encode_message md wc m = Some (Inr b)"
proof -
  from assms(3) obtain k sh c w where k: "probe_kind md wc b = Inr k" "kind_shape k = Some (sh, c)"
    and w: "strict_wire md wc sh b c = Some (Inr w)" "wire_to_message w = Inr m"
    by (auto simp: decode_message_def rbind_eq_Inr split: sum.splits option.splits)
  have sh: "shape_of w = sh" by (rule strict_wire_shape [OF assms(2) w(1)])
  have enc: "encode_canonical md (wc_encode wc) w RECONCILE_CBOR_LIMITS = Some (Inr b)"
    using w(1) strict_wire_iff [OF assms(2), of md w b c] sh by simp
  then have "b = enc_item (wire_item w)"
    by (simp add: encode_canonical_iff [OF RECONCILE_LIMITS(1)] wire_codec_concat [OF assms(2)])
  with probe_wire [OF assms(1,2), of w] k sh have "kind_shape (wire_kind w) = Some (shape_of w, c)" by simp
  with w(2) have "message_to_wire m = Inr w" by (auto simp: wire_message_iff)
  with enc show ?thesis by (simp add: encode_message_def)
qed

lemma decode_message_complete:
  assumes "decoder_ok md" "wire_codec_ok wc" "encode_message md wc m = Some (Inr b)"
  shows "decode_message md wc b = Some (Inr m)"
proof -
  from assms(3) obtain w where w: "message_to_wire m = Inr w"
    and enc: "encode_canonical md (wc_encode wc) w RECONCILE_CBOR_LIMITS = Some (Inr b)"
    by (auto simp: encode_message_def split: sum.splits)
  from w obtain c where c: "wire_to_message w = Inr m" "kind_shape (wire_kind w) = Some (shape_of w, c)"
    by (auto simp: wire_message_iff)
  have "b = enc_item (wire_item w)"
    using enc by (simp add: encode_canonical_iff [OF RECONCILE_LIMITS(1)] wire_codec_concat [OF assms(2)])
  then have "probe_kind md wc b = Inr (wire_kind w)" using probe_wire [OF assms(1,2)] by simp
  with c enc strict_wire_iff [OF assms(2), of md w b c] show ?thesis by (simp add: decode_message_def)
qed

lemma probe_kind_error: "probe_kind md wc b = Inl e \<Longrightarrow> err_kind e = InvalidInput"
  by (auto simp: probe_kind_def rbind_eq_Inl invalid_input_def split: option.splits if_splits)

lemma decode_message_returns:
  assumes "decoder_ok md"
  shows "\<exists>r. decode_message md wc b = Some r \<and> (\<forall>e. r = Inl e \<longrightarrow> err_kind e = InvalidInput)"
proof (cases "probe_kind md wc b")
  case (Inl e)
  then show ?thesis using probe_kind_error [OF Inl] by (simp add: decode_message_def)
next
  case (Inr k)
  show ?thesis
  proof (cases "kind_shape k")
    case None
    with Inr show ?thesis by (simp add: decode_message_def invalid_input_def)
  next
    case (Some shc)
    obtain sh c where "shc = (sh, c)" by (cases shc)
    obtain r where r: "strict_wire md wc sh b c = Some r" "\<forall>e. r = Inl e \<longrightarrow> err_kind e = InvalidInput"
      using decode_strict_returns [OF assms RECONCILE_LIMITS(1), of "wc_encode wc" "wc_decode wc sh" b c] unfolding strict_wire_def by auto
    with Some Inr \<open>shc = (sh, c)\<close> show ?thesis
      by (auto simp: decode_message_def rbind_eq_Inl dest: wire_to_message_error)
  qed
qed

subsection \<open>Properties\<close>

text \<open>
  C19: A reconciliation message and its bytes determine each other: decoding succeeds on exactly the
  bytes that encoding produces, and returns the message they were produced from. No other byte
  string is accepted for a message, and a kind code is never read as another message type.
\<close>

theorem reconcile_message_codec:
  assumes "decoder_ok md" "wire_codec_ok wc"
  shows "decode_message md wc b = Some (Inr m) \<longleftrightarrow> encode_message md wc m = Some (Inr b)"
  using decode_message_sound [OF assms] decode_message_complete [OF assms] by blast

lemma sample_encoding:
  "encode_message rfc_decoder plain_codec (Done Trust 7) = Some (Inr [0x83, 6, 2, 7])"
proof -
  have "message_to_wire (Done Trust 7) = Inr (DoneWire 6 2 7)"
    by (simp add: message_to_wire_def kind_codes lane_code_def LANES_def)
  moreover have "enc_item (wire_item (DoneWire 6 2 7)) = [0x83, 6, 2, 7]"
    by (simp add: enc_head_def)
  ultimately show ?thesis
    using encode_message_iff [OF rfc_decoder_ok plain_codec_ok, of "Done Trust 7" "[0x83, 6, 2, 7]"]
    by (simp add: MAX_BODY_BYTES_def)
qed

theorem reconcile_message_codec_witness:
  "decode_message rfc_decoder plain_codec [0x83, 6, 2, 7] = Some (Inr (Done Trust 7))"
  using reconcile_message_codec [OF rfc_decoder_ok plain_codec_ok, of "[0x83, 6, 2, 7]" "Done Trust 7"] sample_encoding by simp



text \<open>The size formula counts the bytes of the one-row message.\<close>

lemma bstr_header_len_eq: "bstr_header_len n = canonical_len n"
  by (simp add: bstr_header_len_def canonical_len_def)

lemma single_row_len:
  "length (enc_item (wire_item (RowsWire k l [\<lparr>ww_key = key, ww_content = content\<rparr>]))) =
     single_row_message_len (length key) (length content) +
     (canonical_len (unat k) - 1) + (canonical_len (unat l) - 1)"
  using canonical_len_bounds(1) [of "unat k"] canonical_len_bounds(1) [of "unat l"]
  by (simp add: struct_items length_enc_head single_row_message_len_def bstr_header_len_eq) (simp add: canonical_len_def)

lemma single_row_wire:
  "message_to_wire (Rows lane [\<lparr>row_key = key, row_content = content\<rparr>]) =
     Inr (RowsWire KIND_ROWS (lane_code lane) [\<lparr>ww_key = key, ww_content = content\<rparr>])"
  by (simp add: message_to_wire_def Let_def rows_to_wire_def MAX_ROWS_PER_MESSAGE_def)

lemma lane_code_small: "canonical_len (unat (lane_code lane)) = 1"
  by (cases lane) (simp_all add: lane_code_def LANES_def canonical_len_def)

text \<open>
  C28: The size test applied to a row before it is indexed is exact: a row passes it when, and only
  when, a message that carries that row alone can be encoded, and the predicted size is the length
  of that message.
\<close>

theorem row_fits_message_exact:
  assumes "decoder_ok md" "wire_codec_ok wc"
  shows "(row_fits_message (length key) (length content) \<longleftrightarrow>
      (\<exists>b. encode_message md wc (Rows lane [\<lparr>row_key = key, row_content = content\<rparr>]) = Some (Inr b))) \<and>
    (\<forall>b. encode_message md wc (Rows lane [\<lparr>row_key = key, row_content = content\<rparr>]) = Some (Inr b) \<longrightarrow>
      length b = single_row_message_len (length key) (length content))"
proof -
  have len: "length (enc_item (wire_item (RowsWire KIND_ROWS (lane_code lane) [\<lparr>ww_key = key, ww_content = content\<rparr>])))
      = single_row_message_len (length key) (length content)"
    unfolding single_row_len lane_code_small by (simp add: KIND_ROWS_def canonical_len_def)
  note e = encode_message_iff [OF assms, of "Rows lane [\<lparr>row_key = key, row_content = content\<rparr>]"]
  show ?thesis
    using len by (auto simp: e single_row_wire row_fits_message_def simp del: wire_item.simps)
qed

theorem row_fits_message_exact_witness:
  "\<exists>b. encode_message rfc_decoder plain_codec (Rows Trust [\<lparr>row_key = [1], row_content = [2, 3]\<rparr>]) = Some (Inr b)"
  using row_fits_message_exact [OF rfc_decoder_ok plain_codec_ok, of "[1]" "[2, 3]" Trust]
  by (simp add: row_fits_message_def single_row_message_len_def bstr_header_len_def MAX_BODY_BYTES_def)

subsection \<open>Row digests\<close>

lemma PREIMAGE_LIMITS_simps [simp]: "max_depth PREIMAGE_LIMITS = 4" "max_collection_items PREIMAGE_LIMITS = 4"
  "max_body_len PREIMAGE_LIMITS = MAX_BODY_BYTES"
  by (simp_all add: PREIMAGE_LIMITS_def)

lemma preimage_len:
  "length (enc_item (preimage_item (k, c))) < single_row_message_len (length k) (length c)"
  by (simp add: preimage_item_def length_enc_head single_row_message_len_def bstr_header_len_eq) (simp add: canonical_len_def)

lemma preimage_fits:
  assumes "row_fits_message (length k) (length c)"
  shows "length (enc_item (preimage_item (k, c))) \<le> MAX_BODY_BYTES" "length k < 2 ^ 64" "length c < 2 ^ 64"
proof -
  have n: "length (enc_item (preimage_item (k, c))) \<le> MAX_BODY_BYTES"
    using preimage_len [of k c] assms by (simp add: row_fits_message_def)
  then show "length (enc_item (preimage_item (k, c))) \<le> MAX_BODY_BYTES" .
  from n have "length k \<le> MAX_BODY_BYTES" "length c \<le> MAX_BODY_BYTES" by (simp_all add: preimage_item_def)
  then show "length k < 2 ^ 64" "length c < 2 ^ 64" using MAX_BODY_BYTES_u64 by linarith+
qed

lemma preimage_encoded:
  assumes "decoder_ok md" "concat (encP (k, c)) = enc_item (preimage_item (k, c))" "row_fits_message (length k) (length c)"
  shows "encode_canonical md encP (k, c) PREIMAGE_LIMITS = Some (Inr (enc_item (preimage_item (k, c))))"
proof -
  have "item_wf (preimage_item (k, c))" by (simp add: preimage_item_def)
  moreover have "max_body_len PREIMAGE_LIMITS < 2 ^ 64" using MAX_BODY_BYTES_u64 by simp
  ultimately show ?thesis
    using encode_item_iff [of md PREIMAGE_LIMITS encP "(k, c)" preimage_item] assms preimage_fits [OF assms(3)]
    by (simp add: preimage_item_def)
qed

lemma preimage_inject:
  assumes "enc_item (preimage_item (k, c)) = enc_item (preimage_item (k', c'))"
    "row_fits_message (length k) (length c)" "row_fits_message (length k') (length c')"
  shows "k = k' \<and> c = c'"
proof -
  have can: "canonical open_limits 1 (preimage_item (x, y))" if "row_fits_message (length x) (length y)" for x y
    using preimage_fits(2,3) [OF that] by (simp add: preimage_item_def open_limits_def)
  from enc_item_inject [OF can [OF assms(2)] can [OF assms(3)], of "[]" "[]"] assms(1) show ?thesis
    by (simp add: preimage_item_def)
qed

text \<open>
  C29: Every row that fits a message has a digest, the first eight bytes of the hash of its preimage
  read big-endian, and the preimages of two different rows differ: moving a byte between key and
  content never gives the same input to the hash.
\<close>

theorem item_digest_unambiguous:
  assumes "decoder_ok md" "\<And>p. concat (encP p) = enc_item (preimage_item p)"
    "row_fits_message (length k) (length c)" "row_fits_message (length k') (length c')"
  shows "\<exists>p p'. item_digest md encP sha256 k c = Some (Inr (of_nat (of_be_bytes (take 8 (sha256 p))))) \<and>
    item_digest md encP sha256 k' c' = Some (Inr (of_nat (of_be_bytes (take 8 (sha256 p'))))) \<and>
    (p = p' \<longleftrightarrow> k = k' \<and> c = c')"
  using preimage_encoded [where encP = encP, OF assms(1,2,3)] preimage_encoded [where encP = encP, OF assms(1,2,4)]
    preimage_inject [OF _ assms(3,4)]
  by (intro exI [of _ "enc_item (preimage_item (k, c))"] exI [of _ "enc_item (preimage_item (k', c'))"])
    (auto simp: item_digest_def)

theorem item_digest_unambiguous_witness:
  "\<exists>p p'. item_digest rfc_decoder (\<lambda>p. [enc_item (preimage_item p)]) (\<lambda>b. b) (ascii ''ab'') (ascii ''c'') =
      Some (Inr (of_nat (of_be_bytes (take 8 p)))) \<and>
    item_digest rfc_decoder (\<lambda>p. [enc_item (preimage_item p)]) (\<lambda>b. b) (ascii ''a'') (ascii ''bc'') =
      Some (Inr (of_nat (of_be_bytes (take 8 p')))) \<and> p \<noteq> p'"
  using item_digest_unambiguous [OF rfc_decoder_ok, of "\<lambda>p. [enc_item (preimage_item p)]" "ascii ''ab''" "ascii ''c''"
      "ascii ''a''" "ascii ''bc''" "\<lambda>b. b"]
  by (simp add: ascii_def row_fits_message_def single_row_message_len_def bstr_header_len_def MAX_BODY_BYTES_def)

text \<open>
  The four tombstone families share one key space without meeting: a row key determines its
  family and its subject, and a leading byte names a family exactly when it is that family's prefix.
\<close>

theorem tombstone_keys_disjoint:
  "(tombstone_row_key k s = tombstone_row_key k' s' \<longleftrightarrow> k = k' \<and> s = s') \<and>
   (tombstone_from_prefix p = Some k \<longleftrightarrow> p = tombstone_prefix k)"
  by (cases k; cases k') (auto simp: tombstone_row_key_def tombstone_from_prefix_def)

end
