(* ===== verification/Reconcile_Engine.thy ===== *)
theory Reconcile_Engine
  imports Fingerprint_Index Reconcile_Wire "HOL-Library.Product_Lexorder"
begin

text \<open>
  The reconciliation engine of one session and one lane, \<^verbatim>\<open>src/reconcile/engine.rs\<close>.

  The engine is a record passed from drive to drive. An operation that the code declares fallible
  returns its result together with the engine it leaves behind, because an early return keeps the
  changes made before it. The row digest \<^verbatim>\<open>digest::item_digest\<close> is the argument \<open>dg\<close>; what is
  proved holds for every digest function.
\<close>

unbundle bit_operations_syntax

subsection \<open>Constants and state\<close>

definition FANOUT :: nat where "FANOUT = 4"
definition MESSAGE_BUDGET_PER_DRIVE :: nat where "MESSAGE_BUDGET_PER_DRIVE = 64"
definition ROW_BYTES_BUDGET :: nat where "ROW_BYTES_BUDGET = 48 * 1024"
definition ROWS_BACKLOG_CEILING :: nat where "ROWS_BACKLOG_CEILING = 4096"
definition EAGER_DELTA_BYTES :: nat where "EAGER_DELTA_BYTES = 4 * 1024"
definition NEED_PENDING_BOUNDS :: nat where "NEED_PENDING_BOUNDS = 4 * MAX_RANGES_PER_MESSAGE"
definition HINT_PENDING_MAX :: nat where "HINT_PENDING_MAX = 8"

datatype drive_input = Message_drive message | LocalChange | LocalChangeEager | RootExchange | Drain

type_synonym digest_fn = "bytes \<Rightarrow> bytes \<Rightarrow> u64 result"

record engine =
  en_lane :: lane_id
  en_index :: "row findex"
  en_peer_root :: "fingerprint option"
  en_round_open :: bool
  en_awaiting :: bool
  en_dirty :: "(u64 \<times> u64) list option"
  en_backlog :: "message list"
  en_pending_needs :: "(u64 \<times> u64) list"
  en_pending_hints :: "range_fingerprint list list"
  en_eager :: "u64 list"

definition new_engine :: "lane_id \<Rightarrow> engine" where
  "new_engine lane = \<lparr>en_lane = lane, en_index = new_index, en_peer_root = None, en_round_open = False,
     en_awaiting = False, en_dirty = Some [], en_backlog = [], en_pending_needs = [], en_pending_hints = [],
     en_eager = []\<rparr>"

definition peer_agrees :: "engine \<Rightarrow> bool" where
  "peer_agrees e \<longleftrightarrow> en_peer_root e = Some (ix_root (en_index e))"

abbreviation row_bytes :: "row \<Rightarrow> nat" where
  "row_bytes r \<equiv> length (row_key r) + length (row_content r)"

subsection \<open>Range arithmetic\<close>

definition root_precedes :: "fingerprint \<Rightarrow> fingerprint \<Rightarrow> bool" where
  "root_precedes local peer \<longleftrightarrow> fp_count local < fp_count peer \<or> (fp_count local = fp_count peer \<and> fp_xor local < fp_xor peer)"

text \<open>The width is a 128-bit value; the callers pass \<open>s \<le> t\<close> only.\<close>

definition split :: "u64 \<Rightarrow> u64 \<Rightarrow> (u64 \<times> u64) list" where
  "split s t = (let width = unat t - unat s + 1; quarter = (of_nat (width div FANOUT) :: u64) in
     if quarter = 0 then map (\<lambda>d. (of_nat d, of_nat d)) [unat s ..< unat t + 1]
     else let first_edge = s + quarter; second_edge = s + 2 * quarter; third_edge = s + 3 * quarter in
       [(s, first_edge - 1), (first_edge, second_edge - 1), (second_edge, third_edge - 1), (third_edge, t)])"

definition mix64 :: "u64 \<Rightarrow> u64" where
  "mix64 v = (let z = v + 0x9E3779B97F4A7C15;
     z = (z XOR drop_bit 30 z) * 0xBF58476D1CE4E5B9;
     z = (z XOR drop_bit 27 z) * 0x94D049BB133111EB in z XOR drop_bit 31 z)"

definition state_token :: "fingerprint \<Rightarrow> u64" where
  "state_token root = mix64 (fp_count root + word_rotl 32 (fp_xor root))"

definition done_message :: "engine \<Rightarrow> message" where
  "done_message e = Done (en_lane e) (state_token (ix_root (en_index e)))"

definition range_aggregate :: "row findex \<Rightarrow> u64 \<Rightarrow> u64 \<Rightarrow> fingerprint" where
  "range_aggregate ix s t = (if t < - 1 then range_index ix s (t + 1)
     else remove_fp (ix_root ix) (prefix_index ix s))"

definition fingerprint_of :: "engine \<Rightarrow> u64 \<times> u64 \<Rightarrow> range_fingerprint" where
  "fingerprint_of e = (\<lambda>(s, t). let f = range_aggregate (en_index e) s t in
     \<lparr>rf_start = s, rf_end = t, rf_count = fp_count f, rf_xor = fp_xor f\<rparr>)"

subsection \<open>The dirty set\<close>

definition sat_succ :: "u64 \<Rightarrow> u64" where "sat_succ d = (if d = - 1 then d else d + 1)"
definition sat_pred :: "u64 \<Rightarrow> u64" where "sat_pred d = (if d = 0 then d else d - 1)"

fun absorb_bounds :: "u64 \<Rightarrow> (u64 \<times> u64) list \<Rightarrow> u64 \<Rightarrow> u64 \<Rightarrow> (u64 \<times> u64) list \<Rightarrow> (u64 \<times> u64) list" where
  "absorb_bounds d [] s t rest = rest @ [(s, t)]"
| "absorb_bounds d ((bs, bt) # bounds) s t rest =
    (if bs \<le> sat_succ d \<and> sat_pred d \<le> bt then absorb_bounds d bounds (min s bs) (max t bt) rest
     else absorb_bounds d bounds s t (rest @ [(bs, bt)]))"

definition mark_dirty :: "u64 \<Rightarrow> engine \<Rightarrow> engine" where
  "mark_dirty d e = (case en_dirty e of None \<Rightarrow> e
     | Some bounds \<Rightarrow> let rest = sort (absorb_bounds d bounds d d []) in
        e\<lparr>en_dirty := if MAX_RANGES_PER_MESSAGE < length rest then None else Some rest\<rparr>)"

subsection \<open>Rows\<close>

definition eager_bytes :: "engine \<Rightarrow> nat" where
  "eager_bytes e = sum_list (map row_bytes (List.map_filter (get_index (en_index e)) (en_eager e)))"

definition note_eager :: "u64 \<Rightarrow> nat \<Rightarrow> engine \<Rightarrow> engine" where
  "note_eager d n e = (if MAX_ROWS_PER_MESSAGE \<le> length (en_eager e) \<or> EAGER_DELTA_BYTES < eager_bytes e + n then e
     else e\<lparr>en_eager := en_eager e @ [d]\<rparr>)"

definition insert_row_inner :: "digest_fn \<Rightarrow> bytes \<Rightarrow> bytes \<Rightarrow> bool \<Rightarrow> engine \<Rightarrow> unit result \<times> engine" where
  "insert_row_inner dg key content eager e =
    (if \<not> row_fits_message (length key) (length content) then (Inl (invalid_input ''reconcile row size''), e)
     else case dg key content of Inl err \<Rightarrow> (Inl err, e)
     | Inr d \<Rightarrow> (case insert_index (en_index e) d \<lparr>row_key = key, row_content = content\<rparr> of (old, ix) \<Rightarrow>
         let e = e\<lparr>en_index := ix\<rparr> in
         (Inr (), if old \<noteq> None then e
           else let e = mark_dirty d e in if eager then note_eager d (length key + length content) e else e)))"

definition insert_row :: "digest_fn \<Rightarrow> bytes \<Rightarrow> bytes \<Rightarrow> engine \<Rightarrow> unit result \<times> engine" where
  "insert_row dg key content e = insert_row_inner dg key content True e"

definition insert_row_quiet :: "digest_fn \<Rightarrow> bytes \<Rightarrow> bytes \<Rightarrow> engine \<Rightarrow> unit result \<times> engine" where
  "insert_row_quiet dg key content e = insert_row_inner dg key content False e"

definition remove_row :: "digest_fn \<Rightarrow> bytes \<Rightarrow> bytes \<Rightarrow> engine \<Rightarrow> bool result \<times> engine" where
  "remove_row dg key content e = (case dg key content of Inl err \<Rightarrow> (Inl err, e)
     | Inr d \<Rightarrow> (case remove_index (en_index e) d of (old, ix) \<Rightarrow>
         let e = e\<lparr>en_index := ix\<rparr> in
         if old \<noteq> None then (Inr True, mark_dirty d e) else (Inr False, e)))"

definition engine_rows :: "engine \<Rightarrow> (bytes \<times> bytes) list" where
  "engine_rows e = map (\<lambda>(_, r). (row_key r, row_content r)) (iter_index (en_index e))"

text \<open>A received row: stored, and marked as a change when it was not held.\<close>

fun apply_rows :: "digest_fn \<Rightarrow> row list \<Rightarrow> engine \<Rightarrow> unit result \<times> engine" where
  "apply_rows dg [] e = (Inr (), e)"
| "apply_rows dg (r # rs) e = (case dg (row_key r) (row_content r) of Inl err \<Rightarrow> (Inl err, e)
     | Inr d \<Rightarrow> (case insert_index (en_index e) d r of (old, ix) \<Rightarrow>
         let e = e\<lparr>en_index := ix\<rparr> in apply_rows dg rs (if old = None then mark_dirty d e else e)))"

text \<open>The rows that ride a hint, in candidate order until the byte budget is spent.\<close>

fun eager_rows :: "row findex \<Rightarrow> u64 list \<Rightarrow> nat \<Rightarrow> row list \<Rightarrow> row list" where
  "eager_rows ix [] n rows = rows"
| "eager_rows ix (d # ds) n rows = (case get_index ix d of None \<Rightarrow> eager_rows ix ds n rows
     | Some r \<Rightarrow> if EAGER_DELTA_BYTES < n + row_bytes r then rows else eager_rows ix ds (n + row_bytes r) (rows @ [r]))"

definition take_eager_rows :: "bool \<Rightarrow> engine \<Rightarrow> row list \<times> engine" where
  "take_eager_rows eager e = (let e' = e\<lparr>en_eager := []\<rparr> in
     if \<not> eager then ([], e') else (eager_rows (en_index e) (en_eager e) 0 [], e'))"

definition queue :: "message \<Rightarrow> engine \<Rightarrow> engine" where
  "queue m e = e\<lparr>en_backlog := en_backlog e @ [m]\<rparr>"

fun is_rows :: "message \<Rightarrow> bool" where
  "is_rows (Rows _ _) = True" | "is_rows _ = False"

definition queued_rows_messages :: "engine \<Rightarrow> nat" where
  "queued_rows_messages e = length (filter is_rows (en_backlog e))"

text \<open>The packing loop: the messages it queues, the open chunk, the room left, and whether it stopped at the ceiling.\<close>

fun pack_rows :: "lane_id \<Rightarrow> row list \<Rightarrow> row list \<Rightarrow> nat \<Rightarrow> nat \<Rightarrow> message list \<Rightarrow> message list \<times> row list \<times> nat \<times> bool" where
  "pack_rows lane [] chunk n room out = (out, chunk, room, False)"
| "pack_rows lane (r # rs) chunk n room out =
    (if chunk \<noteq> [] \<and> (MAX_ROWS_PER_MESSAGE \<le> length chunk \<or> ROW_BYTES_BUDGET < n + row_bytes r)
     then if room = 0 then (out, chunk, room, True)
       else pack_rows lane rs [r] (row_bytes r) (room - 1) (out @ [Rows lane chunk])
     else pack_rows lane rs (chunk @ [r]) (n + row_bytes r) room out)"

definition rows_in :: "row findex \<Rightarrow> u64 \<Rightarrow> u64 \<Rightarrow> row list" where
  "rows_in ix s t = map snd (if t < - 1 then range_entries ix s (t + 1) else filter (\<lambda>x. s \<le> fst x) (iter_index ix))"

definition push_rows :: "u64 \<Rightarrow> u64 \<Rightarrow> bool \<Rightarrow> engine \<Rightarrow> nat \<times> engine" where
  "push_rows s t answer e =
    (let room = ROWS_BACKLOG_CEILING - queued_rows_messages e in
     case pack_rows (en_lane e) (rows_in (en_index e) s t) [] 0 room [] of (out, chunk, room, stopped) \<Rightarrow>
       let out = (if \<not> stopped \<and> (chunk \<noteq> [] \<or> answer) \<and> 0 < room then out @ [Rows (en_lane e) chunk] else out)
       in (length out, e\<lparr>en_backlog := en_backlog e @ out\<rparr>))"

subsection \<open>Negotiation\<close>

definition push_offers :: "range_fingerprint list \<Rightarrow> engine \<Rightarrow> engine" where
  "push_offers offers e = e\<lparr>
     en_backlog := en_backlog e @ map (Offer (en_lane e)) (chunks MAX_RANGES_PER_MESSAGE offers),
     en_awaiting := (offers \<noteq> [] \<or> en_awaiting e)\<rparr>"

definition push_needs :: "digest_range list \<Rightarrow> engine \<Rightarrow> engine" where
  "push_needs needs e = e\<lparr>
     en_backlog := en_backlog e @ map (Need (en_lane e)) (chunks MAX_RANGES_PER_MESSAGE needs),
     en_awaiting := (needs \<noteq> [] \<or> en_awaiting e)\<rparr>"

text \<open>The comparison of one triple: the offers, needs and pushes it adds.\<close>

definition compare_range :: "engine \<Rightarrow> u64 \<times> u64 \<times> fingerprint \<Rightarrow>
    range_fingerprint list \<times> digest_range list \<times> (u64 \<times> u64) list" where
  "compare_range e = (\<lambda>(s, t, peer). let local = range_aggregate (en_index e) s t in
     if local = peer then ([], [], [])
     else if fp_count peer = 0 then ([], [], [(s, t)])
     else if fp_count local = 0 then ([], [\<lparr>dr_start = s, dr_end = t\<rparr>], [])
     else if s = t then ([], [\<lparr>dr_start = s, dr_end = t\<rparr>], [(s, t)])
     else (map (fingerprint_of e) (split s t), [], []))"

definition process_ranges :: "(u64 \<times> u64 \<times> fingerprint) list \<Rightarrow> engine \<Rightarrow> engine" where
  "process_ranges triples e =
    (let parts = map (compare_range e) triples;
         offers = concat (map fst parts); needs = concat (map (fst \<circ> snd) parts); pushes = concat (map (snd \<circ> snd) parts)
     in fold (\<lambda>(s, t) e. snd (push_rows s t False e)) pushes (push_needs needs (push_offers offers e)))"

definition initiate :: "(u64 \<times> u64 \<times> fingerprint) list \<Rightarrow> engine \<Rightarrow> engine" where
  "initiate triples e = process_ranges triples (e\<lparr>en_round_open := True\<rparr>)"

definition triple_of :: "range_fingerprint \<Rightarrow> u64 \<times> u64 \<times> fingerprint" where
  "triple_of r = (rf_start r, rf_end r, new_fingerprint (rf_count r) (rf_xor r))"

definition process_hint_ranges :: "range_fingerprint list \<Rightarrow> engine \<Rightarrow> engine" where
  "process_hint_ranges ranges e =
    (let divergent = filter (\<lambda>(s, t, peer). range_aggregate (en_index e) s t \<noteq> peer) (map triple_of ranges) in
     if divergent \<noteq> [] then initiate divergent e else e)"

definition replay_pending_hints :: "engine \<Rightarrow> engine" where
  "replay_pending_hints e = (if en_pending_hints e = [] then e
     else fold process_hint_ranges (en_pending_hints e) (e\<lparr>en_pending_hints := []\<rparr>))"

definition close_round :: "engine \<Rightarrow> engine" where
  "close_round e = (let e = e\<lparr>en_round_open := False\<rparr> in replay_pending_hints (queue (done_message e) e))"

definition close_round_on_agreement :: "engine \<Rightarrow> engine" where
  "close_round_on_agreement e = (if en_round_open e then close_round e else e)"

definition answer_need :: "u64 \<Rightarrow> u64 \<Rightarrow> engine \<Rightarrow> engine" where
  "answer_need s t e =
    (if list_ex (\<lambda>(ps, pt). ps \<le> s \<and> t \<le> pt) (en_pending_needs e) then e
     else if NEED_PENDING_BOUNDS \<le> length (en_pending_needs e) then e
     else case push_rows s t True e of (queued, e) \<Rightarrow>
       if 0 < queued then e\<lparr>en_pending_needs := en_pending_needs e @ [(s, t)]\<rparr> else e)"

subsection \<open>Drives\<close>

fun is_hint :: "message \<Rightarrow> bool" where
  "is_hint (Hint _ _ _) = True" | "is_hint _ = False"

text \<open>The body of the message dispatch, once the lane matches and the waiting flag is cleared.\<close>

fun dispatch :: "digest_fn \<Rightarrow> message \<Rightarrow> engine \<Rightarrow> unit result \<times> engine" where
  "dispatch dg (Root _ c x) e =
    (let peer = new_fingerprint c x; local = ix_root (en_index e); e = e\<lparr>en_peer_root := Some peer\<rparr> in
     (Inr (), if peer = local then close_round_on_agreement e
       else if \<not> en_round_open e \<and> root_precedes local peer then initiate [(0, - 1, peer)] e else e))"
| "dispatch dg (Hint _ ranges rows) e = (case apply_rows dg rows e of
     (Inl err, e) \<Rightarrow> (Inl err, e)
   | (Inr _, e) \<Rightarrow> (Inr (), if \<not> en_round_open e then process_hint_ranges ranges e
       else if ranges \<noteq> [] \<and> length (en_pending_hints e) < HINT_PENDING_MAX
       then e\<lparr>en_pending_hints := en_pending_hints e @ [ranges]\<rparr> else e))"
| "dispatch dg (Offer _ ranges) e = (let e' = process_ranges (map triple_of ranges) e in
     (Inr (), if length (en_backlog e') = length (en_backlog e) then close_round e' else e'))"
| "dispatch dg (Need _ bounds) e = (Inr (), fold (\<lambda>b. answer_need (dr_start b) (dr_end b)) bounds e)"
| "dispatch dg (Rows _ rows) e = apply_rows dg rows e"
| "dispatch dg (Done _ _) e = (Inr (), replay_pending_hints (e\<lparr>en_round_open := False\<rparr>))"

definition apply_message :: "digest_fn \<Rightarrow> message \<Rightarrow> engine \<Rightarrow> nat result \<times> engine" where
  "apply_message dg m e = (if message_lane m \<noteq> en_lane e then (Inl (invalid_input ''reconcile lane mismatch''), e)
     else let e = (if is_hint m then e else e\<lparr>en_awaiting := False\<rparr>) in
       case dispatch dg m e of (Inl err, e') \<Rightarrow> (Inl err, e')
       | (Inr _, e') \<Rightarrow> (Inr (length (en_backlog e') - length (en_backlog e)), e'))"

definition drive_local_change :: "bool \<Rightarrow> engine \<Rightarrow> nat \<times> engine" where
  "drive_local_change eager e =
    (let bounds = (case en_dirty e of None \<Rightarrow> [(0, - 1)] | Some bs \<Rightarrow> bs);
         e' = e\<lparr>en_dirty := Some []\<rparr>;
         ranges = map (fingerprint_of e') bounds
     in case take_eager_rows eager e' of (piggyback, e'') \<Rightarrow>
       let e3 = (if ranges \<noteq> [] then queue (Hint (en_lane e'') ranges piggyback) e'' else e'')
       in (length (en_backlog e3) - length (en_backlog e), e3))"

definition drive_root_exchange :: "engine \<Rightarrow> nat \<times> engine" where
  "drive_root_exchange e =
    (let root = ix_root (en_index e);
         e1 = queue (Root (en_lane e) (fp_count root) (fp_xor root)) (e\<lparr>en_eager := [], en_awaiting := False, en_pending_hints := []\<rparr>);
         e2 = (case en_peer_root e1 of None \<Rightarrow> e1
           | Some peer \<Rightarrow> if peer = root then close_round_on_agreement e1
               else if root_precedes root peer then initiate [(0, - 1, peer)] e1 else e1)
     in (length (en_backlog e2) - length (en_backlog e), e2))"

fun drain_backlog :: "message list \<Rightarrow> message list \<Rightarrow> message list \<times> message list" where
  "drain_backlog [] out = ([], out)"
| "drain_backlog (m # backlog) out =
    (if length out < MESSAGE_BUDGET_PER_DRIVE then drain_backlog backlog (out @ [m]) else (m # backlog, out))"

definition drain :: "engine \<times> message list \<Rightarrow> engine \<times> message list" where
  "drain = (\<lambda>(e, out). case drain_backlog (en_backlog e) out of (backlog, out) \<Rightarrow> (e\<lparr>en_backlog := backlog\<rparr>, out))"

definition drive_step :: "digest_fn \<Rightarrow> drive_input \<Rightarrow> engine \<Rightarrow> nat result \<times> engine" where
  "drive_step dg d e = (case d of
     Drain \<Rightarrow> (Inr 0, e)
   | Message_drive m \<Rightarrow> apply_message dg m e
   | LocalChange \<Rightarrow> apfst Inr (drive_local_change False e)
   | LocalChangeEager \<Rightarrow> apfst Inr (drive_local_change True e)
   | RootExchange \<Rightarrow> apfst Inr (drive_root_exchange e))"

definition settle :: "nat \<Rightarrow> engine \<Rightarrow> engine" where
  "settle generated e =
    (if en_round_open e \<and> \<not> en_awaiting e \<and> en_backlog e = [] \<and> generated = 0 then close_round e else e)"

definition drive :: "digest_fn \<Rightarrow> drive_input \<Rightarrow> engine \<Rightarrow> message list result \<times> engine" where
  "drive dg d e =
    (let e0 = (if en_backlog e = [] then e\<lparr>en_pending_needs := []\<rparr> else e) in
     case drain (e0, []) of (e1, out1) \<Rightarrow>
     case drive_step dg d e1 of
       (Inl err, e2) \<Rightarrow> (Inl err, e2)
     | (Inr generated, e2) \<Rightarrow> (case drain (e2, out1) of (e3, out2) \<Rightarrow>
         case drain (settle generated e3, out2) of (e4, out3) \<Rightarrow> (Inr out3, e4)))"

end
