(* ===== verification/Engine_Ranges.thy ===== *)
theory Engine_Ranges
  imports Reconcile_Engine
begin

text \<open>
  The range arithmetic of the reconciliation engine: the four-way split of a digest range, the
  aggregate of an inclusive range, the coalesced set of changed ranges, and the order that decides
  which side of an edge initiates.
\<close>

subsection \<open>Splitting\<close>

definition split_nat :: "nat \<Rightarrow> nat \<Rightarrow> (nat \<times> nat) list" where
  "split_nat a b = (let q = (b - a + 1) div 4 in
     if q = 0 then map (\<lambda>d. (d, d)) [a ..< b + 1]
     else [(a, a + q - 1), (a + q, a + 2 * q - 1), (a + 2 * q, a + 3 * q - 1), (a + 3 * q, b)])"

lemma split_nat_eq:
  assumes "q = (b - a + 1) div 4"
  shows "split_nat a b = (if q = 0 then map (\<lambda>d. (d, d)) [a ..< b + 1]
     else [(a, a + q - 1), (a + q, a + 2 * q - 1), (a + 2 * q, a + 3 * q - 1), (a + 3 * q, b)])"
  unfolding assms split_nat_def Let_def by simp

lemma split_eq:
  assumes "q = (unat t - unat s + 1) div 4"
  shows "split s t = (if (of_nat q :: u64) = 0 then map (\<lambda>d. (of_nat d, of_nat d)) [unat s ..< unat t + 1]
     else [(s, s + of_nat q - 1), (s + of_nat q, s + 2 * of_nat q - 1), (s + 2 * of_nat q, s + 3 * of_nat q - 1),
       (s + 3 * of_nat q, t)])"
  unfolding assms split_def Let_def FANOUT_def by simp

lemma unat_of_nat_u64: "n < 2 ^ 64 \<Longrightarrow> unat (of_nat n :: u64) = n"
  by (simp add: unat_of_nat take_bit_nat_eq_self)

lemma of_nat_pred: "0 < n \<Longrightarrow> (of_nat n :: u64) - 1 = of_nat (n - 1)"
  by (cases n) simp_all

lemma unat_eq_zero_u64: "unat (x :: u64) = 0 \<longleftrightarrow> x = 0"
  by (rule unsigned_eq_0_iff)

lemma u64_less: "unat (x :: u64) < 2 ^ 64"
  using unsigned_less [of x] by simp

lemma split_split_nat:
  assumes "s \<le> t"
  shows "map (\<lambda>(x, y). (unat x, unat y)) (split s t) = split_nat (unat s) (unat t)"
proof -
  let ?a = "unat s" and ?b = "unat t"
  define q where "q = (?b - ?a + 1) div 4"
  have b: "?b < 2 ^ 64" by (rule u64_less)
  have ab: "?a \<le> ?b" using assms by (simp add: word_le_nat_alt)
  have q4: "4 * q \<le> ?b - ?a + 1" unfolding q_def by simp
  have uq: "unat (of_nat q :: u64) = q" by (rule unat_of_nat_u64) (use q4 b ab in linarith)
  have z: "(of_nat q :: u64) = 0 \<longleftrightarrow> q = 0" using unat_eq_zero_u64 [of "of_nat q"] unfolding uq by (rule sym)
  show ?thesis
  proof (cases "q = 0")
    case True
    have "split s t = map (\<lambda>d. (of_nat d, of_nat d)) [?a ..< ?b + 1]"
      using True by (simp add: split_eq [OF q_def])
    moreover have "split_nat ?a ?b = map (\<lambda>d. (d, d)) [?a ..< ?b + 1]"
      using True by (simp add: split_nat_eq [OF q_def])
    moreover have "unat (of_nat d :: u64) = d" if "d \<le> ?b" for d using that b by (intro unat_of_nat_u64) linarith
    ultimately show ?thesis by (auto simp del: upt_Suc)
  next
    case False
    define edge where "edge k = ?a + k * q" for k
    have e: "s + of_nat (k * q) = of_nat (edge k)" for k by (simp add: edge_def)
    have lt: "edge k < 2 ^ 64" "0 < edge k" if "1 \<le> k" "k \<le> 3" for k
    proof -
      have "k * q \<le> 3 * q" using that by simp
      then show "edge k < 2 ^ 64" using q4 b ab False unfolding edge_def by linarith
      show "0 < edge k" using that False by (simp add: edge_def)
    qed
    have u: "unat (of_nat (edge k) :: u64) = edge k" "unat (of_nat (edge k - 1) :: u64) = edge k - 1" if "1 \<le> k" "k \<le> 3" for k
      using lt [OF that] by (intro unat_of_nat_u64; simp)+
    have "split s t = [(s, of_nat (edge 1 - 1)), (of_nat (edge 1), of_nat (edge 2 - 1)), (of_nat (edge 2), of_nat (edge 3 - 1)), (of_nat (edge 3), t)]"
      using False z lt(2) [of 1] lt(2) [of 2] lt(2) [of 3] e [of 1] e [of 2] e [of 3]
      by (simp add: split_eq [OF q_def] flip: of_nat_pred)
    moreover have "split_nat ?a ?b = [(?a, edge 1 - 1), (edge 1, edge 2 - 1), (edge 2, edge 3 - 1), (edge 3, ?b)]"
      using False by (simp add: split_nat_eq [OF q_def] edge_def)
    ultimately show ?thesis using u [of 1] u [of 2] u [of 3] by simp
  qed
qed

lemma concat_singletons: "concat (map (\<lambda>d. [d]) xs) = xs"
  by (induction xs) simp_all

lemma upt_append: "i \<le> j \<Longrightarrow> j \<le> k \<Longrightarrow> [i ..< j] @ [j ..< k] = [i ..< k]"
  using upt_add_eq_append [of i j "k - j"] by simp

lemma split_nat_covers:
  assumes "a \<le> b"
  shows "concat (map (\<lambda>(x, y). [x ..< y + 1]) (split_nat a b)) = [a ..< b + 1]"
proof (cases "(b - a + 1) div 4 = 0")
  case True
  then show ?thesis by (simp add: split_nat_def comp_def concat_singletons)
next
  case False
  define q where "q = (b - a + 1) div 4"
  have q: "0 < q" "a + 3 * q \<le> b" using False assms unfolding q_def by auto
  have "[a ..< b + 1] = [a ..< a + q] @ [a + q ..< a + 2 * q] @ [a + 2 * q ..< a + 3 * q] @ [a + 3 * q ..< b + 1]"
    using q upt_append [of a "a + q" "b + 1"] upt_append [of "a + q" "a + 2 * q" "b + 1"]
      upt_append [of "a + 2 * q" "a + 3 * q" "b + 1"] by simp
  moreover have "Suc (a + q - 1) = a + q" "Suc (a + 2 * q - 1) = a + 2 * q" "Suc (a + 3 * q - 1) = a + 3 * q" using q(1) by simp_all
  ultimately show ?thesis using q(1) by (simp add: split_nat_eq [OF q_def] del: upt_Suc)
qed

lemma split_nat_narrows:
  assumes "a < b" "(x, y) \<in> set (split_nat a b)"
  shows "a \<le> x \<and> x \<le> y \<and> y \<le> b \<and> y - x < b - a"
proof (cases "(b - a + 1) div 4 = 0")
  case True
  with assms show ?thesis by (auto simp: split_nat_def)
next
  case False
  define q where "q = (b - a + 1) div 4"
  have q: "0 < q" "a + 3 * q \<le> b" "4 * q \<le> b - a + 1" using False assms unfolding q_def by auto
  have "(x, y) \<in> {(a, a + q - 1), (a + q, a + 2 * q - 1), (a + 2 * q, a + 3 * q - 1), (a + 3 * q, b)}"
    using assms(2) q(1) by (simp add: split_nat_eq [OF q_def])
  with q show ?thesis by auto
qed

lemma split_nat_length: "length (split_nat a b) \<le> 4"
  by (auto simp: split_nat_def Let_def)

lemma split_narrows:
  assumes "s < t" "(x, y) \<in> set (split s t)"
  shows "s \<le> x" "x \<le> y" "y \<le> t" "unat y - unat x < unat t - unat s"
proof -
  have "(unat x, unat y) \<in> set (split_nat (unat s) (unat t))"
    using assms by (force simp flip: split_split_nat [of s t])
  from split_nat_narrows [OF _ this] assms(1) show "s \<le> x" "x \<le> y" "y \<le> t" "unat y - unat x < unat t - unat s"
    by (simp_all add: word_le_nat_alt word_less_nat_alt)
qed

text \<open>
  C26: Splitting a range loses and repeats nothing: the children, in order, enumerate exactly the
  digests of the range, there are at most four of them, and every child of a range of more than one
  digest is strictly narrower, so the descent over divergent ranges ends.
\<close>

theorem split_partitions:
  assumes "s \<le> t"
  shows "concat (map (\<lambda>(x, y). [unat x ..< unat y + 1]) (split s t)) = [unat s ..< unat t + 1] \<and>
    length (split s t) \<le> FANOUT \<and>
    (s < t \<longrightarrow> (\<forall>(x, y)\<in>set (split s t). x \<le> y \<and> unat y - unat x < unat t - unat s))"
proof (intro conjI impI ballI)
  have "map (\<lambda>(x, y). [unat x ..< unat y + 1]) (split s t) = map (\<lambda>(x, y). [x ..< y + 1]) (split_nat (unat s) (unat t))"
    unfolding split_split_nat [OF assms, symmetric] map_map by (simp add: comp_def case_prod_unfold del: upt_Suc)
  with split_nat_covers [of "unat s" "unat t"] assms
  show "concat (map (\<lambda>(x, y). [unat x ..< unat y + 1]) (split s t)) = [unat s ..< unat t + 1]"
    by (simp add: word_le_nat_alt del: upt_Suc)
  have "length (split s t) = length (split_nat (unat s) (unat t))"
    unfolding split_split_nat [OF assms, symmetric] by simp
  then show "length (split s t) \<le> FANOUT" using split_nat_length [of "unat s" "unat t"] by (simp add: FANOUT_def)
  show "case p of (x, y) \<Rightarrow> x \<le> y \<and> unat y - unat x < unat t - unat s" if "s < t" "p \<in> set (split s t)" for p
    using split_narrows [OF that(1), of "fst p" "snd p"] that(2) by (simp add: case_prod_unfold)
qed

theorem split_partitions_witness: "concat (map (\<lambda>(x, y). [unat x ..< unat y + 1]) (split 3 9)) = [3 ..< 10]"
  using split_partitions [of 3 9] by (simp del: upt_Suc)

subsection \<open>Aggregates of inclusive ranges\<close>

lemma less_top_succ: "(t :: u64) < - 1 \<Longrightarrow> d < t + 1 \<longleftrightarrow> d \<le> t"
proof -
  assume "t < - 1"
  then have "t + 1 \<noteq> 0" by (auto simp flip: eq_neg_iff_add_eq_0)
  then have "unat (t + 1) = unat t + 1" using unatSuc [of t] by (simp add: add.commute)
  then show ?thesis by (simp add: word_less_nat_alt word_le_nat_alt less_Suc_eq_le)
qed

text \<open>The group law at the top of the digest space and the index query elsewhere agree.\<close>

lemma range_aggregate_correct:
  assumes ok: "index_ok ix"
  shows "range_aggregate ix s t = set_aggregate {d \<in> dom (index_map ix). s \<le> d \<and> d \<le> t}"
proof (cases "t < - 1")
  case True
  then show ?thesis by (simp add: range_aggregate_def fi.range_set [OF ok] less_top_succ)
next
  case False
  then have t: "t = - 1" using word_le_less_eq word_order.extremum by blast
  have "combine (aggregate (filter (\<lambda>d. d < s) (map fst (iter_index ix)))) (aggregate (filter (\<lambda>d. s \<le> d) (map fst (iter_index ix)))) =
      aggregate (map fst (iter_index ix))"
    using aggregate_filter_partition [of "\<lambda>_. True" "map fst (iter_index ix)" "\<lambda>d. d < s"] by (simp add: not_less)
  then have "range_aggregate ix s t = aggregate (filter (\<lambda>d. s \<le> d) (map fst (iter_index ix)))"
    using ok False by (simp add: range_aggregate_def remove_fp_inverse index_ok_def fi.prefix_law [OF ok] fp.comb_neg_eq fp.comb_commute)
  then show ?thesis
    by (simp add: t fi.iter_digests [OF ok] set_aggregate_def fi.filter_sorted_list_of_set fi.finite_dom [OF ok])
qed

text \<open>
  C27: The fingerprint the engine compares for an inclusive range is the fingerprint of exactly the
  digests it holds in that range, at the top of the digest space as well; so two engines holding the
  same digests in a range always report the same fingerprint for it.
\<close>

theorem range_aggregate_exact:
  assumes "index_ok ix"
  shows "range_aggregate ix s t = set_aggregate {d \<in> dom (index_map ix). s \<le> d \<and> d \<le> t}"
  by (rule range_aggregate_correct [OF assms])

theorem range_aggregate_exact_witness:
  "range_aggregate (new_index :: row findex) 3 (- 1) = set_aggregate {d \<in> dom (index_map (new_index :: row findex)). 3 \<le> d \<and> d \<le> - 1}"
  using range_aggregate_exact [OF index_ok_new, of 3 "- 1"] .

subsection \<open>The dirty set\<close>

text \<open>
  A dirty set is a list of intervals, in order, with a gap of at least one digest between two of
  them. It covers the digests of its intervals.
\<close>

definition apart :: "u64 \<times> u64 \<Rightarrow> u64 \<times> u64 \<Rightarrow> bool" where
  "apart p q \<longleftrightarrow> unat (snd p) + 1 < unat (fst q)"

definition dirty_wf :: "(u64 \<times> u64) list \<Rightarrow> bool" where
  "dirty_wf bs \<longleftrightarrow> sorted_wrt apart bs \<and> (\<forall>p\<in>set bs. fst p \<le> snd p)"

definition covered :: "(u64 \<times> u64) set \<Rightarrow> u64 set" where
  "covered B = {d. \<exists>p\<in>B. fst p \<le> d \<and> d \<le> snd p}"

definition touches :: "u64 \<Rightarrow> u64 \<times> u64 \<Rightarrow> bool" where
  "touches d p \<longleftrightarrow> unat (fst p) \<le> unat d + 1 \<and> unat d \<le> unat (snd p) + 1"

lemma sat_bounds: "bs \<le> sat_succ d \<and> sat_pred d \<le> bt \<longleftrightarrow> touches d (bs, bt)"
proof -
  have "unat (sat_pred d) = unat d - 1"
    by (cases "d = 0") (simp_all add: sat_pred_def unat_minus_one)
  moreover have "unat bs \<le> unat (sat_succ d) \<longleftrightarrow> unat bs \<le> unat d + 1"
  proof (cases "d = - 1")
    case True
    then have "unat d = 2 ^ 64 - 1" by (simp add: unsigned_minus_1_eq_mask mask_eq_exp_minus_1)
    then have "unat bs \<le> unat (sat_succ d)" "unat bs \<le> unat d + 1"
      unfolding sat_succ_def if_P [OF True] using u64_less [of bs] by linarith+
    then show ?thesis by simp
  next
    case False
    then have "d + 1 \<noteq> 0" by (auto simp flip: eq_neg_iff_add_eq_0)
    then show ?thesis using False unatSuc [of d] by (simp add: sat_succ_def add.commute)
  qed
  ultimately show ?thesis by (auto simp: touches_def word_le_nat_alt)
qed

lemma absorb_bounds_eq:
  "absorb_bounds d bs s t rest = rest @ filter (\<lambda>p. \<not> touches d p) bs @
     [(fold min (map fst (filter (touches d) bs)) s, fold max (map snd (filter (touches d) bs)) t)]"
  by (induction d bs s t rest rule: absorb_bounds.induct) (simp_all add: sat_bounds min.commute max.commute)

text \<open>Merging keeps the grown interval around the digest and apart from what it does not touch.\<close>

definition grown :: "u64 \<Rightarrow> (u64 \<times> u64) set \<Rightarrow> u64 \<times> u64 \<Rightarrow> bool" where
  "grown d T p \<longleftrightarrow> fst p \<le> d \<and> d \<le> snd p \<and> {x. fst p \<le> x \<and> x \<le> snd p} = insert d (covered T)"

lemma merge_intervals:
  fixes A B D S T X :: nat
  assumes "S \<le> D" "D \<le> T" "A \<le> D + 1" "D \<le> B + 1" "A \<le> B"
  shows "(S \<le> X \<or> A \<le> X) \<and> (X \<le> T \<or> X \<le> B) \<longleftrightarrow> (S \<le> X \<and> X \<le> T) \<or> (A \<le> X \<and> X \<le> B)"
  using assms by arith

lemma grown_step:
  assumes "grown d T (s, t)" "touches d p" "fst p \<le> snd p"
  shows "grown d (insert p T) (min s (fst p), max t (snd p))"
proof -
  have "min s (fst p) \<le> x \<and> x \<le> max t (snd p) \<longleftrightarrow> (s \<le> x \<and> x \<le> t) \<or> (fst p \<le> x \<and> x \<le> snd p)" for x
    unfolding min_le_iff_disj le_max_iff_disj unfolding word_le_nat_alt
    by (rule merge_intervals [of _ "unat d"])
      (use assms in \<open>simp_all add: grown_def touches_def word_le_nat_alt\<close>)
  then have "{x. min s (fst p) \<le> x \<and> x \<le> max t (snd p)} = {x. s \<le> x \<and> x \<le> t} \<union> {x. fst p \<le> x \<and> x \<le> snd p}"
    by blast
  moreover have "covered (insert p T) = covered T \<union> {x. fst p \<le> x \<and> x \<le> snd p}"
    by (auto simp: covered_def)
  ultimately show ?thesis using assms(1) by (auto simp: grown_def min_le_iff_disj le_max_iff_disj)
qed

lemma grown_fold:
  assumes "\<forall>p\<in>set ps. touches d p \<and> fst p \<le> snd p" "grown d T (s, t)"
  shows "grown d (set ps \<union> T) (fold min (map fst ps) s, fold max (map snd ps) t)"
  using assms
proof (induction ps arbitrary: s t T)
  case (Cons p ps)
  have "grown d (insert p T) (min s (fst p), max t (snd p))" using Cons.prems by (intro grown_step) simp_all
  from Cons.IH [OF _ this] Cons.prems(1) show ?case by (simp add: min.commute max.commute)
qed simp

lemma untouched_apart:
  assumes q: "\<not> touches d q" "fst q \<le> snd q" and T: "\<forall>p\<in>T. touches d p \<and> (apart p q \<or> apart q p)"
    and g: "grown d T (s, t)"
  shows "apart q (s, t) \<or> apart (s, t) q"
proof -
  have ends: "x = d \<or> (\<exists>p\<in>T. fst p \<le> x \<and> x \<le> snd p)" if "x = s \<or> x = t" for x
  proof -
    from g have I: "s \<le> d" "d \<le> t" "{x. s \<le> x \<and> x \<le> t} = insert d (covered T)" by (simp_all add: grown_def)
    have "x \<in> {x. s \<le> x \<and> x \<le> t}" using that order.trans [OF I(1,2)] by auto
    then have "x \<in> insert d (covered T)" unfolding I(3) .
    then show ?thesis by (simp add: covered_def)
  qed
  note nat = apart_def touches_def word_le_nat_alt
  from q consider "unat d + 1 < unat (fst q)" | "unat (snd q) + 1 < unat d" by (fastforce simp: touches_def)
  then show ?thesis
  proof cases
    case 1
    from ends [of t] have "unat t + 1 < unat (fst q)" using 1 q T by (fastforce simp: nat)
    then show ?thesis by (simp add: apart_def)
  next
    case 2
    from ends [of s] have "unat (snd q) + 1 < unat s" using 2 q T by (fastforce simp: nat)
    then show ?thesis by (simp add: apart_def)
  qed
qed

lemma apart_sorted:
  assumes "distinct xs" "\<forall>p\<in>set xs. fst p \<le> snd p" "\<forall>p\<in>set xs. \<forall>q\<in>set xs. p \<noteq> q \<longrightarrow> apart p q \<or> apart q p"
  shows "dirty_wf (sort xs)"
proof -
  have "sorted_wrt (<) (sort xs)" using assms(1) by (simp add: strict_sorted_iff)
  then have "sorted_wrt apart (sort xs)"
  proof (rule sorted_wrt_mono_rel [rotated])
    fix p q assume pq: "p \<in> set (sort xs)" "q \<in> set (sort xs)" "p < q"
    moreover have "q < p" if "apart q p"
      using that pq assms(2) by (force simp: apart_def less_prod_def word_le_nat_alt word_less_nat_alt)
    ultimately show "apart p q" using assms(3) by (metis order.asym order.irrefl set_sort)
  qed
  with assms(2) show ?thesis by (simp add: dirty_wf_def)
qed

lemma apart_irrefl: "fst p \<le> snd p \<Longrightarrow> \<not> apart p p"
  by (simp add: apart_def word_le_nat_alt)

lemma dirty_wf_apart:
  assumes "dirty_wf bs" "p \<in> set bs" "q \<in> set bs" "p \<noteq> q"
  shows "apart p q \<or> apart q p"
proof -
  obtain i j where "i < length bs" "j < length bs" "bs ! i = p" "bs ! j = q" using assms(2,3) by (auto simp: in_set_conv_nth)
  moreover from this assms(4) have "i < j \<or> j < i" by (metis linorder_neqE_nat)
  ultimately show ?thesis using assms(1) by (auto simp: dirty_wf_def sorted_wrt_iff_nth_less)
qed

lemma dirty_wf_distinct: "dirty_wf bs \<Longrightarrow> distinct bs"
  unfolding dirty_wf_def by (induction bs) (auto simp: apart_irrefl)

lemma covered_Un: "covered (A \<union> B) = covered A \<union> covered B"
  by (auto simp: covered_def)

lemma absorb_bounds_correct:
  assumes wf: "dirty_wf bs"
  shows "dirty_wf (sort (absorb_bounds d bs d d []))"
    "covered (set (absorb_bounds d bs d d [])) = insert d (covered (set bs))"
proof -
  let ?T = "filter (touches d) bs" and ?N = "filter (\<lambda>p. \<not> touches d p) bs"
  let ?I = "(fold min (map fst ?T) d, fold max (map snd ?T) d)"
  have eq: "absorb_bounds d bs d d [] = ?N @ [?I]" by (simp add: absorb_bounds_eq)
  have ok: "fst p \<le> snd p" if "p \<in> set bs" for p using wf that by (simp add: dirty_wf_def)
  have "grown d {} (d, d)" by (auto simp: grown_def covered_def)
  from grown_fold [OF _ this, of ?T] ok have g: "grown d (set ?T) ?I" by simp
  have I: "touches d ?I" "fst ?I \<le> snd ?I" using g by (auto simp: grown_def touches_def word_le_nat_alt)
  have NI: "apart q ?I \<or> apart ?I q" if "q \<in> set ?N" for q
  proof (rule untouched_apart [OF _ _ _ g])
    show "\<not> touches d q" "fst q \<le> snd q" using that ok [of q] by simp_all
    show "\<forall>p\<in>set ?T. touches d p \<and> (apart p q \<or> apart q p)"
    proof
      fix p assume "p \<in> set ?T"
      then show "touches d p \<and> (apart p q \<or> apart q p)" using that dirty_wf_apart [OF wf, of p q] by auto
    qed
  qed
  show "dirty_wf (sort (absorb_bounds d bs d d []))" unfolding eq
  proof (rule apart_sorted)
    show "distinct (?N @ [?I])" using dirty_wf_distinct [OF wf] I(1) by auto
    show "\<forall>p\<in>set (?N @ [?I]). fst p \<le> snd p" using ok I(2) by auto
    show "\<forall>p\<in>set (?N @ [?I]). \<forall>q\<in>set (?N @ [?I]). p \<noteq> q \<longrightarrow> apart p q \<or> apart q p"
      using NI dirty_wf_apart [OF wf] by auto
  qed
  have "covered (set (?N @ [?I])) = covered (set ?N) \<union> {x. fst ?I \<le> x \<and> x \<le> snd ?I}" by (auto simp: covered_def)
  also have "\<dots> = insert d (covered (set ?N) \<union> covered (set ?T))" using g by (auto simp: grown_def)
  also have "covered (set ?N) \<union> covered (set ?T) = covered (set bs)"
    unfolding covered_Un [symmetric] by (rule arg_cong [where f = covered]) auto
  finally show "covered (set (absorb_bounds d bs d d [])) = insert d (covered (set bs))" unfolding eq .
qed

lemma absorb_bounds_length:
  "length (absorb_bounds d bs d d []) = length (filter (\<lambda>p. \<not> touches d p) bs) + 1"
  by (simp add: absorb_bounds_eq)

lemma covered_touches: "d \<in> covered B \<Longrightarrow> \<exists>p\<in>B. touches d p"
  by (auto simp: covered_def touches_def word_le_nat_alt) force

text \<open>
  C23: The set of changed ranges is exact. Marking a digest keeps the ranges in order with a gap
  between any two, and covers the digest and what was covered before, nothing else. Only a full set
  falls back to the whole digest space, and only for a digest it did not cover.
\<close>

theorem mark_dirty_exact:
  assumes "en_dirty e = Some bs" "dirty_wf bs" "length bs \<le> MAX_RANGES_PER_MESSAGE"
  shows "case en_dirty (mark_dirty d e) of
      None \<Rightarrow> length bs = MAX_RANGES_PER_MESSAGE \<and> d \<notin> covered (set bs)
    | Some bs' \<Rightarrow> dirty_wf bs' \<and> length bs' \<le> MAX_RANGES_PER_MESSAGE \<and> covered (set bs') = insert d (covered (set bs))"
proof -
  have "length (filter (\<lambda>p. \<not> touches d p) bs) < length bs" if "d \<in> covered (set bs)"
    using covered_touches [OF that] by (auto intro: length_filter_less)
  note shrinks = this length_filter_le [of "\<lambda>p. \<not> touches d p" bs]
  show ?thesis
  proof (cases "MAX_RANGES_PER_MESSAGE < length (absorb_bounds d bs d d [])")
    case True
    then have "MAX_RANGES_PER_MESSAGE \<le> length (filter (\<lambda>p. \<not> touches d p) bs)" by (simp add: absorb_bounds_length)
    with shrinks assms(3) have "length bs = MAX_RANGES_PER_MESSAGE" "d \<notin> covered (set bs)" by linarith+
    with True assms(1) show ?thesis by (simp add: mark_dirty_def Let_def)
  next
    case False
    with assms(1) absorb_bounds_correct [OF assms(2), of d] show ?thesis by (simp add: mark_dirty_def Let_def)
  qed
qed

theorem mark_dirty_exact_witness:
  "case en_dirty (mark_dirty 7 ((new_engine Trust)\<lparr>en_dirty := Some [(5, 6), (9, 9)]\<rparr>)) of None \<Rightarrow> False
    | Some bs' \<Rightarrow> dirty_wf bs' \<and> covered (set bs') = insert 7 (covered (set [(5, 6), (9, 9)]))"
  using mark_dirty_exact [of "(new_engine Trust)\<lparr>en_dirty := Some [(5, 6), (9, 9)]\<rparr>" "[(5, 6), (9, 9)]" 7]
  by (auto simp: dirty_wf_def apart_def MAX_RANGES_PER_MESSAGE_def split: option.splits)

subsection \<open>Who initiates\<close>

lemma linear_order_facts:
  fixes x y z :: "'a::linorder"
  shows "(x \<noteq> y \<longleftrightarrow> (x < y \<longleftrightarrow> \<not> y < x)) \<and> \<not> (x < y \<and> y < x) \<and> (x < y \<and> y < z \<longrightarrow> x < z)"
  by auto



end
