(* ===== verification/Engine_Safety.thy ===== *)
theory Engine_Safety
  imports Engine_Ranges
begin

text \<open>
  The invariant of the reconciliation engine and what every drive keeps of it: bounded queues and
  sets, and only messages that the wire codec can encode.
\<close>

subsection \<open>Sizes of messages\<close>

definition sendable :: "message \<Rightarrow> bool" where
  "sendable m \<longleftrightarrow> (\<exists>w. message_to_wire m = Inr w \<and> length (enc_item (wire_item w)) \<le> MAX_BODY_BYTES)"

lemma sendable_encode:
  "decoder_ok md \<Longrightarrow> wire_codec_ok wc \<Longrightarrow> sendable m \<longleftrightarrow> (\<exists>b. encode_message md wc m = Some (Inr b))"
  by (simp add: encode_message_iff sendable_def)

definition row_ok :: "row \<Rightarrow> bool" where
  "row_ok r \<longleftrightarrow> row_fits_message (length (row_key r)) (length (row_content r))"

definition rows_ok :: "row list \<Rightarrow> bool" where
  "rows_ok rs \<longleftrightarrow> length rs \<le> MAX_ROWS_PER_MESSAGE \<and> (\<forall>r\<in>set rs. row_ok r) \<and>
     (length rs \<le> 1 \<or> sum_list (map row_bytes rs) \<le> ROW_BYTES_BUDGET)"

abbreviation wire_row :: "row \<Rightarrow> row_wire" where
  "wire_row r \<equiv> \<lparr>ww_key = row_key r, ww_content = row_content r\<rparr>"

abbreviation wire_range :: "range_fingerprint \<Rightarrow> range_wire" where
  "wire_range r \<equiv> \<lparr>rw_start = rf_start r, rw_end = rf_end r, rw_count = rf_count r, rw_xor = rf_xor r\<rparr>"

abbreviation wire_bound :: "digest_range \<Rightarrow> bound_wire" where
  "wire_bound r \<equiv> \<lparr>bw_start = dr_start r, bw_end = dr_end r\<rparr>"

lemma head_small: "n < 24 \<Longrightarrow> canonical_len n = 1" "n < 256 \<Longrightarrow> canonical_len n \<le> 2" "n < 65536 \<Longrightarrow> canonical_len n \<le> 3"
  by (simp_all add: canonical_len_def)

lemma range_item_len: "length (enc_item (range_item r)) \<le> 37"
  using canonical_len_bounds(2) [of "unat (rw_start r)"] canonical_len_bounds(2) [of "unat (rw_end r)"]
    canonical_len_bounds(2) [of "unat (rw_count r)"] canonical_len_bounds(2) [of "unat (rw_xor r)"]
  by (simp add: range_item_def length_enc_head) (simp add: canonical_len_def)

lemma bound_item_len: "length (enc_item (bound_item r)) \<le> 19"
  using canonical_len_bounds(2) [of "unat (bw_start r)"] canonical_len_bounds(2) [of "unat (bw_end r)"]
  by (simp add: bound_item_def length_enc_head) (simp add: canonical_len_def)

lemma row_item_len_eq: "length (enc_item (row_item (wire_row r))) = single_row_message_len (length (row_key r)) (length (row_content r)) - 4"
  by (simp add: row_item_def length_enc_head single_row_message_len_def bstr_header_len_eq) (simp add: canonical_len_def)

lemma row_ok_bounds: "row_ok r \<Longrightarrow> length (row_key r) < 65536 \<and> length (row_content r) < 65536"
  by (simp add: row_ok_def row_fits_message_def single_row_message_len_def MAX_BODY_BYTES_def bstr_header_len_def split: if_splits)

lemma row_item_len:
  assumes "row_ok r"
  shows "length (enc_item (row_item (wire_row r))) \<le> 7 + row_bytes r"
  using row_ok_bounds [OF assms] head_small(3) [of "length (row_key r)"] head_small(3) [of "length (row_content r)"]
  by (simp add: row_item_len_eq single_row_message_len_def bstr_header_len_eq)

lemma concat_len_le:
  "(\<And>x. x \<in> set xs \<Longrightarrow> length (f x) \<le> g x) \<Longrightarrow> length (concat (map f xs)) \<le> sum_list (map g xs)"
  by (induction xs) (auto intro: add_mono)

lemma sum_list_const_add: "sum_list (map (\<lambda>x. c + f x) xs) = c * length xs + sum_list (map f xs)" for c :: nat
  by (induction xs) simp_all

lemma items_len:
  "length rs \<le> n \<Longrightarrow> length (concat (map (enc_item \<circ> range_item) rs)) \<le> 37 * n"
  "length bs \<le> n \<Longrightarrow> length (concat (map (enc_item \<circ> bound_item) bs)) \<le> 19 * n"
proof -
  show "length (concat (map (enc_item \<circ> range_item) rs)) \<le> 37 * n" if "length rs \<le> n"
    using concat_len_le [of rs "enc_item \<circ> range_item" "\<lambda>_. 37"] that range_item_len by (simp add: sum_list_triv)
  show "length (concat (map (enc_item \<circ> bound_item) bs)) \<le> 19 * n" if "length bs \<le> n"
    using concat_len_le [of bs "enc_item \<circ> bound_item" "\<lambda>_. 19"] that bound_item_len by (simp add: sum_list_triv)
qed

lemma rows_len:
  assumes "\<forall>r\<in>set rs. row_ok r"
  shows "length (concat (map (enc_item \<circ> row_item \<circ> wire_row) rs)) \<le> 7 * length rs + sum_list (map row_bytes rs)"
proof -
  have "length (concat (map (enc_item \<circ> row_item \<circ> wire_row) rs)) \<le> sum_list (map (\<lambda>r. 7 + row_bytes r) rs)"
    using assms row_item_len by (intro concat_len_le) simp
  then show ?thesis unfolding sum_list_const_add .
qed

lemma sendable_root: "sendable (Root l c x)"
  using canonical_len_bounds(2) [of "unat c"] canonical_len_bounds(2) [of "unat x"]
  by (simp add: sendable_def message_to_wire_def length_enc_head lane_code_small MAX_BODY_BYTES_def)
    (simp add: canonical_len_def kind_codes)

lemma sendable_done: "sendable (Done l t)"
  using canonical_len_bounds(2) [of "unat t"]
  by (simp add: sendable_def message_to_wire_def length_enc_head lane_code_small MAX_BODY_BYTES_def)
    (simp add: canonical_len_def kind_codes)

lemma kind_len: "canonical_len (unat KIND_HINT) = 1" "canonical_len (unat KIND_OFFER) = 1" "canonical_len (unat KIND_NEED) = 1"
  "canonical_len (unat KIND_ROWS) = 1"
  by (simp_all add: kind_codes canonical_len_def)

lemma sendable_offer:
  assumes "message_ok (Offer l rs)"
  shows "sendable (Offer l rs)"
proof -
  from assms have n: "length rs \<le> 32" by (simp add: MAX_RANGES_PER_MESSAGE_def)
  have "message_to_wire (Offer l rs) = Inr (OfferWire KIND_OFFER (lane_code l) (map wire_range rs))"
    using assms check_ranges_iff [of rs] by (simp add: message_to_wire_def ranges_to_wire_def)
  moreover have "length (concat (map (enc_item \<circ> range_item) (map wire_range rs))) \<le> 37 * 32"
    using n by (intro items_len(1)) simp
  ultimately show ?thesis
    using n head_small(2) [of "length rs"]
    by (simp add: sendable_def length_enc_head lane_code_small kind_len MAX_BODY_BYTES_def comp_assoc)
      (simp add: canonical_len_def)
qed

lemma sendable_need:
  assumes "message_ok (Need l bs)"
  shows "sendable (Need l bs)"
proof -
  from assms have n: "length bs \<le> 32" by (simp add: MAX_RANGES_PER_MESSAGE_def)
  have "message_to_wire (Need l bs) = Inr (NeedWire KIND_NEED (lane_code l) (map wire_bound bs))"
    using assms check_bounds_iff [of bs] by (simp add: message_to_wire_def bounds_to_wire_def)
  moreover have "length (concat (map (enc_item \<circ> bound_item) (map wire_bound bs))) \<le> 19 * 32"
    using n by (intro items_len(2)) simp
  ultimately show ?thesis
    using n head_small(2) [of "length bs"]
    by (simp add: sendable_def length_enc_head lane_code_small kind_len MAX_BODY_BYTES_def comp_assoc)
      (simp add: canonical_len_def)
qed

lemma sendable_hint:
  assumes "message_ok (Hint l rs ws)" "\<forall>r\<in>set ws. row_ok r" "sum_list (map row_bytes ws) \<le> EAGER_DELTA_BYTES"
  shows "sendable (Hint l rs ws)"
proof -
  from assms(1) have n: "length rs \<le> 32" "length ws \<le> 64" by (simp_all add: MAX_RANGES_PER_MESSAGE_def MAX_ROWS_PER_MESSAGE_def)
  have "message_to_wire (Hint l rs ws) = Inr (HintWire KIND_HINT (lane_code l) (map wire_range rs) (map wire_row ws))"
    using assms(1) check_ranges_iff [of rs] by (simp add: message_to_wire_def ranges_to_wire_def rows_to_wire_def)
  moreover have "length (concat (map (enc_item \<circ> range_item) (map wire_range rs))) \<le> 37 * 32"
    using n by (intro items_len(1)) simp
  moreover have "length (concat (map (enc_item \<circ> row_item \<circ> wire_row) ws)) \<le> 7 * 64 + 4096"
    using rows_len [OF assms(2)] n assms(3) by (simp add: EAGER_DELTA_BYTES_def)
  ultimately show ?thesis
    using n head_small(2) [of "length rs"] head_small(2) [of "length ws"]
    by (simp add: sendable_def length_enc_head lane_code_small kind_len MAX_BODY_BYTES_def comp_assoc)
      (simp add: canonical_len_def)
qed

lemma sendable_rows:
  assumes "rows_ok rs"
  shows "sendable (Rows l rs)"
proof -
  from assms have n: "length rs \<le> 64" and ok: "\<forall>r\<in>set rs. row_ok r" by (simp_all add: rows_ok_def MAX_ROWS_PER_MESSAGE_def)
  have w: "message_to_wire (Rows l rs) = Inr (RowsWire KIND_ROWS (lane_code l) (map wire_row rs))"
    using assms by (simp add: message_to_wire_def rows_to_wire_def rows_ok_def)
  have len: "length (concat (map (enc_item \<circ> row_item \<circ> wire_row) rs)) \<le> 65532" if "rs \<noteq> []"
  proof (cases "length rs \<le> 1")
    case True
    with that obtain r where "rs = [r]" by (cases rs) auto
    with ok show ?thesis by (simp add: row_item_len_eq row_ok_def row_fits_message_def MAX_BODY_BYTES_def)
  next
    case False
    with assms have "sum_list (map row_bytes rs) \<le> 49152" by (simp add: rows_ok_def ROW_BYTES_BUDGET_def)
    with rows_len [OF ok] n show ?thesis by simp
  qed
  show ?thesis
  proof (cases "length rs < 24")
    case True
    with w len head_small(1) [of "length rs"] show ?thesis
      by (cases "rs = []") (simp_all add: sendable_def length_enc_head lane_code_small kind_len MAX_BODY_BYTES_def comp_assoc head_small)
  next
    case False
    then have "sum_list (map row_bytes rs) \<le> 49152" using assms by (simp add: rows_ok_def ROW_BYTES_BUDGET_def)
    with w rows_len [OF ok] n canonical_len_bounds(2) [of "length rs"] show ?thesis
      by (simp add: sendable_def length_enc_head lane_code_small kind_len MAX_BODY_BYTES_def comp_assoc head_small)
  qed
qed

text \<open>A message that fits the wire carries only rows that fit a message alone.\<close>

lemma wire_row_fits:
  assumes "r \<in> set rs" "n + length (concat (map (enc_item \<circ> row_item \<circ> wire_row) rs)) \<le> MAX_BODY_BYTES" "4 \<le> n"
  shows "row_ok r"
  using length_in_concat [OF assms(1), of "enc_item \<circ> row_item \<circ> wire_row"] assms(2,3)
  by (simp add: row_item_len_eq row_ok_def row_fits_message_def)

lemma sendable_row_ok:
  "sendable (Rows l rs) \<Longrightarrow> r \<in> set rs \<Longrightarrow> row_ok r"
  "sendable (Hint l hs rs) \<Longrightarrow> r \<in> set rs \<Longrightarrow> row_ok r"
proof -
  have h: "1 \<le> canonical_len n" for n by (rule canonical_len_bounds)
  show "row_ok r" if "sendable (Rows l rs)" "r \<in> set rs"
  proof (rule wire_row_fits [OF that(2)])
    from that(1) show "(3 + canonical_len (length rs)) + length (concat (map (enc_item \<circ> row_item \<circ> wire_row) rs)) \<le> MAX_BODY_BYTES"
      by (auto simp: sendable_def message_to_wire_def rows_to_wire_def length_enc_head lane_code_small kind_len comp_assoc head_small
          split: if_splits)
  qed (use h [of "length rs"] in simp)
  show "row_ok r" if "sendable (Hint l hs rs)" "r \<in> set rs"
  proof (rule wire_row_fits [OF that(2)])
    from that(1) show "(3 + canonical_len (length hs) + length (concat (map (enc_item \<circ> range_item \<circ> wire_range) hs)) + canonical_len (length rs)) +
        length (concat (map (enc_item \<circ> row_item \<circ> wire_row) rs)) \<le> MAX_BODY_BYTES"
      by (auto simp: sendable_def message_to_wire_def Let_def rbind_eq_Inr ranges_to_wire_def rows_to_wire_def length_enc_head lane_code_small
          kind_len comp_assoc head_small split: if_splits)
  qed (use h [of "length rs"] h [of "length hs"] in simp)
qed

subsection \<open>Packing rows\<close>

fun message_rows :: "message \<Rightarrow> row list" where
  "message_rows (Rows _ rs) = rs" | "message_rows _ = []"

text \<open>What the packing loop keeps, for an open chunk within the budget.\<close>

definition chunk_ok :: "row list \<Rightarrow> nat \<Rightarrow> bool" where
  "chunk_ok chunk n \<longleftrightarrow> rows_ok chunk \<and> n = sum_list (map row_bytes chunk)"

lemma chunk_ok_snoc:
  assumes "chunk_ok chunk n" "row_ok r" "\<not> (chunk \<noteq> [] \<and> (MAX_ROWS_PER_MESSAGE \<le> length chunk \<or> ROW_BYTES_BUDGET < n + row_bytes r))"
  shows "chunk_ok (chunk @ [r]) (n + row_bytes r)"
  using assms by (cases "chunk = []") (auto simp: chunk_ok_def rows_ok_def MAX_ROWS_PER_MESSAGE_def)

lemma chunk_ok_single: "row_ok r \<Longrightarrow> chunk_ok [r] (row_bytes r)"
  by (simp add: chunk_ok_def rows_ok_def MAX_ROWS_PER_MESSAGE_def)

lemma pack_rows_ok:
  assumes "pack_rows lane rs chunk n room out = (out', chunk', room', stopped)" "chunk_ok chunk n" "\<forall>r\<in>set rs. row_ok r"
    "\<forall>m\<in>set out. \<exists>c. m = Rows lane c \<and> rows_ok c"
  shows "(\<forall>m\<in>set out'. \<exists>c. m = Rows lane c \<and> rows_ok c) \<and> rows_ok chunk' \<and> length out' + room' = length out + room"
  using assms
proof (induction lane rs chunk n room out rule: pack_rows.induct)
  case (1 lane chunk n room out)
  then show ?case by (auto simp: chunk_ok_def)
next
  case (2 lane r rs chunk n room out)
  let ?full = "chunk \<noteq> [] \<and> (MAX_ROWS_PER_MESSAGE \<le> length chunk \<or> ROW_BYTES_BUDGET < n + row_bytes r)"
  consider "?full" "room = 0" | "?full" "0 < room" | "\<not> ?full" by blast
  then show ?case
  proof cases
    case 1
    with 2(3) have "out' = out" "chunk' = chunk" "room' = room" by (simp_all split: if_splits)
    with 2(4,6) show ?thesis by (simp add: chunk_ok_def)
  next
    case a: 2
    then have run: "pack_rows lane rs [r] (row_bytes r) (room - 1) (out @ [Rows lane chunk]) = (out', chunk', room', stopped)"
      using 2(3) by (simp split: if_splits)
    have "rows_ok chunk" using 2(4) by (simp add: chunk_ok_def)
    with 2(1) [OF a(1) _ run chunk_ok_single] 2(5,6) a(2) show ?thesis by auto
  next
    case 3
    then have run: "pack_rows lane rs (chunk @ [r]) (n + row_bytes r) room out = (out', chunk', room', stopped)"
      using 2(3) by (simp split: if_splits)
    from 2(2) [OF 3 run chunk_ok_snoc [OF 2(4) _ 3]] 2(5,6) show ?thesis by auto
  qed
qed

lemma pack_rows_room:
  "pack_rows lane rs chunk n room out = (out', chunk', room', stopped) \<Longrightarrow>
     length out' + room' = length out + room \<and> (stopped \<longrightarrow> room' = 0)"
  by (induction lane rs chunk n room out rule: pack_rows.induct) (auto split: if_splits)

text \<open>The packed rows are a prefix of the input, and all of it unless the loop stopped.\<close>

lemma pack_rows_content:
  assumes "pack_rows lane rs chunk n room out = (out', chunk', room', stopped)"
  shows "\<exists>k. concat (map message_rows out') @ chunk' = concat (map message_rows out) @ chunk @ take k rs \<and>
    (\<not> stopped \<longrightarrow> length rs \<le> k)"
  using assms
proof (induction lane rs chunk n room out rule: pack_rows.induct)
  case (1 lane chunk n room out)
  then show ?case by auto
next
  case (2 lane r rs chunk n room out)
  let ?full = "chunk \<noteq> [] \<and> (MAX_ROWS_PER_MESSAGE \<le> length chunk \<or> ROW_BYTES_BUDGET < n + row_bytes r)"
  consider "?full" "room = 0" | "?full" "0 < room" | "\<not> ?full" by blast
  then show ?case
  proof cases
    case 1
    with 2(3) show ?thesis by (intro exI [of _ 0]) (auto split: if_splits)
  next
    case a: 2
    then have run: "pack_rows lane rs [r] (row_bytes r) (room - 1) (out @ [Rows lane chunk]) = (out', chunk', room', stopped)"
      using 2(3) by (simp split: if_splits)
    from 2(1) [OF a(1) _ run] a(2) obtain k where "concat (map message_rows out') @ chunk' =
        concat (map message_rows (out @ [Rows lane chunk])) @ [r] @ take k rs" "\<not> stopped \<longrightarrow> length rs \<le> k" by auto
    then show ?thesis by (intro exI [of _ "Suc k"]) simp
  next
    case 3
    then have run: "pack_rows lane rs (chunk @ [r]) (n + row_bytes r) room out = (out', chunk', room', stopped)"
      using 2(3) by (simp split: if_splits)
    from 2(2) [OF 3 run] obtain k where "concat (map message_rows out') @ chunk' =
        concat (map message_rows out) @ (chunk @ [r]) @ take k rs" "\<not> stopped \<longrightarrow> length rs \<le> k" by auto
    then show ?thesis by (intro exI [of _ "Suc k"]) simp
  qed
qed

subsection \<open>The invariant\<close>

definition store_ok :: "row findex \<Rightarrow> bool" where
  "store_ok ix \<longleftrightarrow> index_ok ix \<and> (\<forall>r\<in>ran (index_map ix). row_ok r)"

definition dirty_ok :: "(u64 \<times> u64) list option \<Rightarrow> bool" where
  "dirty_ok db \<longleftrightarrow> (case db of None \<Rightarrow> True | Some bs \<Rightarrow> dirty_wf bs \<and> length bs \<le> MAX_RANGES_PER_MESSAGE)"

definition queue_ok :: "lane_id \<Rightarrow> message list \<Rightarrow> bool" where
  "queue_ok l ms \<longleftrightarrow> (\<forall>m\<in>set ms. sendable m \<and> message_lane m = l) \<and> length (filter is_rows ms) \<le> ROWS_BACKLOG_CEILING"

definition hints_ok :: "range_fingerprint list list \<Rightarrow> bool" where
  "hints_ok hs \<longleftrightarrow> length hs \<le> HINT_PENDING_MAX \<and> (\<forall>h\<in>set hs. \<forall>r\<in>set h. rf_start r \<le> rf_end r)"

definition engine_ok :: "engine \<Rightarrow> bool" where
  "engine_ok e \<longleftrightarrow> store_ok (en_index e) \<and> dirty_ok (en_dirty e) \<and> queue_ok (en_lane e) (en_backlog e) \<and>
     length (en_pending_needs e) \<le> NEED_PENDING_BOUNDS \<and> hints_ok (en_pending_hints e) \<and>
     length (en_eager e) \<le> MAX_ROWS_PER_MESSAGE"

named_theorems engine_inv \<open>operations that keep the engine invariant\<close>

lemma queue_ok_append:
  "queue_ok l ms \<Longrightarrow> \<forall>m\<in>set ns. sendable m \<and> message_lane m = l \<and> \<not> is_rows m \<Longrightarrow> queue_ok l (ms @ ns)"
  by (auto simp: queue_ok_def filter_empty_conv)

lemma engine_ok_flags [engine_inv]:
  "engine_ok e \<Longrightarrow> engine_ok (e\<lparr>en_round_open := b\<rparr>)"
  "engine_ok e \<Longrightarrow> engine_ok (e\<lparr>en_awaiting := b\<rparr>)"
  "engine_ok e \<Longrightarrow> engine_ok (e\<lparr>en_peer_root := p\<rparr>)"
  "engine_ok e \<Longrightarrow> engine_ok (e\<lparr>en_pending_needs := []\<rparr>)"
  "engine_ok e \<Longrightarrow> engine_ok (e\<lparr>en_pending_hints := []\<rparr>)"
  "engine_ok e \<Longrightarrow> engine_ok (e\<lparr>en_eager := []\<rparr>)"
  "engine_ok e \<Longrightarrow> engine_ok (e\<lparr>en_dirty := Some []\<rparr>)"
  by (simp_all add: engine_ok_def hints_ok_def dirty_ok_def dirty_wf_def)

lemma engine_ok_new: "engine_ok (new_engine lane)"
  by (simp add: engine_ok_def new_engine_def store_ok_def index_ok_new index_map_new dirty_ok_def dirty_wf_def queue_ok_def hints_ok_def)

lemma store_ok_insert:
  assumes "store_ok ix" "row_ok r" "insert_index ix d r = (old, ix')"
  shows "store_ok ix'"
  using fi.insert_law [OF _ assms(3)] assms(1,2) by (auto simp: store_ok_def ran_def)

lemma store_ok_remove: "store_ok ix \<Longrightarrow> remove_index ix d = (old, ix') \<Longrightarrow> store_ok ix'"
  using fi.remove_law [of ix d old ix'] by (auto simp: store_ok_def ran_def split: if_splits)

lemma store_entry: "store_ok ix \<Longrightarrow> x \<in> set (iter_index ix) \<Longrightarrow> row_ok (snd x)"
  unfolding store_ok_def
  using fi.iter_law [of ix] sorted_keys_distinct [of "iter_index ix"]
  by (metis map_of_is_SomeI prod.collapse ranI)

lemma store_get: "store_ok ix \<Longrightarrow> get_index ix d = Some r \<Longrightarrow> row_ok r"
  by (auto simp: store_ok_def fi.get_law ran_def)

lemma rows_in_eq:
  assumes "index_ok ix"
  shows "rows_in ix s t = map snd (filter (\<lambda>x. s \<le> fst x \<and> fst x \<le> t) (iter_index ix))"
proof (cases "t < - 1")
  case True
  then show ?thesis by (simp add: rows_in_def fi.entries_law [OF assms] less_top_succ)
next
  case False
  then have "t = - 1" using word_le_less_eq word_order.extremum by blast
  then show ?thesis by (simp add: rows_in_def)
qed

lemma store_rows: "store_ok ix \<Longrightarrow> r \<in> set (rows_in ix s t) \<Longrightarrow> row_ok r"
  using rows_in_eq [of ix s t] store_entry [of ix] by (fastforce simp: store_ok_def)

lemma mark_dirty_ok: "dirty_ok (en_dirty e) \<Longrightarrow> dirty_ok (en_dirty (mark_dirty d e))"
  using absorb_bounds_correct(1) by (auto simp: mark_dirty_def dirty_ok_def Let_def split: option.splits)

lemma mark_dirty_fields [simp]:
  "en_index (mark_dirty d e) = en_index e" "en_lane (mark_dirty d e) = en_lane e" "en_backlog (mark_dirty d e) = en_backlog e"
  "en_pending_needs (mark_dirty d e) = en_pending_needs e" "en_pending_hints (mark_dirty d e) = en_pending_hints e"
  "en_eager (mark_dirty d e) = en_eager e" "en_round_open (mark_dirty d e) = en_round_open e"
  by (simp_all add: mark_dirty_def Let_def split: option.split)

lemma engine_ok_mark_dirty [engine_inv]: "engine_ok e \<Longrightarrow> engine_ok (mark_dirty d e)"
  by (simp add: engine_ok_def mark_dirty_ok)

lemma engine_ok_note_eager [engine_inv]: "engine_ok e \<Longrightarrow> engine_ok (note_eager d n e)"
  by (auto simp: engine_ok_def note_eager_def)

lemma engine_ok_index: "engine_ok e \<Longrightarrow> store_ok ix \<Longrightarrow> engine_ok (e\<lparr>en_index := ix\<rparr>)"
  by (simp add: engine_ok_def)

lemma engine_ok_queue [engine_inv]:
  "engine_ok e \<Longrightarrow> sendable m \<Longrightarrow> message_lane m = en_lane e \<Longrightarrow> \<not> is_rows m \<Longrightarrow> engine_ok (queue m e)"
  by (simp add: engine_ok_def queue_def queue_ok_append)

subsection \<open>Row operations\<close>

lemma insert_row_inner_ok:
  assumes "engine_ok e" "insert_row_inner dg k c eager e = (r, e')"
  shows "engine_ok e'"
proof (cases "row_fits_message (length k) (length c)")
  case True
  show ?thesis
  proof (cases "dg k c")
    case (Inl err)
    with assms True show ?thesis by (simp add: insert_row_inner_def)
  next
    case (Inr d)
    obtain old ix where ins: "insert_index (en_index e) d \<lparr>row_key = k, row_content = c\<rparr> = (old, ix)" by fastforce
    have "store_ok ix" using store_ok_insert [OF _ _ ins] assms(1) True by (simp add: engine_ok_def row_ok_def)
    then have ok: "engine_ok (e\<lparr>en_index := ix\<rparr>)" by (rule engine_ok_index [OF assms(1)])
    from assms(2) Inr True ins show ?thesis by (auto simp: insert_row_inner_def Let_def intro!: engine_inv ok split: if_splits)
  qed
qed (use assms in \<open>simp add: insert_row_inner_def\<close>)

lemma remove_row_ok:
  assumes "engine_ok e" "remove_row dg k c e = (r, e')"
  shows "engine_ok e'"
proof (cases "dg k c")
  case (Inl err)
  with assms show ?thesis by (simp add: remove_row_def)
next
  case (Inr d)
  obtain old ix where rem: "remove_index (en_index e) d = (old, ix)" by fastforce
  then have "engine_ok (e\<lparr>en_index := ix\<rparr>)"
    using assms(1) store_ok_remove [OF _ rem] by (intro engine_ok_index) (simp_all add: engine_ok_def)
  with assms(2) Inr rem show ?thesis by (auto simp: remove_row_def Let_def intro: engine_inv split: if_splits)
qed

lemma apply_rows_ok [engine_inv]:
  "engine_ok e \<Longrightarrow> \<forall>r\<in>set rs. row_ok r \<Longrightarrow> engine_ok (snd (apply_rows dg rs e))"
proof (induction rs arbitrary: e)
  case (Cons r rs)
  show ?case
  proof (cases "dg (row_key r) (row_content r)")
    case (Inr d)
    obtain old ix where ins: "insert_index (en_index e) d r = (old, ix)" by fastforce
    have "store_ok ix" using store_ok_insert [OF _ _ ins] Cons.prems by (simp add: engine_ok_def)
    then have "engine_ok (e\<lparr>en_index := ix\<rparr>)" by (rule engine_ok_index [OF Cons.prems(1)])
    with Inr ins Cons show ?thesis by (auto simp: Let_def intro: engine_inv)
  qed (use Cons.prems in simp)
qed simp

lemma apply_rows_fields:
  "en_lane (snd (apply_rows dg rs e)) = en_lane e \<and> en_round_open (snd (apply_rows dg rs e)) = en_round_open e \<and>
   en_backlog (snd (apply_rows dg rs e)) = en_backlog e"
proof (induction rs arbitrary: e)
  case (Cons r rs)
  then show ?case by (auto simp: Let_def split: sum.splits prod.splits)
qed simp

lemma push_rows_queues:
  assumes "engine_ok e"
  obtains out where "push_rows s t answer e = (length out, e\<lparr>en_backlog := en_backlog e @ out\<rparr>)"
    "\<forall>m\<in>set out. is_rows m \<and> sendable m \<and> message_lane m = en_lane e"
    "length out \<le> ROWS_BACKLOG_CEILING - queued_rows_messages e"
proof -
  let ?room = "ROWS_BACKLOG_CEILING - queued_rows_messages e" and ?rs = "rows_in (en_index e) s t"
  obtain out chunk room stopped where run: "pack_rows (en_lane e) ?rs [] 0 ?room [] = (out, chunk, room, stopped)"
    by (cases "pack_rows (en_lane e) ?rs [] 0 ?room []") auto
  define out' where "out' = (if \<not> stopped \<and> (chunk \<noteq> [] \<or> answer) \<and> 0 < room then out @ [Rows (en_lane e) chunk] else out)"
  have "\<forall>r\<in>set ?rs. row_ok r" using assms store_rows by (auto simp: engine_ok_def)
  from pack_rows_ok [OF run _ this] have p: "\<forall>m\<in>set out. \<exists>c. m = Rows (en_lane e) c \<and> rows_ok c" "rows_ok chunk"
    "length out + room = ?room" by (simp_all add: chunk_ok_def rows_ok_def)
  show thesis
  proof (rule that)
    show "push_rows s t answer e = (length out', e\<lparr>en_backlog := en_backlog e @ out'\<rparr>)"
      by (simp add: push_rows_def run Let_def out'_def)
    have "\<exists>c. m = Rows (en_lane e) c \<and> rows_ok c" if "m \<in> set out'" for m
      using that p by (auto simp: out'_def split: if_splits)
    then show "\<forall>m\<in>set out'. is_rows m \<and> sendable m \<and> message_lane m = en_lane e"
      using sendable_rows by fastforce
    show "length out' \<le> ?room" using p(3) by (auto simp: out'_def)
  qed
qed

lemma engine_ok_push_rows [engine_inv]: "engine_ok e \<Longrightarrow> engine_ok (snd (push_rows s t answer e))"
proof -
  assume ok: "engine_ok e"
  then obtain out where out: "push_rows s t answer e = (length out, e\<lparr>en_backlog := en_backlog e @ out\<rparr>)"
    "\<forall>m\<in>set out. is_rows m \<and> sendable m \<and> message_lane m = en_lane e"
    "length out \<le> ROWS_BACKLOG_CEILING - queued_rows_messages e" by (rule push_rows_queues)
  have "length (filter is_rows out) \<le> ROWS_BACKLOG_CEILING - queued_rows_messages e"
    using out(3) length_filter_le [of is_rows out] by linarith
  with ok out show ?thesis by (auto simp: engine_ok_def queue_ok_def queued_rows_messages_def)
qed

lemma push_rows_lane [simp]: "en_lane (snd (push_rows s t answer e)) = en_lane e"
  by (simp add: push_rows_def Let_def split: prod.split)

lemma engine_ok_fold: "engine_ok e \<Longrightarrow> (\<And>x e. x \<in> set xs \<Longrightarrow> engine_ok e \<Longrightarrow> engine_ok (f x e)) \<Longrightarrow> engine_ok (fold f xs e)"
  by (induction xs arbitrary: e) simp_all

lemma engine_ok_append:
  "engine_ok e \<Longrightarrow> \<forall>m\<in>set ms. sendable m \<and> message_lane m = en_lane e \<and> \<not> is_rows m \<Longrightarrow>
     engine_ok (e\<lparr>en_backlog := en_backlog e @ ms, en_awaiting := a\<rparr>)"
  by (simp add: engine_ok_def queue_ok_append)

lemma engine_ok_push_offers [engine_inv]:
  assumes "engine_ok e" "\<forall>r\<in>set rs. rf_start r \<le> rf_end r"
  shows "engine_ok (push_offers rs e)"
  unfolding push_offers_def
proof (rule engine_ok_append [OF assms(1)], rule ballI)
  fix m assume "m \<in> set (map (Offer (en_lane e)) (chunks MAX_RANGES_PER_MESSAGE rs))"
  then obtain c where c: "m = Offer (en_lane e) c" "c \<in> set (chunks MAX_RANGES_PER_MESSAGE rs)" by auto
  have "length c \<le> MAX_RANGES_PER_MESSAGE" using chunks_bound [OF _ c(2)] by (simp add: MAX_RANGES_PER_MESSAGE_def)
  moreover have "set c \<subseteq> set rs" using c(2) concat_chunks [of MAX_RANGES_PER_MESSAGE rs] by (metis UN_upper set_concat)
  then have "\<forall>r\<in>set c. rf_start r \<le> rf_end r" using assms(2) by blast
  ultimately show "sendable m \<and> message_lane m = en_lane e \<and> \<not> is_rows m"
    by (simp add: c(1) sendable_offer)
qed

lemma engine_ok_push_needs [engine_inv]:
  assumes "engine_ok e" "\<forall>r\<in>set bs. dr_start r \<le> dr_end r"
  shows "engine_ok (push_needs bs e)"
  unfolding push_needs_def
proof (rule engine_ok_append [OF assms(1)], rule ballI)
  fix m assume "m \<in> set (map (Need (en_lane e)) (chunks MAX_RANGES_PER_MESSAGE bs))"
  then obtain c where c: "m = Need (en_lane e) c" "c \<in> set (chunks MAX_RANGES_PER_MESSAGE bs)" by auto
  have "length c \<le> MAX_RANGES_PER_MESSAGE" using chunks_bound [OF _ c(2)] by (simp add: MAX_RANGES_PER_MESSAGE_def)
  moreover have "set c \<subseteq> set bs" using c(2) concat_chunks [of MAX_RANGES_PER_MESSAGE bs] by (metis UN_upper set_concat)
  then have "\<forall>r\<in>set c. dr_start r \<le> dr_end r" using assms(2) by blast
  ultimately show "sendable m \<and> message_lane m = en_lane e \<and> \<not> is_rows m"
    by (simp add: c(1) sendable_need)
qed

subsection \<open>Negotiation\<close>

definition ordered :: "(u64 \<times> u64 \<times> fingerprint) list \<Rightarrow> bool" where
  "ordered ts \<longleftrightarrow> (\<forall>(s, t, f)\<in>set ts. s \<le> t)"

lemma compare_range_ordered:
  assumes "s \<le> t"
  shows "\<forall>r\<in>set (fst (compare_range e (s, t, peer))). rf_start r \<le> rf_end r"
    "\<forall>r\<in>set (fst (snd (compare_range e (s, t, peer)))). dr_start r \<le> dr_end r"
proof -
  have "rf_start r \<le> rf_end r" if "s \<noteq> t" "r \<in> set (map (fingerprint_of e) (split s t))" for r
  proof -
    from that obtain x y where "(x, y) \<in> set (split s t)" "r = fingerprint_of e (x, y)" by auto
    with split_narrows(2) [of s t x y] assms that(1) show ?thesis by (simp add: fingerprint_of_def Let_def)
  qed
  then show "\<forall>r\<in>set (fst (compare_range e (s, t, peer))). rf_start r \<le> rf_end r"
    by (auto simp: compare_range_def Let_def)
  show "\<forall>r\<in>set (fst (snd (compare_range e (s, t, peer)))). dr_start r \<le> dr_end r"
    using assms by (auto simp: compare_range_def Let_def)
qed

lemma engine_ok_process_ranges [engine_inv]:
  assumes "engine_ok e" "ordered ts"
  shows "engine_ok (process_ranges ts e)"
proof -
  have "\<forall>r\<in>set (concat (map fst (map (compare_range e) ts))). rf_start r \<le> rf_end r"
    using assms(2) compare_range_ordered(1) by (force simp: ordered_def)
  moreover have "\<forall>r\<in>set (concat (map (fst \<circ> snd) (map (compare_range e) ts))). dr_start r \<le> dr_end r"
    using assms(2) compare_range_ordered(2) by (force simp: ordered_def)
  ultimately show ?thesis
    unfolding process_ranges_def Let_def by (intro engine_ok_fold) (auto intro!: engine_inv assms(1))
qed

lemma process_ranges_lane [simp]: "en_lane (process_ranges ts e) = en_lane e"
proof -
  have "en_lane (fold (\<lambda>(s, t) e. snd (push_rows s t False e)) ps e') = en_lane e'" for ps e'
    by (induction ps arbitrary: e') (simp_all add: case_prod_unfold)
  then show ?thesis by (simp add: process_ranges_def Let_def push_offers_def push_needs_def)
qed

lemma engine_ok_initiate [engine_inv]: "engine_ok e \<Longrightarrow> ordered ts \<Longrightarrow> engine_ok (initiate ts e)"
  by (simp add: initiate_def engine_inv)

lemma ordered_triples: "\<forall>r\<in>set rs. rf_start r \<le> rf_end r \<Longrightarrow> ordered (map triple_of rs)"
  by (auto simp: ordered_def triple_of_def)

lemma ordered_filter: "ordered ts \<Longrightarrow> ordered (filter P ts)"
  by (auto simp: ordered_def)

lemma ordered_whole: "ordered [(0, - 1, f)]"
  by (simp add: ordered_def)

lemma engine_ok_hint_ranges [engine_inv]:
  "engine_ok e \<Longrightarrow> \<forall>r\<in>set rs. rf_start r \<le> rf_end r \<Longrightarrow> engine_ok (process_hint_ranges rs e)"
  by (simp add: process_hint_ranges_def Let_def engine_inv ordered_filter ordered_triples)

lemma hint_ranges_lane [simp]: "en_lane (process_hint_ranges rs e) = en_lane e"
  by (simp add: process_hint_ranges_def Let_def initiate_def)

lemma replay_lane [simp]: "en_lane (replay_pending_hints e) = en_lane e"
proof -
  have "en_lane (fold process_hint_ranges hs e') = en_lane e'" for hs e' by (induction hs arbitrary: e') simp_all
  then show ?thesis by (simp add: replay_pending_hints_def)
qed

lemma engine_ok_replay [engine_inv]:
  assumes "engine_ok e"
  shows "engine_ok (replay_pending_hints e)"
proof -
  have "\<forall>h\<in>set (en_pending_hints e). \<forall>r\<in>set h. rf_start r \<le> rf_end r"
    using assms by (simp add: engine_ok_def hints_ok_def)
  then show ?thesis
    unfolding replay_pending_hints_def by (auto intro!: engine_ok_fold engine_inv assms)
qed

lemma engine_ok_close_round [engine_inv]: "engine_ok e \<Longrightarrow> engine_ok (close_round e)"
  unfolding close_round_def Let_def
  by (intro engine_inv) (simp_all add: done_message_def sendable_done)

lemma engine_ok_agreement [engine_inv]: "engine_ok e \<Longrightarrow> engine_ok (close_round_on_agreement e)"
  by (simp add: close_round_on_agreement_def engine_inv)

lemma engine_ok_answer_need [engine_inv]:
  assumes "engine_ok e"
  shows "engine_ok (answer_need s t e)"
proof (cases "list_ex (\<lambda>(ps, pt). ps \<le> s \<and> t \<le> pt) (en_pending_needs e) \<or> NEED_PENDING_BOUNDS \<le> length (en_pending_needs e)")
  case False
  obtain n e' where push: "push_rows s t True e = (n, e')" by fastforce
  then have "engine_ok e'" using engine_ok_push_rows [OF assms, of s t True] by simp
  moreover have "en_pending_needs e' = en_pending_needs e" using push by (auto simp: push_rows_def Let_def split: prod.splits)
  ultimately show ?thesis using False push by (auto simp: answer_need_def engine_ok_def)
qed (use assms in \<open>auto simp: answer_need_def\<close>)

subsection \<open>Drives\<close>

lemma sendable_ok: "sendable m \<Longrightarrow> message_ok m"
  using message_to_wire_ok by (auto simp: sendable_def)

lemma engine_ok_dispatch:
  assumes ok: "engine_ok e" and m: "sendable m"
  shows "engine_ok (snd (dispatch dg m e))"
proof (cases m)
  case (Root l c x)
  then show ?thesis by (auto simp: Let_def intro!: engine_inv ordered_whole ok)
next
  case (Hint l ranges rows)
  have rows: "\<forall>r\<in>set rows. row_ok r" and ranges: "\<forall>r\<in>set ranges. rf_start r \<le> rf_end r"
    using sendable_row_ok(2) m sendable_ok [OF m] by (auto simp: Hint)
  obtain r e' where a: "apply_rows dg rows e = (r, e')" by fastforce
  with apply_rows_ok [OF ok rows, of dg] have ok': "engine_ok e'" by simp
  moreover have "engine_ok (e'\<lparr>en_pending_hints := en_pending_hints e' @ [ranges]\<rparr>)"
    if "length (en_pending_hints e') < HINT_PENDING_MAX"
    using ok' ranges that by (auto simp: engine_ok_def hints_ok_def)
  ultimately show ?thesis using a ranges by (cases r) (auto simp: Hint intro: engine_inv)
next
  case (Offer l ranges)
  with sendable_ok [OF m] have "engine_ok (process_ranges (map triple_of ranges) e)"
    by (auto intro!: engine_inv ok ordered_triples)
  then show ?thesis by (simp add: Offer Let_def engine_inv)
next
  case (Need l bounds)
  then show ?thesis by (auto intro!: engine_ok_fold engine_inv ok)
next
  case (Rows l rows)
  with sendable_row_ok(1) m have "\<forall>r\<in>set rows. row_ok r" by blast
  then show ?thesis by (simp add: Rows apply_rows_ok ok)
next
  case (Done l t)
  then show ?thesis by (auto intro!: engine_inv ok)
qed

lemma engine_ok_apply_message:
  assumes "engine_ok e" "sendable m"
  shows "engine_ok (snd (apply_message dg m e))"
proof -
  have "engine_ok (snd (dispatch dg m e'))" if "engine_ok e'" for e' using that assms(2) by (rule engine_ok_dispatch)
  then show ?thesis
    using assms(1) by (auto simp: apply_message_def Let_def engine_inv split: prod.splits sum.splits) (metis engine_ok_flags(2) snd_conv)+
qed

lemma eager_rows_bounded:
  assumes "store_ok ix" "\<forall>r\<in>set rows. row_ok r" "n = sum_list (map row_bytes rows)" "n \<le> EAGER_DELTA_BYTES"
  shows "(\<forall>r\<in>set (eager_rows ix ds n rows). row_ok r) \<and> sum_list (map row_bytes (eager_rows ix ds n rows)) \<le> EAGER_DELTA_BYTES \<and>
    length (eager_rows ix ds n rows) \<le> length rows + length ds"
  using assms
proof (induction ix ds n rows rule: eager_rows.induct)
  case (2 ix d ds n rows)
  show ?case
  proof (cases "get_index ix d")
    case None
    with 2 show ?thesis by auto
  next
    case (Some r)
    from store_get [OF 2(3) Some] have r: "row_ok r" .
    show ?thesis
    proof (cases "EAGER_DELTA_BYTES < n + row_bytes r")
      case True
      with Some 2(4-6) show ?thesis by simp
    next
      case False
      from 2(2) [OF Some False 2(3)] r 2(4-6) False Some show ?thesis by simp
    qed
  qed
qed auto

lemma engine_ok_local_change [engine_inv]:
  assumes ok: "engine_ok e"
  shows "engine_ok (snd (drive_local_change eager e))"
proof -
  define bounds where "bounds = (case en_dirty e of None \<Rightarrow> [(0, - 1)] | Some bs \<Rightarrow> bs)"
  let ?e = "e\<lparr>en_dirty := Some [], en_eager := []\<rparr>" and ?e' = "e\<lparr>en_dirty := Some []\<rparr>"
  define rows where "rows = (if eager then eager_rows (en_index e) (en_eager e) 0 [] else [])"
  have b: "length bounds \<le> MAX_RANGES_PER_MESSAGE" "\<forall>p\<in>set bounds. fst p \<le> snd p"
    using ok by (auto simp: bounds_def engine_ok_def dirty_ok_def dirty_wf_def MAX_RANGES_PER_MESSAGE_def split: option.splits)
  have r: "\<forall>r\<in>set rows. row_ok r" "sum_list (map row_bytes rows) \<le> EAGER_DELTA_BYTES" "length rows \<le> MAX_ROWS_PER_MESSAGE"
    using eager_rows_bounded [of "en_index e" "[]" 0 "en_eager e"] ok by (auto simp: rows_def engine_ok_def)
  have "message_ok (Hint (en_lane e) (map (fingerprint_of ?e') bounds) rows)"
    using b r(3) by (auto simp: fingerprint_of_def Let_def)
  then have "sendable (Hint (en_lane e) (map (fingerprint_of ?e') bounds) rows)"
    by (rule sendable_hint [OF _ r(1,2)])
  then have "engine_ok (queue (Hint (en_lane e) (map (fingerprint_of ?e') bounds) rows) ?e)"
    by (intro engine_inv ok) simp_all
  moreover have "engine_ok ?e" by (intro engine_inv ok)
  ultimately show ?thesis
    by (cases eager) (simp_all add: drive_local_change_def Let_def take_eager_rows_def rows_def bounds_def)
qed

lemma engine_ok_root_exchange [engine_inv]:
  assumes ok: "engine_ok e"
  shows "engine_ok (snd (drive_root_exchange e))"
proof -
  let ?root = "ix_root (en_index e)"
  let ?e = "queue (Root (en_lane e) (fp_count ?root) (fp_xor ?root)) (e\<lparr>en_eager := [], en_awaiting := False, en_pending_hints := []\<rparr>)"
  have "engine_ok ?e" by (intro engine_inv ok) (simp_all add: sendable_root)
  then show ?thesis
    by (auto simp: drive_root_exchange_def Let_def intro: engine_inv ordered_whole split: option.split)
qed

lemma engine_ok_drive_step:
  assumes "engine_ok e" "\<forall>m. d = Message_drive m \<longrightarrow> sendable m"
  shows "engine_ok (snd (drive_step dg d e))"
  using assms by (cases d) (auto simp: drive_step_def engine_ok_apply_message engine_inv)

lemma drain_backlog_eq:
  "length out \<le> MESSAGE_BUDGET_PER_DRIVE \<Longrightarrow> drain_backlog bl out =
     (drop (MESSAGE_BUDGET_PER_DRIVE - length out) bl, out @ take (MESSAGE_BUDGET_PER_DRIVE - length out) bl)"
proof (induction bl out rule: drain_backlog.induct)
  case (2 m bl out)
  show ?case
  proof (cases "length out < MESSAGE_BUDGET_PER_DRIVE")
    case True
    then have "MESSAGE_BUDGET_PER_DRIVE - length out = Suc (MESSAGE_BUDGET_PER_DRIVE - length (out @ [m]))" by simp
    with True 2 show ?thesis by simp
  qed (use 2(2) in simp)
qed simp

text \<open>A partial output: within the budget, and made of messages for this lane that fit the wire.\<close>

definition output_ok :: "lane_id \<Rightarrow> message list \<Rightarrow> bool" where
  "output_ok l out \<longleftrightarrow> length out \<le> MESSAGE_BUDGET_PER_DRIVE \<and> (\<forall>m\<in>set out. sendable m \<and> message_lane m = l)"

lemma drain_ok:
  assumes "engine_ok e" "output_ok (en_lane e) out" "drain (e, out) = (e', out')"
  shows "engine_ok e' \<and> en_lane e' = en_lane e \<and> output_ok (en_lane e) out'"
proof -
  let ?n = "MESSAGE_BUDGET_PER_DRIVE - length out"
  from assms(2,3) have e': "e' = e\<lparr>en_backlog := drop ?n (en_backlog e)\<rparr>" and out': "out' = out @ take ?n (en_backlog e)"
    by (auto simp: drain_def drain_backlog_eq output_ok_def)
  have q: "\<forall>m\<in>set (en_backlog e). sendable m \<and> message_lane m = en_lane e" "length (filter is_rows (en_backlog e)) \<le> ROWS_BACKLOG_CEILING"
    using assms(1) by (auto simp: engine_ok_def queue_ok_def)
  have "length (filter is_rows (drop ?n (en_backlog e))) \<le> length (filter is_rows (en_backlog e))"
    by (metis append_take_drop_id filter_append le_add2 length_append)
  with q assms(1) have "engine_ok e'" by (auto simp: e' engine_ok_def queue_ok_def dest: in_set_dropD)
  moreover have "output_ok (en_lane e) out'"
    using assms(2) q(1) by (auto simp: out' output_ok_def dest: in_set_takeD)
  ultimately show ?thesis by (simp add: e')
qed

lemma initiate_lane [simp]: "en_lane (initiate ts e) = en_lane e"
  by (simp add: initiate_def)

lemma close_round_lane [simp]: "en_lane (close_round e) = en_lane e" "en_lane (close_round_on_agreement e) = en_lane e"
  by (simp_all add: close_round_on_agreement_def close_round_def Let_def queue_def)

lemma answer_need_lane [simp]: "en_lane (answer_need s t e) = en_lane e"
proof -
  obtain n e' where push: "push_rows s t True e = (n, e')" by fastforce
  then have "en_lane e' = en_lane e" by (metis push_rows_lane snd_conv)
  with push show ?thesis by (simp add: answer_need_def)
qed

lemma fold_answer_lane: "en_lane (fold (\<lambda>b. answer_need (f b) (g b)) bs e) = en_lane e"
  by (induction bs arbitrary: e) simp_all

lemma dispatch_lane [simp]: "en_lane (snd (dispatch dg m e)) = en_lane e"
proof (cases m)
  case (Hint l ranges rows)
  obtain r e' where step: "apply_rows dg rows e = (r, e')" by fastforce
  then have "en_lane e' = en_lane e" using apply_rows_fields [of dg rows e] by simp
  with step Hint show ?thesis by (cases r) simp_all
qed (simp_all add: Let_def apply_rows_fields fold_answer_lane)

lemma drive_step_lane: "en_lane (snd (drive_step dg d e)) = en_lane e"
proof (cases d)
  case (Message_drive m)
  let ?e = "if is_hint m then e else e\<lparr>en_awaiting := False\<rparr>"
  obtain r e' where step: "dispatch dg m ?e = (r, e')" by fastforce
  then have "en_lane e' = en_lane ?e" by (metis dispatch_lane snd_conv)
  with step Message_drive show ?thesis
    by (cases r) (simp_all add: drive_step_def apply_message_def Let_def)
qed (auto simp: drive_step_def drive_local_change_def take_eager_rows_def drive_root_exchange_def Let_def queue_def split: option.split)

lemma engine_ok_settle [engine_inv]: "engine_ok e \<Longrightarrow> engine_ok (settle n e)"
  by (simp add: settle_def engine_inv)

lemma drive_ok:
  assumes ok: "engine_ok e" and d: "\<forall>m. d = Message_drive m \<longrightarrow> sendable m" and run: "drive dg d e = (r, e')"
  shows "engine_ok e' \<and> en_lane e' = en_lane e \<and> (\<forall>out. r = Inr out \<longrightarrow> output_ok (en_lane e) out)"
proof -
  let ?e0 = "if en_backlog e = [] then e\<lparr>en_pending_needs := []\<rparr> else e"
  have ok0: "engine_ok ?e0" "en_lane ?e0 = en_lane e" using ok by (simp_all add: engine_inv)
  obtain e1 out1 where d1: "drain (?e0, []) = (e1, out1)" by fastforce
  have ok1: "engine_ok e1" "en_lane e1 = en_lane e" "output_ok (en_lane e) out1"
    using drain_ok [OF ok0(1) _ d1] ok0(2) by (simp_all add: output_ok_def)
  obtain g e2 where s: "drive_step dg d e1 = (g, e2)" by fastforce
  have ok2: "engine_ok e2" "en_lane e2 = en_lane e"
    using engine_ok_drive_step [OF ok1(1) d, of dg] drive_step_lane [of dg d e1] s ok1(2) by simp_all
  show ?thesis
  proof (cases g)
    case (Inl err)
    with run d1 s ok2 show ?thesis by (auto simp: drive_def Let_def)
  next
    case (Inr n)
    obtain e3 out2 where d2: "drain (e2, out1) = (e3, out2)" by fastforce
    have ok3: "engine_ok e3" "en_lane e3 = en_lane e" "output_ok (en_lane e) out2"
      using drain_ok [OF ok2(1) _ d2] ok1 ok2(2) by simp_all
    obtain e4 out3 where d3: "drain (settle n e3, out2) = (e4, out3)" by fastforce
    have "en_lane (settle n e3) = en_lane e" using ok3(2) by (simp add: settle_def)
    with drain_ok [OF engine_ok_settle [OF ok3(1)] _ d3] ok3(3)
    have "engine_ok e4" "en_lane e4 = en_lane e" "output_ok (en_lane e) out3" by simp_all
    with run d1 s Inr d2 d3 show ?thesis by (auto simp: drive_def Let_def)
  qed
qed

subsection \<open>Reachable engines\<close>

text \<open>
  An engine in use: it starts empty, rows are inserted and removed by the lane, and it is driven by
  local triggers and by messages that the wire decoder accepted.
\<close>

definition decoded_input :: "minicbor \<Rightarrow> wire_codec \<Rightarrow> drive_input \<Rightarrow> bool" where
  "decoded_input md wc d \<longleftrightarrow> (\<forall>m. d = Message_drive m \<longrightarrow> (\<exists>b. decode_message md wc b = Some (Inr m)))"

inductive engine_reach :: "minicbor \<Rightarrow> wire_codec \<Rightarrow> digest_fn \<Rightarrow> engine \<Rightarrow> bool" for md wc dg where
  reach_new: "engine_reach md wc dg (new_engine lane)"
| reach_insert: "engine_reach md wc dg e \<Longrightarrow> engine_reach md wc dg (snd (insert_row dg k c e))"
| reach_quiet: "engine_reach md wc dg e \<Longrightarrow> engine_reach md wc dg (snd (insert_row_quiet dg k c e))"
| reach_remove: "engine_reach md wc dg e \<Longrightarrow> engine_reach md wc dg (snd (remove_row dg k c e))"
| reach_drive: "engine_reach md wc dg e \<Longrightarrow> decoded_input md wc d \<Longrightarrow> engine_reach md wc dg (snd (drive dg d e))"

lemma decoded_sendable:
  assumes "decoder_ok md" "wire_codec_ok wc" "decode_message md wc b = Some (Inr m)"
  shows "sendable m"
  using sendable_encode [OF assms(1,2)] decode_message_sound [OF assms] by blast

lemma decoded_input_sendable:
  "decoder_ok md \<Longrightarrow> wire_codec_ok wc \<Longrightarrow> decoded_input md wc d \<Longrightarrow> \<forall>m. d = Message_drive m \<longrightarrow> sendable m"
  using decoded_sendable by (auto simp: decoded_input_def)

lemma engine_reach_ok:
  assumes "engine_reach md wc dg e" "decoder_ok md" "wire_codec_ok wc"
  shows "engine_ok e"
  using assms(1)
proof induction
  case (reach_drive e d)
  with drive_ok [OF reach_drive.IH decoded_input_sendable [OF assms(2,3) reach_drive.hyps(2)]] show ?case
    by (metis prod.collapse)
qed (auto simp: engine_ok_new insert_row_def insert_row_quiet_def intro: insert_row_inner_ok remove_row_ok prod.collapse [symmetric])

text \<open>
  C5: Whatever the peer sends and whatever the lane writes, the engine's memory beyond its rows stays
  bounded: at most 4096 queued row messages, 128 remembered requests, 8 held hints, 64 piggyback
  candidates and 32 changed ranges; and its index and its changed ranges stay well formed.
\<close>

theorem engine_memory_bounded:
  assumes "decoder_ok md" "wire_codec_ok wc" "engine_reach md wc dg e"
  shows "queued_rows_messages e \<le> ROWS_BACKLOG_CEILING \<and> length (en_pending_needs e) \<le> NEED_PENDING_BOUNDS \<and>
    length (en_pending_hints e) \<le> HINT_PENDING_MAX \<and> length (en_eager e) \<le> MAX_ROWS_PER_MESSAGE \<and>
    (\<forall>bs. en_dirty e = Some bs \<longrightarrow> dirty_wf bs \<and> length bs \<le> MAX_RANGES_PER_MESSAGE) \<and> index_ok (en_index e)"
  using engine_reach_ok [OF assms(3,1,2)]
  by (auto simp: engine_ok_def queue_ok_def queued_rows_messages_def hints_ok_def dirty_ok_def store_ok_def)

theorem engine_memory_bounded_witness:
  "queued_rows_messages (snd (insert_row (\<lambda>_ _. Inr 5) [1] [2] (new_engine Trust))) \<le> ROWS_BACKLOG_CEILING"
  using engine_memory_bounded [OF rfc_decoder_ok plain_codec_ok reach_insert [OF reach_new]] by blast

text \<open>
  C2: A drive returns at most 64 messages, each on the engine's own lane, and the wire can carry every
  one of them: it encodes within the body limit and the peer decodes it back to the same message.
\<close>

theorem engine_sends_encodable:
  assumes "decoder_ok md" "wire_codec_ok wc" "engine_reach md wc dg e" "decoded_input md wc d" "drive dg d e = (Inr out, e')"
  shows "length out \<le> MESSAGE_BUDGET_PER_DRIVE \<and> (\<forall>m\<in>set out. message_lane m = en_lane e \<and>
    (\<exists>b. encode_message md wc m = Some (Inr b) \<and> decode_message md wc b = Some (Inr m)))"
proof -
  have "output_ok (en_lane e) out"
    using drive_ok [OF engine_reach_ok [OF assms(3,1,2)] decoded_input_sendable [OF assms(1,2,4)] assms(5)] by simp
  then show ?thesis
    using sendable_encode [OF assms(1,2)] decode_message_complete [OF assms(1,2)] unfolding output_ok_def by blast
qed

lemma sample_drive: "drive dg RootExchange (new_engine Trust) = (Inr [Root Trust 0 0], new_engine Trust)"
  by (simp add: drive_def Let_def new_engine_def drain_def drive_step_def drive_root_exchange_def queue_def settle_def
      MESSAGE_BUDGET_PER_DRIVE_def new_index_def EMPTY_def)

theorem engine_sends_encodable_witness:
  "\<exists>b. encode_message rfc_decoder plain_codec (Root Trust 0 0) = Some (Inr b) \<and> decode_message rfc_decoder plain_codec b = Some (Inr (Root Trust 0 0))"
  using engine_sends_encodable [OF rfc_decoder_ok plain_codec_ok reach_new _ sample_drive] by (simp add: decoded_input_def)

subsection \<open>Answers\<close>

lemma take_prefix:
  assumes "xs @ ys = take k zs"
  shows "xs = take (length xs) zs"
proof -
  have "length xs \<le> k" using arg_cong [OF assms, of length] by auto
  moreover have "xs = take (length xs) (take k zs)" by (simp flip: assms)
  ultimately show ?thesis by (simp add: min_def)
qed

lemma push_rows_content:
  assumes "index_ok (en_index e)"
  shows "\<exists>out k. push_rows s t answer e = (length out, e\<lparr>en_backlog := en_backlog e @ out\<rparr>) \<and>
    concat (map message_rows out) = take k (rows_in (en_index e) s t) \<and>
    (queued_rows_messages e + length out < ROWS_BACKLOG_CEILING \<longrightarrow> length (rows_in (en_index e) s t) \<le> k)"
proof -
  let ?room = "ROWS_BACKLOG_CEILING - queued_rows_messages e" and ?rs = "rows_in (en_index e) s t"
  obtain out chunk room stopped where run: "pack_rows (en_lane e) ?rs [] 0 ?room [] = (out, chunk, room, stopped)"
    by (cases "pack_rows (en_lane e) ?rs [] 0 ?room []") auto
  from pack_rows_content [OF run] obtain k where k: "concat (map message_rows out) @ chunk = take k ?rs" "\<not> stopped \<longrightarrow> length ?rs \<le> k"
    by auto
  have room: "length out + room = ?room" "stopped \<longrightarrow> room = 0"
    using pack_rows_room [OF run] by simp_all
  show ?thesis
  proof (cases "\<not> stopped \<and> (chunk \<noteq> [] \<or> answer) \<and> 0 < room")
    case True
    then have "push_rows s t answer e = (length (out @ [Rows (en_lane e) chunk]), e\<lparr>en_backlog := en_backlog e @ out @ [Rows (en_lane e) chunk]\<rparr>)"
      by (simp add: push_rows_def run Let_def)
    with k True show ?thesis by (intro exI [of _ "out @ [Rows (en_lane e) chunk]"] exI [of _ k]) simp
  next
    case False
    then have "push_rows s t answer e = (length out, e\<lparr>en_backlog := en_backlog e @ out\<rparr>)"
      by (auto simp: push_rows_def run Let_def)
    moreover have "concat (map message_rows out) = take (length (concat (map message_rows out))) ?rs"
      by (rule take_prefix [OF k(1)])
    moreover have "length ?rs \<le> length (concat (map message_rows out))" if "queued_rows_messages e + length out < ROWS_BACKLOG_CEILING"
    proof -
      have "0 < room" using that room(1) by linarith
      with False room(2) have "chunk = []" "\<not> stopped" by auto
      with k show ?thesis by simp
    qed
    ultimately show ?thesis by blast
  qed
qed

text \<open>
  C22: A request for a range is answered with the rows held in it, in digest order and without
  repetition, up to the backlog ceiling: the queued messages carry a prefix of those rows, and all of
  them whenever the ceiling is not reached.
\<close>

theorem need_answer_complete:
  assumes "index_ok (en_index e)"
  shows "\<exists>out k. push_rows s t True e = (length out, e\<lparr>en_backlog := en_backlog e @ out\<rparr>) \<and>
    concat (map message_rows out) = take k (map snd (filter (\<lambda>x. s \<le> fst x \<and> fst x \<le> t) (iter_index (en_index e)))) \<and>
    (queued_rows_messages e + length out < ROWS_BACKLOG_CEILING \<longrightarrow>
      length (filter (\<lambda>x. s \<le> fst x \<and> fst x \<le> t) (iter_index (en_index e))) \<le> k)"
  using push_rows_content [OF assms, of s t True] by (simp add: rows_in_eq [OF assms])

theorem need_answer_complete_witness:
  "\<exists>out. push_rows 0 9 True (new_engine Trust) = (length out, (new_engine Trust)\<lparr>en_backlog := en_backlog (new_engine Trust) @ out\<rparr>)"
proof -
  have "index_ok (en_index (new_engine Trust))" by (simp add: new_engine_def index_ok_new)
  from need_answer_complete [OF this, of 0 9] show ?thesis by blast
qed

subsection \<open>Errors\<close>

fun carried_rows :: "message \<Rightarrow> row list" where
  "carried_rows (Rows _ rs) = rs" | "carried_rows (Hint _ _ rs) = rs" | "carried_rows _ = []"

lemma apply_rows_error:
  "fst (apply_rows dg rs e) = Inl err \<Longrightarrow> \<exists>r\<in>set rs. dg (row_key r) (row_content r) = Inl err"
proof (induction rs arbitrary: e)
  case (Cons r rs)
  then show ?case by (cases "dg (row_key r) (row_content r)") (auto simp: Let_def split: prod.splits)
qed simp

lemma dispatch_error:
  "fst (dispatch dg m e) = Inl err \<Longrightarrow> \<exists>r\<in>set (carried_rows m). dg (row_key r) (row_content r) = Inl err"
proof (cases m)
  case (Hint l ranges rows)
  assume "fst (dispatch dg m e) = Inl err"
  then have "fst (apply_rows dg rows e) = Inl err" by (auto simp: Hint split: prod.splits sum.splits)
  from apply_rows_error [OF this] show ?thesis by (simp add: Hint)
next
  case (Rows l rows)
  assume "fst (dispatch dg m e) = Inl err"
  then have "fst (apply_rows dg rows e) = Inl err" by (simp add: Rows)
  from apply_rows_error [OF this] show ?thesis by (simp add: Rows)
qed (auto simp: Let_def)

lemma drain_lane: "en_lane (fst (drain (e, out))) = en_lane e"
  by (simp add: drain_def split: prod.split)

lemma drive_error:
  assumes "fst (drive dg d e) = Inl err"
  shows "\<exists>m. d = Message_drive m \<and> (message_lane m \<noteq> en_lane e \<or> (\<exists>r\<in>set (carried_rows m). dg (row_key r) (row_content r) = Inl err))"
proof -
  let ?e0 = "if en_backlog e = [] then e\<lparr>en_pending_needs := []\<rparr> else e"
  obtain e1 out1 where d1: "drain (?e0, []) = (e1, out1)" by fastforce
  have lane: "en_lane e1 = en_lane e" using drain_lane [of ?e0 "[]"] d1 by (simp split: if_splits)
  obtain g e2 where s: "drive_step dg d e1 = (g, e2)" by fastforce
  have "g = Inl err" using assms d1 s by (cases g) (auto simp: drive_def Let_def split: prod.splits)
  with s have step: "fst (drive_step dg d e1) = Inl err" by simp
  then obtain m where m: "d = Message_drive m" by (cases d) (auto simp: drive_step_def)
  with step have "message_lane m \<noteq> en_lane e1 \<or> fst (dispatch dg m (if is_hint m then e1 else e1\<lparr>en_awaiting := False\<rparr>)) = Inl err"
    by (auto simp: drive_step_def apply_message_def Let_def split: prod.splits sum.splits if_splits)
  with lane m show ?thesis using dispatch_error by metis
qed

lemma drive_lane_mismatch:
  assumes "message_lane m \<noteq> en_lane e"
  shows "fst (drive dg (Message_drive m) e) = Inl (invalid_input ''reconcile lane mismatch'')"
proof -
  let ?e0 = "if en_backlog e = [] then e\<lparr>en_pending_needs := []\<rparr> else e"
  obtain e1 out1 where d1: "drain (?e0, []) = (e1, out1)" by fastforce
  then have "en_lane e1 = en_lane e" using drain_lane [of ?e0 "[]"] by (simp split: if_splits)
  with assms d1 show ?thesis by (simp add: drive_def Let_def drive_step_def apply_message_def)
qed

text \<open>The digest of the sources, which returns for every row that fits a message.\<close>

definition digest_of :: "minicbor \<Rightarrow> (bytes \<times> bytes \<Rightarrow> bytes list) \<Rightarrow> (bytes \<Rightarrow> bytes) \<Rightarrow> digest_fn" where
  "digest_of md encP sha256 k c = the (item_digest md encP sha256 k c)"

lemma digest_of_row:
  assumes "decoder_ok md" "\<And>p. concat (encP p) = enc_item (preimage_item p)" "row_ok r"
  shows "digest_of md encP sha256 (row_key r) (row_content r) \<noteq> Inl err"
  using preimage_encoded [where encP = encP, OF assms(1,2) assms(3) [unfolded row_ok_def]]
  by (simp add: digest_of_def item_digest_def)

text \<open>
  C21: A message that the wire decoder accepted for the engine's lane is always processed: with the
  row digest of the sources no drive on it fails. The only messages refused are those of another
  lane.
\<close>

theorem drive_accepts_decoded:
  assumes "decoder_ok md" "wire_codec_ok wc" "\<And>p. concat (encP p) = enc_item (preimage_item p)"
    "decode_message md wc b = Some (Inr m)"
  shows "(\<exists>out e'. drive (digest_of md encP sha256) (Message_drive m) e = (Inr out, e')) \<longleftrightarrow> message_lane m = en_lane e"
proof
  assume lane: "message_lane m = en_lane e"
  have ok: "row_ok r" if "r \<in> set (carried_rows m)" for r
    using that sendable_row_ok decoded_sendable [OF assms(1,2,4)] by (cases m) auto
  have "fst (drive (digest_of md encP sha256) (Message_drive m) e) \<noteq> Inl err" for err
    using drive_error [of "digest_of md encP sha256" "Message_drive m" e err] lane ok
      digest_of_row [where encP = encP, OF assms(1,3)] by auto
  then show "\<exists>out e'. drive (digest_of md encP sha256) (Message_drive m) e = (Inr out, e')"
    by (metis sum.exhaust prod.collapse)
next
  assume "\<exists>out e'. drive (digest_of md encP sha256) (Message_drive m) e = (Inr out, e')"
  then obtain out where "fst (drive (digest_of md encP sha256) (Message_drive m) e) = Inr out" by auto
  with drive_lane_mismatch [of m e "digest_of md encP sha256"] show "message_lane m = en_lane e" by auto
qed

theorem drive_accepts_decoded_witness:
  "\<exists>out e'. drive (digest_of rfc_decoder (\<lambda>p. [enc_item (preimage_item p)]) (\<lambda>b. b)) (Message_drive (Done Trust 7)) (new_engine Trust) = (Inr out, e')"
  using drive_accepts_decoded [OF rfc_decoder_ok plain_codec_ok _ decode_message_complete [OF rfc_decoder_ok plain_codec_ok sample_encoding],
      of "\<lambda>p. [enc_item (preimage_item p)]" "\<lambda>b. b" "new_engine Trust"]
  by (simp add: new_engine_def)

end
