(* ===== verification/Merge_Admission.thy ===== *)
theory Merge_Admission
  imports Ordered_Map "HOL-Library.List_Lexorder" "HOL-Library.Product_Lexorder"
begin

text \<open>
  Credential-merge admission control, \<^verbatim>\<open>src/identity/merge_rate.rs\<close>, with the limits of
  \<^verbatim>\<open>src/config.rs\<close> it reads.

  Instants and durations are nanoseconds. An array indexed by the pool is a function of the pool.
  Token counts are 64-bit and the refill product is 128-bit; both are naturals with the reduction
  written out. The limiter is passed and returned explicitly; its lock is held for a whole operation,
  so operations do not interleave, and a poisoned lock is not modelled.
\<close>

subsection \<open>Limits\<close>

record pool_limits =
  pl_source :: "u32 \<times> nat"
  pl_global :: "u32 \<times> nat"

datatype admission_pool = Join | Member

record merge_limits =
  ml_join_source :: "u32 \<times> nat"
  ml_join_global :: "u32 \<times> nat"
  ml_member_source :: "u32 \<times> nat"
  ml_member_global :: "u32 \<times> nat"

definition reject_zero :: "string \<Rightarrow> nat \<Rightarrow> unit result" where
  "reject_zero name v = (if v = 0 then Inl (invalid_input name) else Inr ())"

definition MINUTE :: nat where "MINUTE = 60 * 10 ^ 9"

definition member_burst :: "nat \<Rightarrow> nat \<Rightarrow> u32" where
  "member_burst members floor = of_nat (max (min (min (members * 4) (2 ^ 64 - 1)) (2 ^ 32 - 1)) floor)"

definition scaled_limits :: "nat \<Rightarrow> merge_limits" where
  "scaled_limits members = \<lparr>ml_join_source = (16, MINUTE), ml_join_global = (256, MINUTE),
     ml_member_source = (member_burst members 16, MINUTE), ml_member_global = (member_burst members 256, MINUTE)\<rparr>"

definition for_cluster :: "nat \<Rightarrow> merge_limits result" where
  "for_cluster members = rbind (reject_zero ''expected members'' members) (\<lambda>_. Inr (scaled_limits members))"

definition with_join_pool :: "merge_limits \<Rightarrow> u32 \<Rightarrow> nat \<Rightarrow> u32 \<Rightarrow> nat \<Rightarrow> merge_limits result" where
  "with_join_pool l sb sw gb gw =
    rbind (reject_zero ''join source burst'' (unat sb)) (\<lambda>_. rbind (reject_zero ''join global burst'' (unat gb)) (\<lambda>_.
    rbind (reject_zero ''join source window'' sw) (\<lambda>_. rbind (reject_zero ''join global window'' gw) (\<lambda>_.
      Inr (l\<lparr>ml_join_source := (sb, sw), ml_join_global := (gb, gw)\<rparr>)))))"

definition with_member_pool :: "merge_limits \<Rightarrow> u32 \<Rightarrow> nat \<Rightarrow> u32 \<Rightarrow> nat \<Rightarrow> merge_limits result" where
  "with_member_pool l sb sw gb gw =
    rbind (reject_zero ''member source burst'' (unat sb)) (\<lambda>_. rbind (reject_zero ''member global burst'' (unat gb)) (\<lambda>_.
    rbind (reject_zero ''member source window'' sw) (\<lambda>_. rbind (reject_zero ''member global window'' gw) (\<lambda>_.
      Inr (l\<lparr>ml_member_source := (sb, sw), ml_member_global := (gb, gw)\<rparr>)))))"

definition pool_of :: "merge_limits \<Rightarrow> admission_pool \<Rightarrow> pool_limits" where
  "pool_of l p = (case p of
     Join \<Rightarrow> \<lparr>pl_source = ml_join_source l, pl_global = ml_join_global l\<rparr>
   | Member \<Rightarrow> \<lparr>pl_source = ml_member_source l, pl_global = ml_member_global l\<rparr>)"

subsection \<open>Sources\<close>

datatype merge_source = V4 bytes | V6 bytes | Medium bytes

text \<open>The derived order: variant first, then the octets.\<close>

fun source_key :: "merge_source \<Rightarrow> nat \<times> bytes" where
  "source_key (V4 b) = (0, b)" | "source_key (V6 b) = (1, b)" | "source_key (Medium b) = (2, b)"

lemma source_key_inject: "source_key a = source_key b \<longleftrightarrow> a = b"
  by (cases a; cases b) simp_all

instantiation merge_source :: linorder
begin

definition less_eq_merge_source :: "merge_source \<Rightarrow> merge_source \<Rightarrow> bool" where
  "less_eq_merge_source a b \<longleftrightarrow> source_key a \<le> source_key b"

definition less_merge_source :: "merge_source \<Rightarrow> merge_source \<Rightarrow> bool" where
  "less_merge_source a b \<longleftrightarrow> source_key a < source_key b"

instance
proof
  fix x y z :: merge_source
  show "x < y \<longleftrightarrow> x \<le> y \<and> \<not> y \<le> x" by (simp add: less_eq_merge_source_def less_merge_source_def less_le_not_le)
  show "x \<le> x" by (simp add: less_eq_merge_source_def)
  show "x \<le> y \<Longrightarrow> y \<le> z \<Longrightarrow> x \<le> z" unfolding less_eq_merge_source_def by (rule order.trans)
  show "x \<le> y \<Longrightarrow> y \<le> x \<Longrightarrow> x = y" unfolding less_eq_merge_source_def by (simp flip: source_key_inject)
  show "x \<le> y \<or> y \<le> x" unfolding less_eq_merge_source_def by (rule linear)
qed

end

datatype socket_addr = Addr_v4 bytes u16 | Addr_v6 bytes u16

definition to_ipv4_mapped :: "bytes \<Rightarrow> bytes option" where
  "to_ipv4_mapped o6 = (if take 12 o6 = replicate 10 0 @ [0xFF, 0xFF] then Some (drop 12 o6) else None)"

fun normalize_source :: "socket_addr \<Rightarrow> merge_source" where
  "normalize_source (Addr_v4 o4 _) = V4 o4"
| "normalize_source (Addr_v6 o6 _) = (case to_ipv4_mapped o6 of Some o4 \<Rightarrow> V4 o4 | None \<Rightarrow> V6 o6)"

definition medium_source :: "bytes \<Rightarrow> merge_source" where
  "medium_source binding = Medium (take 16 binding)"

subsection \<open>Token buckets\<close>

definition TOKEN_SCALE :: nat where "TOKEN_SCALE = 2 ^ 32"
definition PENDING_PER_SOURCE :: nat where "PENDING_PER_SOURCE = 4"
definition PENDING_GLOBAL :: nat where "PENDING_GLOBAL = 64"
definition SOURCE_BUCKET_LIMIT :: nat where "SOURCE_BUCKET_LIMIT = 1024"
definition SOURCE_IDLE_LIFETIME :: nat where "SOURCE_IDLE_LIFETIME = 600 * 10 ^ 9"

record token_bucket =
  tb_burst :: u32
  tb_window :: nat
  tb_tokens :: nat
  tb_last :: nat

definition new_token_bucket :: "nat \<Rightarrow> u32 \<times> nat \<Rightarrow> token_bucket" where
  "new_token_bucket now l = \<lparr>tb_burst = fst l, tb_window = snd l, tb_tokens = unat (fst l) * TOKEN_SCALE, tb_last = now\<rparr>"

definition tb_capacity :: "token_bucket \<Rightarrow> nat" where
  "tb_capacity b = unat (tb_burst b) * TOKEN_SCALE"

definition tb_gained :: "token_bucket \<Rightarrow> nat \<Rightarrow> nat" where
  "tb_gained b elapsed = (elapsed * unat (tb_burst b) * TOKEN_SCALE) mod 2 ^ 128 div max (tb_window b) 1"

definition tb_refill :: "nat \<Rightarrow> token_bucket \<Rightarrow> token_bucket" where
  "tb_refill now b = (let elapsed = now - tb_last b in
     if elapsed = 0 then b
     else let b = b\<lparr>tb_last := now\<rparr> in
       if tb_burst b = 0 \<or> tb_window b = 0 then b
       else b\<lparr>tb_tokens := min (tb_tokens b + tb_gained b elapsed) (tb_capacity b)\<rparr>)"

definition tb_admits :: "token_bucket \<Rightarrow> bool" where
  "tb_admits b \<longleftrightarrow> TOKEN_SCALE \<le> tb_tokens b"

definition tb_consume :: "token_bucket \<Rightarrow> token_bucket" where
  "tb_consume b = b\<lparr>tb_tokens := (tb_tokens b + 2 ^ 64 - TOKEN_SCALE) mod 2 ^ 64\<rparr>"

subsection \<open>The limiter\<close>

record source_buckets =
  sb_buckets :: "admission_pool \<Rightarrow> token_bucket"
  sb_pending :: "admission_pool \<Rightarrow> nat"
  sb_last_seen :: nat

definition new_source_buckets :: "nat \<Rightarrow> merge_limits \<Rightarrow> source_buckets" where
  "new_source_buckets now l = \<lparr>sb_buckets = \<lambda>p. new_token_bucket now (pl_source (pool_of l p)),
     sb_pending = \<lambda>_. 0, sb_last_seen = now\<rparr>"

record limiter =
  lm_sources :: "(merge_source, source_buckets) btree"
  lm_global :: "admission_pool \<Rightarrow> token_bucket"
  lm_pending :: "admission_pool \<Rightarrow> nat"
  lm_limits :: merge_limits

definition new_limiter :: "nat \<Rightarrow> merge_limits \<Rightarrow> limiter" where
  "new_limiter now l = \<lparr>lm_sources = [], lm_global = \<lambda>p. new_token_bucket now (pl_global (pool_of l p)),
     lm_pending = \<lambda>_. 0, lm_limits = l\<rparr>"

type_synonym merge_slot = "merge_source \<times> admission_pool"

definition evict_idle :: "nat \<Rightarrow> limiter \<Rightarrow> limiter" where
  "evict_idle now st = (let expired = map fst (filter (\<lambda>(_, b). sb_pending b Join = 0 \<and> sb_pending b Member = 0 \<and>
        SOURCE_IDLE_LIFETIME \<le> now - sb_last_seen b) (lm_sources st))
     in st\<lparr>lm_sources := fold bt_remove expired (lm_sources st)\<rparr>)"

definition table_full :: "merge_source \<Rightarrow> limiter \<Rightarrow> bool" where
  "table_full src st \<longleftrightarrow> \<not> bt_contains (lm_sources st) src \<and> SOURCE_BUCKET_LIMIT \<le> length (lm_sources st)"

text \<open>The last step of an admission: materialise the bucket, spend both tokens, count the attempt.\<close>

definition grant :: "nat \<Rightarrow> merge_source \<Rightarrow> admission_pool \<Rightarrow> limiter \<Rightarrow> limiter" where
  "grant now src p st =
    (let b = (case bt_get (lm_sources st) src of Some b \<Rightarrow> b | None \<Rightarrow> new_source_buckets now (lm_limits st));
         b = b\<lparr>sb_last_seen := now, sb_buckets := (sb_buckets b)(p := tb_consume (sb_buckets b p)),
               sb_pending := (sb_pending b)(p := sb_pending b p + 1)\<rparr>
     in st\<lparr>lm_sources := bt_insert src b (lm_sources st),
           lm_global := (lm_global st)(p := tb_consume (lm_global st p)),
           lm_pending := (lm_pending st)(p := lm_pending st p + 1)\<rparr>)"

definition begin_merge :: "nat \<Rightarrow> merge_source \<Rightarrow> admission_pool \<Rightarrow> limiter \<Rightarrow> merge_slot result \<times> limiter" where
  "begin_merge now src p st =
    (let st = (if table_full src st then evict_idle now st else st) in
     if table_full src st then (Inl (overloaded_error ''merge source buckets''), st)
     else if PENDING_GLOBAL \<le> lm_pending st p then (Inl (overloaded_error ''merge global pending''), st)
     else let st = st\<lparr>lm_global := (lm_global st)(p := tb_refill now (lm_global st p))\<rparr> in
     if \<not> tb_admits (lm_global st p) then (Inl (overloaded_error ''merge rate budget''), st)
     else (case bt_get (lm_sources st) src of
         None \<Rightarrow> (Inr (src, p), grant now src p st)
       | Some b \<Rightarrow>
          if PENDING_PER_SOURCE \<le> sb_pending b p then (Inl (overloaded_error ''merge source pending''), st)
          else let b = b\<lparr>sb_buckets := (sb_buckets b)(p := tb_refill now (sb_buckets b p))\<rparr>;
                   st = st\<lparr>lm_sources := bt_insert src b (lm_sources st)\<rparr>
               in if \<not> tb_admits (sb_buckets b p) then (Inl (overloaded_error ''merge rate budget''), st)
                  else (Inr (src, p), grant now src p st)))"

definition drop_slot :: "merge_slot \<Rightarrow> limiter \<Rightarrow> limiter" where
  "drop_slot slot st = (case slot of (src, p) \<Rightarrow>
     let st = st\<lparr>lm_pending := (lm_pending st)(p := lm_pending st p - 1)\<rparr> in
     case bt_get (lm_sources st) src of None \<Rightarrow> st
     | Some b \<Rightarrow> st\<lparr>lm_sources := bt_insert src (b\<lparr>sb_pending := (sb_pending b)(p := sb_pending b p - 1)\<rparr>) (lm_sources st)\<rparr>)"

subsection \<open>Buckets\<close>

lemma capacity_u64: "tb_capacity b < 2 ^ 64"
proof -
  have "unat (tb_burst b) < 2 ^ 32" using unsigned_less [of "tb_burst b"] by simp
  then show ?thesis by (simp add: tb_capacity_def TOKEN_SCALE_def)
qed

definition bucket_wf :: "u32 \<times> nat \<Rightarrow> nat \<Rightarrow> token_bucket \<Rightarrow> bool" where
  "bucket_wf l now b \<longleftrightarrow> tb_burst b = fst l \<and> tb_window b = snd l \<and> tb_tokens b \<le> tb_capacity b \<and> tb_last b \<le> now"

lemma bucket_wf_new: "bucket_wf l now (new_token_bucket now l)"
  by (simp add: bucket_wf_def new_token_bucket_def tb_capacity_def)

lemma bucket_wf_later: "bucket_wf l now b \<Longrightarrow> now \<le> now' \<Longrightarrow> bucket_wf l now' b"
  by (auto simp: bucket_wf_def)

lemma bucket_wf_refill: "bucket_wf l now b \<Longrightarrow> now \<le> now' \<Longrightarrow> bucket_wf l now' (tb_refill now' b)"
  by (auto simp: bucket_wf_def tb_refill_def Let_def tb_capacity_def)

lemma consume_exact:
  assumes "tb_admits b" "tb_tokens b \<le> tb_capacity b"
  shows "tb_tokens (tb_consume b) = tb_tokens b - TOKEN_SCALE"
proof -
  have "tb_tokens b < 2 ^ 64" using assms(2) capacity_u64 [of b] by linarith
  then show ?thesis using assms(1)
    by (simp add: tb_consume_def tb_admits_def TOKEN_SCALE_def mod_if)
qed

lemma consume_fields [simp]: "tb_burst (tb_consume b) = tb_burst b" "tb_window (tb_consume b) = tb_window b" "tb_last (tb_consume b) = tb_last b"
  by (simp_all add: tb_consume_def)

lemma bucket_wf_consume: "bucket_wf l now b \<Longrightarrow> tb_admits b \<Longrightarrow> bucket_wf l now (tb_consume b)"
  by (auto simp: bucket_wf_def consume_exact tb_capacity_def)

lemma refill_last: "tb_last b \<le> now \<Longrightarrow> tb_last (tb_refill now b) = now"
  by (auto simp: tb_refill_def Let_def)

lemma refill_fields [simp]: "tb_burst (tb_refill now b) = tb_burst b" "tb_window (tb_refill now b) = tb_window b"
  by (simp_all add: tb_refill_def Let_def)

lemma refill_mono: "tb_tokens b \<le> tb_capacity b \<Longrightarrow> tb_tokens b \<le> tb_tokens (tb_refill now b)"
  by (auto simp: tb_refill_def Let_def tb_capacity_def)

text \<open>What a refill adds, weighed by the window, is at most what the elapsed time earned.\<close>

lemma refill_gain:
  assumes "tb_tokens b \<le> tb_capacity b" "tb_last b \<le> now"
  shows "tb_tokens (tb_refill now b) * tb_window b \<le> tb_tokens b * tb_window b + unat (tb_burst b) * TOKEN_SCALE * (now - tb_last b)"
proof (cases "now - tb_last b = 0 \<or> tb_burst b = 0 \<or> tb_window b = 0")
  case False
  let ?g = "tb_gained b (now - tb_last b)"
  have "?g * tb_window b \<le> ((now - tb_last b) * unat (tb_burst b) * TOKEN_SCALE) mod 2 ^ 128"
    using False by (simp add: tb_gained_def max_def div_times_less_eq_dividend)
  also have "\<dots> \<le> (now - tb_last b) * unat (tb_burst b) * TOKEN_SCALE" by (rule mod_less_eq_dividend)
  finally have g: "?g * tb_window b \<le> unat (tb_burst b) * TOKEN_SCALE * (now - tb_last b)" by (simp add: ac_simps)
  have "tb_tokens (tb_refill now b) \<le> tb_tokens b + ?g"
    using False by (auto simp: tb_refill_def Let_def tb_gained_def)
  then have "tb_tokens (tb_refill now b) * tb_window b \<le> tb_tokens b * tb_window b + ?g * tb_window b"
    by (metis add_mult_distrib mult_le_mono1)
  with g show ?thesis by linarith
qed (auto simp: tb_refill_def Let_def)

subsection \<open>The invariant\<close>

text \<open>The pending counts are exactly the live slots, and every bucket stays within its capacity.\<close>

definition source_wf :: "merge_limits \<Rightarrow> nat \<Rightarrow> merge_slot list \<Rightarrow> merge_source \<Rightarrow> source_buckets \<Rightarrow> bool" where
  "source_wf l now slots src b \<longleftrightarrow> (\<forall>p. bucket_wf (pl_source (pool_of l p)) now (sb_buckets b p) \<and>
     sb_pending b p = count_list slots (src, p) \<and> count_list slots (src, p) \<le> PENDING_PER_SOURCE)"

definition table_wf :: "merge_limits \<Rightarrow> nat \<Rightarrow> merge_slot list \<Rightarrow> (merge_source, source_buckets) btree \<Rightarrow> bool" where
  "table_wf l now slots m \<longleftrightarrow> sorted_keys m \<and> length m \<le> SOURCE_BUCKET_LIMIT \<and>
     (\<forall>src b. map_of m src = Some b \<longrightarrow> source_wf l now slots src b) \<and> (\<forall>slot\<in>set slots. map_of m (fst slot) \<noteq> None)"

definition pool_slots :: "admission_pool \<Rightarrow> merge_slot list \<Rightarrow> nat" where
  "pool_slots p slots = length (filter (\<lambda>s. snd s = p) slots)"

definition limits_ok :: "merge_limits \<Rightarrow> bool" where
  "limits_ok l \<longleftrightarrow> (\<forall>p. 0 < fst (pl_source (pool_of l p)) \<and> 0 < fst (pl_global (pool_of l p)))"

definition limiter_wf :: "nat \<Rightarrow> merge_slot list \<Rightarrow> limiter \<Rightarrow> bool" where
  "limiter_wf now slots st \<longleftrightarrow> limits_ok (lm_limits st) \<and> table_wf (lm_limits st) now slots (lm_sources st) \<and>
     (\<forall>p. bucket_wf (pl_global (pool_of (lm_limits st) p)) now (lm_global st p) \<and>
       lm_pending st p = pool_slots p slots \<and> pool_slots p slots \<le> PENDING_GLOBAL)"

lemma limiter_wf_new: "limits_ok l \<Longrightarrow> limiter_wf now [] (new_limiter now l)"
  by (simp add: limiter_wf_def new_limiter_def table_wf_def bucket_wf_new pool_slots_def)

lemma limiter_wf_later: "limiter_wf now slots st \<Longrightarrow> now \<le> now' \<Longrightarrow> limiter_wf now' slots st"
  by (auto simp: limiter_wf_def table_wf_def source_wf_def intro: bucket_wf_later)

lemma map_of_fold_remove: "map_of (fold bt_remove ks m) k = (if k \<in> set ks then None else map_of m k)"
  by (induction ks arbitrary: m) (auto simp: bt_get_remove)

lemma fold_remove_sorted: "sorted_keys m \<Longrightarrow> sorted_keys (fold bt_remove ks m) \<and> length (fold bt_remove ks m) \<le> length m"
proof (induction ks arbitrary: m)
  case (Cons k ks)
  from Cons.IH [OF bt_remove_sorted [OF Cons.prems, of k]] bt_length_remove_le [of k m] show ?case by simp
qed simp

lemma count_list_zero: "count_list xs x = 0 \<longleftrightarrow> x \<notin> set xs"
  by (simp add: count_list_0_iff)

lemma limiter_wf_evict:
  assumes "limiter_wf now slots st"
  shows "limiter_wf now slots (evict_idle now st)"
proof -
  let ?m = "lm_sources st"
  define ks where "ks = map fst (filter (\<lambda>(_, b). sb_pending b Join = 0 \<and> sb_pending b Member = 0 \<and> SOURCE_IDLE_LIFETIME \<le> now - sb_last_seen b) ?m)"
  have wf: "table_wf (lm_limits st) now slots ?m" using assms by (simp add: limiter_wf_def)
  have "fst slot \<notin> set ks" if "slot \<in> set slots" for slot
  proof
    assume "fst slot \<in> set ks"
    then obtain b where "(fst slot, b) \<in> set ?m" and p: "sb_pending b Join = 0" "sb_pending b Member = 0" by (auto simp: ks_def)
    then have "map_of ?m (fst slot) = Some b" using wf bt_set_get [of ?m] by (simp add: table_wf_def)
    with wf have "sb_pending b (snd slot) = count_list slots slot" by (simp add: table_wf_def source_wf_def)
    with p that show False by (cases "snd slot") (simp_all add: count_list_zero)
  qed
  with wf fold_remove_sorted [of ?m ks] have "table_wf (lm_limits st) now slots (fold bt_remove ks ?m)"
    by (auto simp: table_wf_def map_of_fold_remove)
  with assms show ?thesis by (simp add: evict_idle_def limiter_wf_def ks_def Let_def)
qed

lemma limiter_wf_refill_global:
  assumes "limiter_wf now slots st"
  shows "limiter_wf now slots (st\<lparr>lm_global := (lm_global st)(p := tb_refill now (lm_global st p))\<rparr>)"
  using assms by (auto simp: limiter_wf_def intro: bucket_wf_refill)

lemma table_wf_update:
  assumes "table_wf l now slots m" "map_of m src = Some b" "source_wf l now slots src b'"
  shows "table_wf l now slots (bt_insert src b' m)"
proof -
  have m: "sorted_keys m" using assms(1) by (simp add: table_wf_def)
  have "length (bt_insert src b' m) = length m" using bt_length_insert [OF m, of src b'] assms(2) by simp
  then show ?thesis using assms bt_insert_sorted [OF m] by (auto simp: table_wf_def bt_get_insert [OF m])
qed

lemma limiter_wf_refill_source:
  assumes "limiter_wf now slots st" "bt_get (lm_sources st) src = Some b"
  shows "limiter_wf now slots (st\<lparr>lm_sources := bt_insert src (b\<lparr>sb_buckets := (sb_buckets b)(p := tb_refill now (sb_buckets b p))\<rparr>) (lm_sources st)\<rparr>)"
proof -
  have t: "table_wf (lm_limits st) now slots (lm_sources st)" using assms(1) by (simp add: limiter_wf_def)
  then have "source_wf (lm_limits st) now slots src b" using assms(2) by (simp add: table_wf_def)
  then have "source_wf (lm_limits st) now slots src (b\<lparr>sb_buckets := (sb_buckets b)(p := tb_refill now (sb_buckets b p))\<rparr>)"
    by (auto simp: source_wf_def intro: bucket_wf_refill)
  from table_wf_update [OF t assms(2) this] assms(1) show ?thesis by (simp add: limiter_wf_def)
qed

lemma new_bucket_admits: "0 < fst l \<Longrightarrow> tb_admits (new_token_bucket now l)"
proof -
  assume "0 < fst l"
  then have "1 \<le> unat (fst l)" by (simp add: word_less_nat_alt Suc_leI)
  then show ?thesis by (simp add: tb_admits_def new_token_bucket_def)
qed

lemma source_wf_grant:
  assumes "source_wf l now slots src b" "tb_admits (sb_buckets b p)" "sb_pending b p < PENDING_PER_SOURCE"
  shows "source_wf l now ((src, p) # slots) src (b\<lparr>sb_last_seen := t, sb_buckets := (sb_buckets b)(p := tb_consume (sb_buckets b p)),
    sb_pending := (sb_pending b)(p := sb_pending b p + 1)\<rparr>)"
  using assms by (auto simp: source_wf_def intro: bucket_wf_consume)

lemma source_wf_other: "source_wf l now slots src b \<Longrightarrow> src \<noteq> src' \<Longrightarrow> source_wf l now ((src', p) # slots) src b"
  by (simp add: source_wf_def)

lemma source_wf_fresh:
  assumes "\<And>p. (src, p) \<notin> set slots"
  shows "source_wf l now slots src (new_source_buckets now l)"
  using assms by (simp add: source_wf_def new_source_buckets_def bucket_wf_new count_list_zero)

lemma limiter_wf_grant:
  assumes wf: "limiter_wf now slots st" and g: "tb_admits (lm_global st p)" "lm_pending st p < PENDING_GLOBAL"
    and full: "\<not> table_full src st"
    and src: "\<And>b. bt_get (lm_sources st) src = Some b \<Longrightarrow> tb_admits (sb_buckets b p) \<and> sb_pending b p < PENDING_PER_SOURCE"
  shows "limiter_wf now ((src, p) # slots) (grant now src p st)"
proof -
  let ?m = "lm_sources st" and ?l = "lm_limits st"
  define b where "b = (case bt_get ?m src of Some b \<Rightarrow> b | None \<Rightarrow> new_source_buckets now ?l)"
  let ?b = "b\<lparr>sb_last_seen := now, sb_buckets := (sb_buckets b)(p := tb_consume (sb_buckets b p)),
    sb_pending := (sb_pending b)(p := sb_pending b p + 1)\<rparr>"
  have t: "table_wf ?l now slots ?m" and lim: "limits_ok ?l" using wf by (simp_all add: limiter_wf_def)
  have m: "sorted_keys ?m" using t by (simp add: table_wf_def)
  have "source_wf ?l now slots src b \<and> tb_admits (sb_buckets b p) \<and> sb_pending b p < PENDING_PER_SOURCE"
  proof (cases "bt_get ?m src")
    case None
    then have "(src, q) \<notin> set slots" for q using t by (fastforce simp: table_wf_def)
    moreover have "tb_admits (new_token_bucket now (pl_source (pool_of ?l p)))" using lim by (simp add: limits_ok_def new_bucket_admits)
    ultimately show ?thesis using None by (simp add: b_def source_wf_fresh) (simp add: new_source_buckets_def PENDING_PER_SOURCE_def)
  next
    case (Some b')
    then show ?thesis using t src by (simp add: b_def table_wf_def)
  qed
  then have b: "source_wf ?l now ((src, p) # slots) src ?b" by (simp only: source_wf_grant simp_thms)
  have "length (bt_insert src ?b ?m) \<le> SOURCE_BUCKET_LIMIT"
    using bt_length_insert [OF m, of src ?b] t full by (auto simp: table_wf_def table_full_def)
  then have "table_wf ?l now ((src, p) # slots) (bt_insert src ?b ?m)"
    using t b bt_insert_sorted [OF m] by (auto simp: table_wf_def bt_get_insert [OF m] intro: source_wf_other)
  moreover have "grant now src p st = st\<lparr>lm_sources := bt_insert src ?b ?m, lm_global := (lm_global st)(p := tb_consume (lm_global st p)),
      lm_pending := (lm_pending st)(p := lm_pending st p + 1)\<rparr>"
    by (simp add: grant_def Let_def b_def)
  ultimately show ?thesis
    using wf g by (auto simp: limiter_wf_def pool_slots_def intro: bucket_wf_consume)
qed

lemma limiter_wf_drop:
  assumes wf: "limiter_wf now slots st" and slot: "(src, p) \<in> set slots"
  shows "limiter_wf now (remove1 (src, p) slots) (drop_slot (src, p) st)"
proof -
  let ?m = "lm_sources st" and ?l = "lm_limits st" and ?slots = "remove1 (src, p) slots"
  have t: "table_wf ?l now slots ?m" using wf by (simp add: limiter_wf_def)
  have m: "sorted_keys ?m" using t by (simp add: table_wf_def)
  obtain b where b: "bt_get ?m src = Some b" using t slot by (fastforce simp: table_wf_def)
  let ?b = "b\<lparr>sb_pending := (sb_pending b)(p := sb_pending b p - 1)\<rparr>"
  have count: "count_list ?slots x = count_list slots x - (if x = (src, p) then 1 else 0)" for x
    using slot by (induction slots) auto
  have keep: "source_wf ?l now ?slots src' b'" if "source_wf ?l now slots src' b'" "src' \<noteq> src" for src' b'
    using that by (simp add: source_wf_def count)
  have "source_wf ?l now ?slots src ?b" using t b by (auto simp: table_wf_def source_wf_def count intro: diff_le_self [THEN order_trans])
  then have "table_wf ?l now ?slots (bt_insert src ?b ?m)"
    using t keep b bt_insert_sorted [OF m] bt_length_insert [OF m, of src ?b] notin_set_remove1
    by (auto simp: table_wf_def bt_get_insert [OF m] dest: set_remove1_subset [THEN subsetD])
  moreover have "pool_slots q ?slots = pool_slots q slots - (if q = p then 1 else 0)" for q
    using slot by (auto simp: pool_slots_def filter_remove1 length_remove1)
  ultimately show ?thesis
    using wf b by (auto simp: drop_slot_def limiter_wf_def Let_def intro: diff_le_self [THEN order_trans])
qed

subsection \<open>One attempt\<close>

lemma refill_twice: "tb_refill now (tb_refill now b) = tb_refill now b"
  by (auto simp: tb_refill_def Let_def)

definition idle_source :: "nat \<Rightarrow> source_buckets \<Rightarrow> bool" where
  "idle_source now b \<longleftrightarrow> (\<forall>p. sb_pending b p = 0) \<and> SOURCE_IDLE_LIFETIME \<le> now - sb_last_seen b"

text \<open>Nothing but the passing of time: buckets refill and idle sources leave.\<close>

definition aged_entry :: "nat \<Rightarrow> source_buckets option \<Rightarrow> source_buckets option \<Rightarrow> bool" where
  "aged_entry now e e' = (case e' of
     None \<Rightarrow> (\<forall>b. e = Some b \<longrightarrow> idle_source now b)
   | Some b' \<Rightarrow> (\<exists>b. e = Some b \<and> sb_pending b' = sb_pending b \<and> sb_last_seen b' = sb_last_seen b \<and>
        (\<forall>q. sb_buckets b' q \<in> {sb_buckets b q, tb_refill now (sb_buckets b q)})))"

definition only_aged :: "nat \<Rightarrow> limiter \<Rightarrow> limiter \<Rightarrow> bool" where
  "only_aged now st st' \<longleftrightarrow> lm_limits st' = lm_limits st \<and> lm_pending st' = lm_pending st \<and>
     (\<forall>q. lm_global st' q \<in> {lm_global st q, tb_refill now (lm_global st q)}) \<and>
     (\<forall>src. aged_entry now (bt_get (lm_sources st) src) (bt_get (lm_sources st') src))"

lemma aged_entry_refl: "aged_entry now e e"
  by (auto simp: aged_entry_def split: option.split)

lemma aged_entry_refill:
  "aged_entry now e (Some b) \<Longrightarrow> aged_entry now e (Some (b\<lparr>sb_buckets := (sb_buckets b)(p := tb_refill now (sb_buckets b p))\<rparr>))"
  by (auto simp: aged_entry_def) (metis refill_twice)

lemma only_aged_refl: "only_aged now st st"
  by (simp add: only_aged_def aged_entry_refl)

lemma only_aged_global:
  "only_aged now st st' \<Longrightarrow> only_aged now st (st'\<lparr>lm_global := (lm_global st')(p := tb_refill now (lm_global st' p))\<rparr>)"
  by (auto simp: only_aged_def) (metis refill_twice)+

lemma all_pools: "(\<forall>p. P p) \<longleftrightarrow> P Join \<and> P Member"
  by (metis admission_pool.exhaust)

lemma evict_get:
  assumes m: "sorted_keys (lm_sources st)"
  shows "bt_get (lm_sources (evict_idle now st)) src =
    (case bt_get (lm_sources st) src of None \<Rightarrow> None | Some b \<Rightarrow> if idle_source now b then None else Some b)"
proof -
  define ks where "ks = map fst (filter (\<lambda>(_, b). sb_pending b Join = 0 \<and> sb_pending b Member = 0 \<and> SOURCE_IDLE_LIFETIME \<le> now - sb_last_seen b) (lm_sources st))"
  have "src \<in> set ks \<longleftrightarrow> (\<exists>b. (src, b) \<in> set (lm_sources st) \<and> idle_source now b)"
    unfolding ks_def idle_source_def all_pools by force
  then have "src \<in> set ks \<longleftrightarrow> (\<exists>b. bt_get (lm_sources st) src = Some b \<and> idle_source now b)"
    by (simp add: bt_set_get [OF m])
  moreover have "lm_sources (evict_idle now st) = fold bt_remove ks (lm_sources st)"
    by (simp add: evict_idle_def ks_def)
  ultimately show ?thesis by (auto simp: map_of_fold_remove split: option.split)
qed

lemma only_aged_evict:
  assumes "sorted_keys (lm_sources st)"
  shows "only_aged now st (evict_idle now st)"
proof -
  have "lm_limits (evict_idle now st) = lm_limits st" "lm_pending (evict_idle now st) = lm_pending st"
    "lm_global (evict_idle now st) = lm_global st" by (simp_all add: evict_idle_def Let_def)
  then show ?thesis
    unfolding only_aged_def evict_get [OF assms] by (simp add: aged_entry_def split: option.split)
qed

lemma only_aged_source:
  assumes a: "only_aged now st st'" and m: "sorted_keys (lm_sources st')" and b: "bt_get (lm_sources st') src = Some b"
  shows "only_aged now st (st'\<lparr>lm_sources := bt_insert src (b\<lparr>sb_buckets := (sb_buckets b)(p := tb_refill now (sb_buckets b p))\<rparr>) (lm_sources st')\<rparr>)"
  using a aged_entry_refill [of now "bt_get (lm_sources st) src" b p] b [symmetric]
  by (auto simp: only_aged_def bt_get_insert [OF m])

definition may_grant :: "merge_source \<Rightarrow> admission_pool \<Rightarrow> limiter \<Rightarrow> bool" where
  "may_grant src p st \<longleftrightarrow> tb_admits (lm_global st p) \<and> lm_pending st p < PENDING_GLOBAL \<and> \<not> table_full src st \<and>
     (\<forall>b. bt_get (lm_sources st) src = Some b \<longrightarrow> tb_admits (sb_buckets b p) \<and> sb_pending b p < PENDING_PER_SOURCE)"

lemma limiter_wf_sorted: "limiter_wf now slots st \<Longrightarrow> sorted_keys (lm_sources st)"
  by (simp add: limiter_wf_def table_wf_def)

lemma table_full_update:
  assumes "sorted_keys (lm_sources st)" "bt_get (lm_sources st) src = Some b"
  shows "\<not> table_full src (st\<lparr>lm_sources := bt_insert src b' (lm_sources st)\<rparr>)"
  by (simp add: table_full_def bt_get_insert [OF assms(1)])

lemma begin_merge_outcome:
  assumes wf: "limiter_wf now slots st"
  shows "(\<exists>what st'. begin_merge now src p st = (Inl (overloaded_error what), st') \<and> only_aged now st st' \<and> limiter_wf now slots st') \<or>
    (\<exists>st'. begin_merge now src p st = (Inr (src, p), grant now src p st') \<and> only_aged now st st' \<and> limiter_wf now slots st' \<and>
       may_grant src p st' \<and> lm_global st' p = tb_refill now (lm_global st p))"
proof -
  define st1 where "st1 = (if table_full src st then evict_idle now st else st)"
  define st2 where "st2 = st1\<lparr>lm_global := (lm_global st1)(p := tb_refill now (lm_global st1 p))\<rparr>"
  have a1: "only_aged now st st1" "limiter_wf now slots st1" "lm_global st1 = lm_global st"
    using limiter_wf_evict [OF wf] only_aged_evict [OF limiter_wf_sorted [OF wf]] wf
    by (auto simp: st1_def only_aged_refl evict_idle_def Let_def)
  have a2: "only_aged now st st2" "limiter_wf now slots st2" "lm_global st2 p = tb_refill now (lm_global st p)"
    using only_aged_global [OF a1(1)] limiter_wf_refill_global [OF a1(2)] a1(3) by (simp_all add: st2_def)
  have f2: "table_full src st2 = table_full src st1" "lm_pending st2 = lm_pending st1" "lm_sources st2 = lm_sources st1"
    by (simp_all add: st2_def table_full_def)
  have merge: "begin_merge now src p st =
     (if table_full src st1 then (Inl (overloaded_error ''merge source buckets''), st1)
      else if PENDING_GLOBAL \<le> lm_pending st1 p then (Inl (overloaded_error ''merge global pending''), st1)
      else if \<not> tb_admits (lm_global st2 p) then (Inl (overloaded_error ''merge rate budget''), st2)
      else (case bt_get (lm_sources st2) src of
         None \<Rightarrow> (Inr (src, p), grant now src p st2)
       | Some b \<Rightarrow>
          if PENDING_PER_SOURCE \<le> sb_pending b p then (Inl (overloaded_error ''merge source pending''), st2)
          else let b = b\<lparr>sb_buckets := (sb_buckets b)(p := tb_refill now (sb_buckets b p))\<rparr>;
                   st = st2\<lparr>lm_sources := bt_insert src b (lm_sources st2)\<rparr>
               in if \<not> tb_admits (sb_buckets b p) then (Inl (overloaded_error ''merge rate budget''), st)
                  else (Inr (src, p), grant now src p st)))"
    by (simp only: begin_merge_def Let_def st1_def [symmetric] st2_def [symmetric])
  show ?thesis
  proof (cases "table_full src st1 \<or> PENDING_GLOBAL \<le> lm_pending st1 p \<or> \<not> tb_admits (lm_global st2 p)")
    case True
    then show ?thesis using a1(1,2) a2(1,2) unfolding merge by auto
  next
    case ok: False
    show ?thesis
    proof (cases "bt_get (lm_sources st2) src")
      case None
      then show ?thesis using ok a2 f2 merge by (auto simp: may_grant_def)
    next
      case (Some b)
      note m = limiter_wf_sorted [OF a2(2)]
      let ?b = "b\<lparr>sb_buckets := (sb_buckets b)(p := tb_refill now (sb_buckets b p))\<rparr>"
      define st3 where "st3 = st2\<lparr>lm_sources := bt_insert src ?b (lm_sources st2)\<rparr>"
      have a3: "only_aged now st st3" "limiter_wf now slots st3" "lm_global st3 = lm_global st2" "lm_pending st3 = lm_pending st2"
        "\<not> table_full src st3" "bt_get (lm_sources st3) src = Some ?b"
        using only_aged_source [OF a2(1) m Some] limiter_wf_refill_source [OF a2(2) Some] table_full_update [OF m Some]
        by (simp_all add: st3_def bt_get_insert [OF m])
      have "begin_merge now src p st =
         (if PENDING_PER_SOURCE \<le> sb_pending b p then (Inl (overloaded_error ''merge source pending''), st2)
          else if \<not> tb_admits (sb_buckets ?b p) then (Inl (overloaded_error ''merge rate budget''), st3)
          else (Inr (src, p), grant now src p st3))"
        using ok by (simp add: merge Some Let_def st3_def)
      moreover have "may_grant src p st3" if "tb_admits (sb_buckets ?b p)" "sb_pending b p < PENDING_PER_SOURCE"
        using ok a3 f2 that by (simp add: may_grant_def)
      moreover have "lm_global st3 p = tb_refill now (lm_global st p)" using a3(3) a2(3) by simp
      ultimately show ?thesis using a2(1,2) a3(1,2) by (metis not_le)
    qed
  qed
qed

subsection \<open>Runs\<close>

text \<open>
  A configuration is the clock, the limiter and the slots still held. A step is one attempt at a
  later instant, or a slot released; its label is the pool an attempt was granted from.
\<close>

type_synonym merge_config = "nat \<times> limiter \<times> merge_slot list"

inductive merge_step :: "merge_config \<Rightarrow> admission_pool option \<Rightarrow> merge_config \<Rightarrow> bool" where
  granted: "now \<le> now' \<Longrightarrow> begin_merge now' src p st = (Inr slot, st') \<Longrightarrow>
    merge_step (now, st, slots) (Some p) (now', st', slot # slots)"
| refused: "now \<le> now' \<Longrightarrow> begin_merge now' src p st = (Inl e, st') \<Longrightarrow>
    merge_step (now, st, slots) None (now', st', slots)"
| dropped: "now \<le> now' \<Longrightarrow> slot \<in> set slots \<Longrightarrow>
    merge_step (now, st, slots) None (now', drop_slot slot st, remove1 slot slots)"

inductive merge_run :: "admission_pool \<Rightarrow> merge_config \<Rightarrow> nat \<Rightarrow> merge_config \<Rightarrow> bool" for p where
  idle: "merge_run p c 0 c"
| attempt: "merge_run p c n c' \<Longrightarrow> merge_step c' g c'' \<Longrightarrow> merge_run p c (if g = Some p then Suc n else n) c''"

fun config_ok :: "merge_config \<Rightarrow> bool" where
  "config_ok (now, st, slots) = limiter_wf now slots st"

lemma step_attempt:
  assumes wf: "limiter_wf now slots st" and le: "now \<le> now'" and merge: "begin_merge now' src p st = (r, st')"
  shows "case r of Inl _ \<Rightarrow> limiter_wf now' slots st' \<and> only_aged now' st st'
    | Inr slot \<Rightarrow> limiter_wf now' (slot # slots) st' \<and> lm_limits st' = lm_limits st \<and>
        lm_global st' p = tb_consume (tb_refill now' (lm_global st p)) \<and> tb_admits (tb_refill now' (lm_global st p)) \<and>
        (\<forall>q. q \<noteq> p \<longrightarrow> lm_global st' q \<in> {lm_global st q, tb_refill now' (lm_global st q)})"
proof -
  from begin_merge_outcome [OF limiter_wf_later [OF wf le], of src p]
  show ?thesis
  proof (elim disjE exE conjE)
    fix st1
    assume b: "begin_merge now' src p st = (Inr (src, p), grant now' src p st1)" and a: "only_aged now' st st1"
      and wf1: "limiter_wf now' slots st1" and may: "may_grant src p st1" and g: "lm_global st1 p = tb_refill now' (lm_global st p)"
    have "limiter_wf now' ((src, p) # slots) (grant now' src p st1)"
      using limiter_wf_grant [OF wf1, of p src] may unfolding may_grant_def by blast
    then show ?thesis using b merge a may g by (auto simp: only_aged_def grant_def Let_def may_grant_def)
  qed (use merge in auto)
qed

lemma merge_step_ok: "merge_step c g c' \<Longrightarrow> config_ok c \<Longrightarrow> config_ok c'"
proof (induction rule: merge_step.induct)
  case (granted now now' src p st slot st' slots)
  then show ?case using step_attempt [of now slots st now' src p "Inr slot" st'] by simp
next
  case (refused now now' src p st e st' slots)
  then show ?case using step_attempt [of now slots st now' src p "Inl e" st'] by simp
next
  case (dropped now now' slot slots st)
  then show ?case using limiter_wf_drop [OF limiter_wf_later, of now slots st now' "fst slot" "snd slot"] by simp
qed

lemma merge_run_ok: "merge_run p c n c' \<Longrightarrow> config_ok c \<Longrightarrow> config_ok c'"
  by (induction rule: merge_run.induct) (auto intro: merge_step_ok)

lemma merge_run_start: "limits_ok l \<Longrightarrow> merge_run p (t0, new_limiter t0 l, []) n c \<Longrightarrow> config_ok c"
  using merge_run_ok [of p "(t0, new_limiter t0 l, [])" n c] limiter_wf_new [of l t0] by simp

subsection \<open>The rate bound\<close>

text \<open>What the grants of a run have spent, weighed by the window, against what the bucket held and earned.\<close>

definition spent_ok :: "nat \<Rightarrow> nat \<Rightarrow> token_bucket \<Rightarrow> bool" where
  "spent_ok t1 n b \<longleftrightarrow> n = 0 \<or> t1 \<le> tb_last b \<and>
     n * TOKEN_SCALE * tb_window b + tb_tokens b * tb_window b \<le> tb_capacity b * tb_window b + unat (tb_burst b) * TOKEN_SCALE * (tb_last b - t1)"

lemma spent_ok_refill:
  assumes "spent_ok t1 n b" "tb_tokens b \<le> tb_capacity b" "tb_last b \<le> now"
  shows "spent_ok t1 n (tb_refill now b)"
proof (cases "n = 0")
  case False
  have "unat (tb_burst b) * TOKEN_SCALE * (now - t1) =
      unat (tb_burst b) * TOKEN_SCALE * (now - tb_last b) + unat (tb_burst b) * TOKEN_SCALE * (tb_last b - t1)"
    using assms(1,3) False by (simp add: spent_ok_def distrib_left [symmetric])
  then show ?thesis using assms False refill_gain [OF assms(2,3)]
    by (simp add: spent_ok_def refill_last tb_capacity_def)
qed (simp add: spent_ok_def)

lemma spent_ok_consume:
  assumes "spent_ok t1 n b" "tb_tokens b \<le> tb_capacity b" "tb_admits b" "t1 \<le> tb_last b"
  shows "spent_ok t1 (Suc n) (tb_consume b)"
proof -
  have "tb_tokens b * tb_window b = (tb_tokens b - TOKEN_SCALE) * tb_window b + TOKEN_SCALE * tb_window b"
    using assms(3) by (simp add: tb_admits_def distrib_right [symmetric])
  moreover have "tb_tokens b * tb_window b \<le> tb_capacity b * tb_window b" using assms(2) by simp
  ultimately show ?thesis using assms consume_exact [OF assms(3,2)]
    by (cases "n = 0") (auto simp: spent_ok_def tb_capacity_def distrib_right)
qed

lemma merge_step_spent:
  assumes "merge_step (now, st, slots) g (now', st', slots')" "limiter_wf now slots st" "t1 \<le> now" "spent_ok t1 n (lm_global st p)"
  shows "t1 \<le> now' \<and> lm_limits st' = lm_limits st \<and> spent_ok t1 (if g = Some p then Suc n else n) (lm_global st' p)"
proof -
  have wf: "tb_tokens (lm_global st p) \<le> tb_capacity (lm_global st p)" "tb_last (lm_global st p) \<le> now"
    using assms(2) by (auto simp: limiter_wf_def bucket_wf_def)
  have refill: "spent_ok t1 n (tb_refill now' (lm_global st p))" if "now \<le> now'"
    using spent_ok_refill [OF assms(4) wf(1)] wf(2) that by simp
  from assms(1) show ?thesis
  proof cases
    case (granted src q slot)
    note s = step_attempt [OF assms(2) granted(3,4)]
    let ?b = "tb_refill now' (lm_global st p)"
    have last: "tb_last ?b = now'" using wf(2) granted(3) by (simp add: refill_last)
    have cap: "tb_tokens ?b \<le> tb_capacity ?b"
      using wf by (auto simp: tb_refill_def Let_def tb_capacity_def)
    show ?thesis
    proof (cases "q = p")
      case True
      then have "lm_global st' p = tb_consume ?b" "tb_admits ?b" using s by simp_all
      then show ?thesis using spent_ok_consume [OF refill cap] granted True last assms(3) s by simp
    next
      case False
      then show ?thesis using s granted refill assms(3,4) by auto
    qed
  next
    case (refused src q e)
    then have "lm_limits st' = lm_limits st" "lm_global st' p \<in> {lm_global st p, tb_refill now' (lm_global st p)}"
      using step_attempt [OF assms(2) refused(3,4)] by (simp_all add: only_aged_def)
    then show ?thesis using refused refill assms(3,4) by auto
  next
    case (dropped slot)
    then show ?thesis using assms(3,4) by (auto simp: drop_slot_def Let_def split: prod.split option.split)
  qed
qed

lemma merge_run_spent:
  assumes "merge_run p (t1, st1, slots1) n c" "limiter_wf t1 slots1 st1"
  shows "case c of (t2, st2, slots2) \<Rightarrow> t1 \<le> t2 \<and> lm_limits st2 = lm_limits st1 \<and> spent_ok t1 n (lm_global st2 p)"
  using assms
proof (induction "(t1, st1, slots1)" n c rule: merge_run.induct)
  case idle
  show ?case by (simp add: spent_ok_def)
next
  case (attempt n c' g c'')
  obtain now st slots now' st' slots' where c: "c' = (now, st, slots)" "c'' = (now', st', slots')" by (cases c', cases c'') auto
  have "limiter_wf now slots st" using merge_run_ok [OF attempt.hyps(1)] attempt.prems c by simp
  then show ?case using merge_step_spent [of now st slots g now' st' slots' t1 n p] attempt c by simp
qed

subsection \<open>Validated limits\<close>

lemma member_burst_pos: "0 < floor \<Longrightarrow> floor < 2 ^ 32 \<Longrightarrow> 0 < member_burst members floor"
  unfolding member_burst_def word_less_nat_alt by (cases "members = 0") (simp_all add: unat_of_nat take_bit_eq_mod max_def)

lemma scaled_limits_ok: "limits_ok (scaled_limits members)"
  by (simp add: limits_ok_def pool_of_def scaled_limits_def member_burst_pos split: admission_pool.split)

lemma with_join_ok: "limits_ok l \<Longrightarrow> with_join_pool l sb sw gb gw = Inr l' \<Longrightarrow> limits_ok l'"
  by (auto simp: with_join_pool_def reject_zero_def limits_ok_def all_pools pool_of_def word_gt_0 unat_eq_0 split: if_splits)

lemma with_member_ok: "limits_ok l \<Longrightarrow> with_member_pool l sb sw gb gw = Inr l' \<Longrightarrow> limits_ok l'"
  by (auto simp: with_member_pool_def reject_zero_def limits_ok_def all_pools pool_of_def word_gt_0 unat_eq_0 split: if_splits)

subsection \<open>Properties\<close>

text \<open>
  C17: Over any stretch of any run, from an instant t1 to an instant t2, the attempts a pool granted
  are at most its burst plus what its refill rate earns in that time: n windows cost no more than
  burst times the window and the elapsed time. No choice of sources, no interleaving with the other
  pool, no rounding of the fixed-point refill gets past it.
\<close>

theorem merge_rate_bound:
  assumes "limits_ok l" "merge_run p (t0, new_limiter t0 l, []) n0 (t1, st1, slots1)" "merge_run p (t1, st1, slots1) n (t2, st2, slots2)"
    and "pl_global (pool_of l p) = (burst, window)"
  shows "n * window \<le> unat burst * (window + (t2 - t1))"
proof -
  have start: "limiter_wf t0 [] (new_limiter t0 l)" using assms(1) by (rule limiter_wf_new)
  have wf1: "limiter_wf t1 slots1 st1" using merge_run_start [OF assms(1,2)] by simp
  have wf2: "limiter_wf t2 slots2 st2" using merge_run_ok [OF assms(3)] wf1 by simp
  let ?b = "lm_global st2 p"
  have lim: "lm_limits st2 = l" and spent: "spent_ok t1 n ?b"
    using merge_run_spent [OF assms(2) start] merge_run_spent [OF assms(3) wf1] by (simp_all add: new_limiter_def)
  have b: "tb_burst ?b = burst" "tb_window ?b = window" "tb_last ?b \<le> t2"
    using wf2 lim assms(4) by (auto simp: limiter_wf_def bucket_wf_def)
  show ?thesis
  proof (cases "n = 0")
    case False
    have "n * TOKEN_SCALE * window \<le> unat burst * TOKEN_SCALE * window + unat burst * TOKEN_SCALE * (tb_last ?b - t1)"
      using spent False b by (simp add: spent_ok_def tb_capacity_def)
    also have "\<dots> \<le> unat burst * TOKEN_SCALE * window + unat burst * TOKEN_SCALE * (t2 - t1)"
      using b(3) by (intro add_left_mono mult_left_mono) auto
    finally have "TOKEN_SCALE * (n * window) \<le> TOKEN_SCALE * (unat burst * (window + (t2 - t1)))"
      by (simp add: algebra_simps)
    then show ?thesis by (simp add: TOKEN_SCALE_def)
  qed simp
qed

text \<open>
  C18: In every reachable state the pending counts are exactly the admission slots still held, per
  pool and per source and pool, at most 64 of a pool and at most 4 of a source, and the table of
  sources never outgrows 1,024 entries.
\<close>

theorem merge_pending_exact:
  assumes "limits_ok l" "merge_run p (t0, new_limiter t0 l, []) n (now, st, slots)"
  shows "lm_pending st q = length (filter (\<lambda>slot. snd slot = q) slots) \<and> length (filter (\<lambda>slot. snd slot = q) slots) \<le> 64 \<and>
    (case bt_get (lm_sources st) src of None \<Rightarrow> 0 | Some b \<Rightarrow> sb_pending b q) = count_list slots (src, q) \<and>
    count_list slots (src, q) \<le> 4 \<and> length (lm_sources st) \<le> 1024"
proof -
  have wf: "limiter_wf now slots st" using merge_run_start [OF assms] by simp
  then have t: "table_wf (lm_limits st) now slots (lm_sources st)" by (simp add: limiter_wf_def)
  have "(case bt_get (lm_sources st) src of None \<Rightarrow> 0 | Some b \<Rightarrow> sb_pending b q) = count_list slots (src, q) \<and> count_list slots (src, q) \<le> 4"
  proof (cases "bt_get (lm_sources st) src")
    case None
    then have "count_list slots (src, q) = 0" using t by (fastforce simp: table_wf_def count_list_zero)
    then show ?thesis using None by simp
  next
    case (Some b)
    then show ?thesis using t by (simp add: table_wf_def source_wf_def PENDING_PER_SOURCE_def)
  qed
  then show ?thesis using wf t
    by (simp add: limiter_wf_def pool_slots_def PENDING_GLOBAL_def table_wf_def SOURCE_BUCKET_LIMIT_def)
qed

text \<open>
  C25: A refused attempt is an overload error and spends nothing: no bucket loses tokens, no pending
  count moves, no source enters the table, no idle clock is refreshed, and a source leaves the table
  only with nothing pending and ten minutes without a grant.
\<close>

theorem merge_refusal_spends_nothing:
  assumes "limits_ok l" "merge_run p (t0, new_limiter t0 l, []) n (now, st, slots)" "now \<le> now'"
    and "begin_merge now' src q st = (Inl e, st')"
  shows "(\<exists>what. e = overloaded_error what) \<and> lm_pending st' = lm_pending st \<and>
    (\<forall>r. tb_tokens (lm_global st r) \<le> tb_tokens (lm_global st' r)) \<and>
    (\<forall>k b'. bt_get (lm_sources st') k = Some b' \<longrightarrow> (\<exists>b. bt_get (lm_sources st) k = Some b \<and> sb_pending b' = sb_pending b \<and>
       sb_last_seen b' = sb_last_seen b \<and> (\<forall>r. tb_tokens (sb_buckets b r) \<le> tb_tokens (sb_buckets b' r)))) \<and>
    (\<forall>k b. bt_get (lm_sources st) k = Some b \<and> bt_get (lm_sources st') k = None \<longrightarrow>
       (\<forall>r. sb_pending b r = 0) \<and> 600 * 10 ^ 9 \<le> now' - sb_last_seen b)"
proof -
  have wf: "limiter_wf now' slots st" using merge_run_start [OF assms(1,2)] limiter_wf_later [OF _ assms(3)] by simp
  from begin_merge_outcome [OF wf, of src q] assms(4)
  have e: "\<exists>what. e = overloaded_error what" and aged: "only_aged now' st st'" by auto
  have cap: "tb_tokens b \<le> tb_tokens b'" if "tb_tokens b \<le> tb_capacity b" "b' \<in> {b, tb_refill now' b}" for b b'
    using that refill_mono [OF that(1)] by auto
  have global: "tb_tokens (lm_global st r) \<le> tb_tokens (lm_global st' r)" for r
    using cap [of "lm_global st r" "lm_global st' r"] wf aged by (simp add: limiter_wf_def bucket_wf_def only_aged_def)
  have entry: "aged_entry now' (bt_get (lm_sources st) k) (bt_get (lm_sources st') k)" for k
    using aged by (simp add: only_aged_def)
  have source: "tb_tokens (sb_buckets b r) \<le> tb_capacity (sb_buckets b r)" if "bt_get (lm_sources st) k = Some b" for k b r
    using wf that by (simp add: limiter_wf_def table_wf_def source_wf_def bucket_wf_def)
  have "\<exists>b. bt_get (lm_sources st) k = Some b \<and> sb_pending b' = sb_pending b \<and> sb_last_seen b' = sb_last_seen b \<and>
      (\<forall>r. tb_tokens (sb_buckets b r) \<le> tb_tokens (sb_buckets b' r))" if k: "bt_get (lm_sources st') k = Some b'" for k b'
  proof -
    obtain b where b: "bt_get (lm_sources st) k = Some b" "sb_pending b' = sb_pending b" "sb_last_seen b' = sb_last_seen b"
      "\<And>r. sb_buckets b' r \<in> {sb_buckets b r, tb_refill now' (sb_buckets b r)}"
      using entry [of k] k by (auto simp: aged_entry_def)
    show ?thesis using b(1-3) cap [OF source [OF b(1)] b(4)] by blast
  qed
  moreover have "(\<forall>r. sb_pending b r = 0) \<and> 600 * 10 ^ 9 \<le> now' - sb_last_seen b"
    if "bt_get (lm_sources st) k = Some b" "bt_get (lm_sources st') k = None" for k b
    using entry [of k] that by (simp add: aged_entry_def idle_source_def SOURCE_IDLE_LIFETIME_def)
  ultimately show ?thesis using e aged global unfolding only_aged_def by blast
qed

subsection \<open>Witnesses\<close>

definition ten :: merge_source where "ten = V4 [10, 0, 0, 1]"
definition quiet :: limiter where "quiet = new_limiter 0 (scaled_limits 64)"
definition busy1 :: limiter where "busy1 = snd (begin_merge 5 ten Join quiet)"
definition busy2 :: limiter where "busy2 = snd (begin_merge 6 ten Join busy1)"
definition busy3 :: limiter where "busy3 = snd (begin_merge 7 ten Join busy2)"
definition busy4 :: limiter where "busy4 = snd (begin_merge 8 ten Join busy3)"
definition busy5 :: limiter where "busy5 = snd (begin_merge 9 ten Join busy4)"

lemmas attempt_defs = begin_merge_def Let_def table_full_def grant_def new_limiter_def new_source_buckets_def new_token_bucket_def
  tb_refill_def tb_gained_def tb_capacity_def tb_admits_def tb_consume_def pool_of_def scaled_limits_def
  PENDING_GLOBAL_def PENDING_PER_SOURCE_def SOURCE_BUCKET_LIMIT_def TOKEN_SCALE_def MINUTE_def

lemma quiet_attempt: "begin_merge 5 ten Join quiet = (Inr (ten, Join), busy1)"
  unfolding busy1_def quiet_def by (simp add: attempt_defs)

lemma busy1_attempt: "begin_merge 6 ten Join busy1 = (Inr (ten, Join), busy2)"
  unfolding busy2_def by (simp add: busy1_def quiet_def) (simp add: attempt_defs)

lemma busy2_attempt: "begin_merge 7 ten Join busy2 = (Inr (ten, Join), busy3)"
  unfolding busy3_def by (simp add: busy1_def busy2_def quiet_def) (simp add: attempt_defs)

lemma busy3_attempt: "begin_merge 8 ten Join busy3 = (Inr (ten, Join), busy4)"
  unfolding busy4_def by (simp add: busy1_def busy2_def busy3_def quiet_def) (simp add: attempt_defs)

lemma busy4_refused: "begin_merge 9 ten Join busy4 = (Inl (overloaded_error ''merge source pending''), busy5)"
  unfolding busy5_def by (simp add: busy1_def busy2_def busy3_def busy4_def quiet_def) (simp add: attempt_defs)

lemma merge_run_granted:
  "merge_run p c n (now, st, slots) \<Longrightarrow> now \<le> now' \<Longrightarrow> begin_merge now' src p st = (Inr slot, st') \<Longrightarrow>
    merge_run p c (Suc n) (now', st', slot # slots)"
  using merge_run.attempt [OF _ granted, of p c n now st slots now' src p slot st'] by simp

lemma quiet_run: "merge_run Join (0, quiet, []) 2 (6, busy2, replicate 2 (ten, Join))"
proof -
  have "merge_run Join (0, quiet, []) (Suc (Suc 0)) (6, busy2, [(ten, Join), (ten, Join)])"
    by (rule merge_run_granted [OF merge_run_granted [OF merge_run.idle _ quiet_attempt] _ busy1_attempt]) simp_all
  then show ?thesis by (simp add: numeral_2_eq_2)
qed

lemma busy_run: "merge_run Join (6, busy2, replicate 2 (ten, Join)) 2 (8, busy4, replicate 4 (ten, Join))"
proof -
  have "merge_run Join (6, busy2, replicate 2 (ten, Join)) (Suc (Suc 0)) (8, busy4, (ten, Join) # (ten, Join) # replicate 2 (ten, Join))"
    by (rule merge_run_granted [OF merge_run_granted [OF merge_run.idle _ busy2_attempt] _ busy3_attempt]) simp_all
  then show ?thesis by (simp add: numeral_2_eq_2 numeral_eq_Suc)
qed

lemma merge_run_trans: "merge_run p c' m c'' \<Longrightarrow> merge_run p c n c' \<Longrightarrow> merge_run p c (n + m) c''"
  by (induction rule: merge_run.induct) (auto intro: merge_run.attempt dest: merge_run.attempt split: if_splits)

theorem merge_rate_bound_witness:
  "merge_run Join (0, quiet, []) 2 (6, busy2, replicate 2 (ten, Join)) \<and>
   merge_run Join (6, busy2, replicate 2 (ten, Join)) 2 (8, busy4, replicate 4 (ten, Join)) \<and>
   2 * MINUTE \<le> 256 * (MINUTE + (8 - 6))"
  using merge_rate_bound [OF scaled_limits_ok quiet_run [unfolded quiet_def] busy_run, of 256 MINUTE] quiet_run busy_run
  by (simp add: pool_of_def scaled_limits_def)

theorem merge_pending_exact_witness:
  "merge_run Join (0, quiet, []) 2 (6, busy2, replicate 2 (ten, Join)) \<and> lm_pending busy2 Join = 2"
  using merge_pending_exact [OF scaled_limits_ok quiet_run [unfolded quiet_def], of Join ten] quiet_run by simp

theorem merge_refusal_spends_nothing_witness:
  "begin_merge 9 ten Join busy4 = (Inl (overloaded_error ''merge source pending''), busy5) \<and> lm_pending busy5 = lm_pending busy4"
  using merge_refusal_spends_nothing [OF scaled_limits_ok merge_run_trans [OF busy_run quiet_run, unfolded quiet_def] _ busy4_refused] busy4_refused
  by simp

end
