(* ===== verification/Positive_Float.thy ===== *)
theory Positive_Float
  imports Complex_Main "HOL-Library.Log_Nat"
begin

text \<open>
  Positive double-precision arithmetic, what \<^verbatim>\<open>src/routing/graph.rs\<close> uses of \<^verbatim>\<open>f64\<close>.

  A positive normal double is a rational with a 53-bit significand; addition and division are the
  exact result rounded to nearest, ties to even. Overflow, subnormals, zero, signs and NaN are outside
  the model: edge costs lie between \<open>2 ^ -32\<close> and \<open>2 ^ 32\<close> and only positive values are ever added.
  The laws path planning relies on are the locale \<open>path_cost\<close>: sums are monotone in the left summand and never
  below either summand, although rounded addition is not associative.
\<close>

type_synonym f64 = rat

subsection \<open>Rounding\<close>

definition round_half_even :: "rat \<Rightarrow> int" where
  "round_half_even r = (let f = \<lfloor>r\<rfloor>; d = r - of_int f in
     if d < 1 / 2 then f else if 1 / 2 < d then f + 1 else if even f then f else f + 1)"

text \<open>The binary exponent of a positive rational, from the bit lengths of its numerator and denominator.\<close>

definition binary_exponent :: "rat \<Rightarrow> int" where
  "binary_exponent x = (case quotient_of x of (p, q) \<Rightarrow>
     let e = int (floorlog 2 (nat p)) - int (floorlog 2 (nat q)) in
     if 2 powi e \<le> x then e else e - 1)"

definition unit_last_place :: "rat \<Rightarrow> rat" where
  "unit_last_place x = 2 powi (binary_exponent x - 52)"

definition round_f64 :: "rat \<Rightarrow> f64" where
  "round_f64 x = of_int (round_half_even (x / unit_last_place x)) * unit_last_place x"

definition f64_add :: "f64 \<Rightarrow> f64 \<Rightarrow> f64" where "f64_add a b = round_f64 (a + b)"

definition f64_div :: "f64 \<Rightarrow> f64 \<Rightarrow> f64" where "f64_div a b = round_f64 (a / b)"

definition is_f64 :: "rat \<Rightarrow> bool" where "is_f64 x \<longleftrightarrow> 0 < x \<and> round_f64 x = x"

subsection \<open>Rounding is monotone and idempotent\<close>

lemma round_half_even_of_int [simp]: "round_half_even (of_int k) = k"
  by (simp add: round_half_even_def)

lemma round_half_even_bounds: "\<lfloor>r\<rfloor> \<le> round_half_even r \<and> round_half_even r \<le> \<lfloor>r\<rfloor> + 1"
  by (simp add: round_half_even_def Let_def)

lemma round_half_even_mono:
  assumes "x \<le> y"
  shows "round_half_even x \<le> round_half_even y"
proof (cases "\<lfloor>x\<rfloor> = \<lfloor>y\<rfloor>")
  case True
  then show ?thesis using assms by (auto simp: round_half_even_def Let_def)
next
  case False
  then have "\<lfloor>x\<rfloor> + 1 \<le> \<lfloor>y\<rfloor>" using floor_mono [OF assms] by linarith
  then show ?thesis using round_half_even_bounds [of x] round_half_even_bounds [of y] by linarith
qed

lemma floorlog_two:
  assumes "0 < (n::int)"
  shows "2 powi (int (floorlog 2 (nat n)) - 1) \<le> (of_int n :: rat)" "(of_int n :: rat) < 2 powi (int (floorlog 2 (nat n)))"
proof -
  let ?k = "floorlog 2 (nat n)"
  have k: "0 < ?k" using assms by (simp add: floorlog_def)
  have b: "2 ^ (?k - 1) \<le> nat n" "nat n < 2 ^ ?k" using floorlog_bounds [of "nat n" 2] assms by auto
  have n: "of_nat (nat n) = (of_int n :: rat)" using assms by simp
  have "of_nat (2 ^ (?k - 1)) \<le> (of_nat (nat n) :: rat)" using b(1) by (simp only: of_nat_le_iff)
  then have "2 ^ (?k - 1) \<le> (of_int n :: rat)" by (simp add: n)
  moreover have "(2::rat) powi (int ?k - 1) = 2 ^ (?k - 1)" using k by (simp add: of_nat_diff flip: power_int_of_nat)
  ultimately show "2 powi (int ?k - 1) \<le> (of_int n :: rat)" by simp
  have "(of_nat (nat n) :: rat) < of_nat (2 ^ ?k)" using b(2) by (simp only: of_nat_less_iff)
  then show "(of_int n :: rat) < 2 powi (int ?k)" by (simp add: n power_int_of_nat)
qed

lemma binary_exponent_bounds:
  assumes "0 < x"
  shows "2 powi binary_exponent x \<le> x" "x < 2 powi (binary_exponent x + 1)"
proof -
  obtain p q where pq: "quotient_of x = (p, q)" by (cases "quotient_of x")
  have x: "x = of_int p / of_int q" and q: "0 < q" using quotient_of_div [OF pq] quotient_of_denom_pos [OF pq] by auto
  have p: "0 < p" using assms q unfolding x by (simp add: zero_less_divide_iff)
  define a where "a = int (floorlog 2 (nat p))"
  define b where "b = int (floorlog 2 (nat q))"
  have p1: "2 powi (a - 1) \<le> (of_int p :: rat)" and p2: "(of_int p :: rat) < 2 powi a" using floorlog_two [OF p] by (simp_all add: a_def)
  have q1: "2 powi (b - 1) \<le> (of_int q :: rat)" and q2: "(of_int q :: rat) < 2 powi b" using floorlog_two [OF q] by (simp_all add: b_def)
  have "2 powi (a - b - 1) * of_int q \<le> (2 powi (a - b - 1) * 2 powi b :: rat)" using q2 by simp
  also have "\<dots> = 2 powi (a - 1)" by (simp flip: power_int_add)
  also have "\<dots> \<le> of_int p" by (rule p1)
  finally have low: "2 powi (a - b - 1) \<le> x" using q by (simp add: x pos_le_divide_eq)
  have "of_int p < (2 powi a :: rat)" by (rule p2)
  also have "\<dots> = 2 powi (a - b + 1) * 2 powi (b - 1)" by (simp flip: power_int_add)
  also have "\<dots> \<le> 2 powi (a - b + 1) * of_int q" using q1 by simp
  finally have high: "x < 2 powi (a - b + 1)" using q by (simp add: x pos_divide_less_eq)
  have "binary_exponent x = (if 2 powi (a - b) \<le> x then a - b else a - b - 1)"
    by (simp add: binary_exponent_def pq a_def b_def Let_def)
  then show "2 powi binary_exponent x \<le> x" "x < 2 powi (binary_exponent x + 1)" using low high by (auto simp: not_le split: if_splits)
qed

lemma powi_less_imp: "(2::rat) powi a < 2 powi b \<Longrightarrow> a < b"
  by (metis linorder_not_less one_le_numeral power_int_increasing)

lemma binary_exponent_eqI:
  assumes "2 powi e \<le> x" "x < 2 powi (e + 1)"
  shows "binary_exponent x = e"
proof -
  have x: "0 < x" using assms(1) by (meson less_le_trans zero_less_numeral zero_less_power_int)
  note b = binary_exponent_bounds [OF x]
  have "(2::rat) powi e < 2 powi (binary_exponent x + 1)" "(2::rat) powi binary_exponent x < 2 powi (e + 1)"
    using assms b by linarith+
  then show ?thesis by (auto dest!: powi_less_imp)
qed

lemma binary_exponent_mono:
  assumes "0 < x" "x \<le> y"
  shows "binary_exponent x \<le> binary_exponent y"
proof -
  have "(2::rat) powi binary_exponent x < 2 powi (binary_exponent y + 1)"
    using binary_exponent_bounds(1) [OF assms(1)] binary_exponent_bounds(2) [of y] assms by linarith
  from powi_less_imp [OF this] show ?thesis by simp
qed

lemma ulp_pos [simp]: "0 < unit_last_place x"
  by (simp add: unit_last_place_def)

lemma powi_shift: "(2::rat) powi k = 2 ^ 52 * 2 powi (k - 52)"
  using power_int_add [of "2::rat" 52 "k - 52"] by simp

lemma binade_ulp:
  "(2::rat) powi binary_exponent x = 2 ^ 52 * unit_last_place x" "(2::rat) powi (binary_exponent x + 1) = 2 ^ 53 * unit_last_place x"
proof -
  have "(2::rat) powi (52 + (binary_exponent x - 52)) = 2 powi 52 * unit_last_place x"
    "(2::rat) powi (53 + (binary_exponent x - 52)) = 2 powi 53 * unit_last_place x"
    unfolding unit_last_place_def by (subst power_int_add; simp)+
  then show "(2::rat) powi binary_exponent x = 2 ^ 52 * unit_last_place x" "(2::rat) powi (binary_exponent x + 1) = 2 ^ 53 * unit_last_place x"
    by (simp_all add: add.commute)
qed

lemma significand_bounds:
  assumes "0 < x"
  shows "2 ^ 52 \<le> x / unit_last_place x" "x / unit_last_place x < 2 ^ 53"
  using binary_exponent_bounds [OF assms] by (simp_all add: binade_ulp pos_le_divide_eq pos_divide_less_eq)

lemma round_f64_bounds:
  assumes "0 < x"
  shows "2 powi binary_exponent x \<le> round_f64 x" "round_f64 x \<le> 2 powi (binary_exponent x + 1)"
proof -
  let ?u = "unit_last_place x" and ?m = "round_half_even (x / unit_last_place x)"
  have "round_half_even (of_int (2 ^ 52)) \<le> ?m" "?m \<le> round_half_even (of_int (2 ^ 53))"
    using significand_bounds [OF assms] by (intro round_half_even_mono; simp)+
  then have "of_int (2 ^ 52) \<le> (of_int ?m :: rat)" "(of_int ?m :: rat) \<le> of_int (2 ^ 53)"
    by (simp_all only: round_half_even_of_int of_int_le_iff)
  then show "2 powi binary_exponent x \<le> round_f64 x" "round_f64 x \<le> 2 powi (binary_exponent x + 1)"
    unfolding round_f64_def binade_ulp by (intro mult_right_mono; simp add: less_imp_le)+
qed

lemma round_f64_mono:
  assumes "0 < x" "x \<le> y"
  shows "round_f64 x \<le> round_f64 y"
proof (cases "binary_exponent x = binary_exponent y")
  case True
  then have u: "unit_last_place x = unit_last_place y" by (simp add: unit_last_place_def)
  have "round_half_even (x / unit_last_place y) \<le> round_half_even (y / unit_last_place y)"
    using assms by (intro round_half_even_mono) (simp add: divide_right_mono less_imp_le)
  then show ?thesis unfolding round_f64_def u by (intro mult_right_mono) (simp_all add: less_imp_le)
next
  case False
  then have "binary_exponent x + 1 \<le> binary_exponent y" using binary_exponent_mono [OF assms] by simp
  then have "(2::rat) powi (binary_exponent x + 1) \<le> 2 powi binary_exponent y" by (simp add: power_int_increasing)
  then show ?thesis using round_f64_bounds(2) [OF assms(1)] round_f64_bounds(1) [of y] assms by linarith
qed

lemma round_f64_pos: "0 < x \<Longrightarrow> 0 < round_f64 x"
  using round_f64_bounds(1) [of x] by (meson less_le_trans zero_less_numeral zero_less_power_int)

text \<open>A multiple of the unit in the last place of its own binade is its own rounding.\<close>

lemma round_f64_multiple:
  assumes "x = of_int m * 2 powi (binary_exponent x - 52)"
  shows "round_f64 x = x"
proof -
  have "x / unit_last_place x = of_int m"
    using arg_cong [OF assms, of "\<lambda>z. z / unit_last_place x"] by (simp add: unit_last_place_def)
  then have "round_f64 x = of_int m * unit_last_place x" by (simp only: round_f64_def round_half_even_of_int)
  then show ?thesis using assms by (simp add: unit_last_place_def)
qed

lemma round_f64_idem:
  assumes "0 < x"
  shows "round_f64 (round_f64 x) = round_f64 x"
proof (cases "round_f64 x = 2 powi (binary_exponent x + 1)")
  case True
  have e: "binary_exponent (round_f64 x) = binary_exponent x + 1"
    by (rule binary_exponent_eqI) (simp_all add: True power_int_add)
  have "round_f64 x = of_int (2 ^ 52) * 2 powi (binary_exponent (round_f64 x) - 52)"
    unfolding e unfolding True using powi_shift [of "binary_exponent x + 1"] by simp
  then show ?thesis by (rule round_f64_multiple)
next
  case False
  then have "binary_exponent (round_f64 x) = binary_exponent x"
    using round_f64_bounds [OF assms] by (intro binary_exponent_eqI) auto
  then show ?thesis
    by (intro round_f64_multiple [where m = "round_half_even (x / unit_last_place x)"]) (simp add: round_f64_def unit_last_place_def)
qed

lemma is_f64_round: "0 < x \<Longrightarrow> is_f64 (round_f64 x)"
  by (simp add: is_f64_def round_f64_idem round_f64_pos)

lemma is_f64_pos: "is_f64 x \<Longrightarrow> 0 < x"
  by (simp add: is_f64_def)

text \<open>Integers up to \<open>2 ^ 53\<close> are exact.\<close>

lemma is_f64_of_nat:
  assumes "0 < n" "n \<le> 2 ^ 53"
  shows "is_f64 (of_nat n)"
proof -
  let ?e = "binary_exponent (of_nat n)"
  have n: "0 < (of_nat n :: rat)" using assms by simp
  have "(of_nat n :: rat) \<le> of_nat (2 ^ 53)" using assms(2) by (simp only: of_nat_le_iff)
  then have "(2::rat) powi ?e < 2 powi 54" using binary_exponent_bounds(1) [OF n] by (simp add: power_int_def)
  then have e: "?e \<le> 53" using powi_less_imp [of ?e 54] by linarith
  show ?thesis
  proof (cases "?e = 53")
    case True
    then have "2 ^ 53 \<le> (of_nat n :: rat)" using binary_exponent_bounds(1) [OF n] by (simp add: power_int_def)
    then have "(of_nat (2 ^ 53) :: rat) \<le> of_nat n" by simp
    then have "n = 2 ^ 53" using assms(2) unfolding of_nat_le_iff by simp
    then have "round_f64 (of_nat n) = of_nat n"
      using True by (intro round_f64_multiple [where m = "2 ^ 52"]) (simp add: power_int_def)
    then show ?thesis using n by (simp add: is_f64_def)
  next
    case False
    have "(2::rat) ^ nat (52 - ?e) * 2 powi (?e - 52) = 1"
      using False e power_int_add [of "2::rat" "52 - ?e" "?e - 52"] by (simp add: power_int_def)
    then have "(of_nat n :: rat) = of_int (int n * 2 ^ nat (52 - ?e)) * 2 powi (?e - 52)" by (simp add: mult.assoc)
    from round_f64_multiple [OF this] show ?thesis using n by (simp add: is_f64_def)
  qed
qed

lemma is_f64_half:
  assumes "is_f64 x"
  shows "is_f64 (x / 2)"
proof -
  have x: "0 < x" "round_f64 x = x" using assms by (simp_all add: is_f64_def)
  have half: "(2::rat) powi k / 2 = 2 powi (k - 1)" for k using power_int_add [of "2::rat" "k - 1" 1] by simp
  have e: "binary_exponent (x / 2) = binary_exponent x - 1"
    using binary_exponent_bounds [OF x(1)] half [of "binary_exponent x"] half [of "binary_exponent x + 1"] by (intro binary_exponent_eqI) simp_all
  have "x / 2 = of_int (round_half_even (x / unit_last_place x)) * (unit_last_place x / 2)"
    using arg_cong [OF x(2) [symmetric], of "\<lambda>y. y / 2"] unfolding round_f64_def by simp
  also have "unit_last_place x / 2 = 2 powi (binary_exponent (x / 2) - 52)"
    using half [of "binary_exponent x - 52"] by (simp add: e unit_last_place_def)
  finally have "round_f64 (x / 2) = x / 2" by (rule round_f64_multiple)
  then show ?thesis using x(1) by (simp add: is_f64_def)
qed

subsection \<open>What path planning needs of costs\<close>

locale path_cost =
  fixes add :: "'c::linorder \<Rightarrow> 'c \<Rightarrow> 'c" and cost_ok :: "'c \<Rightarrow> bool"
  assumes add_ok: "cost_ok a \<Longrightarrow> cost_ok b \<Longrightarrow> cost_ok (add a b)"
    and add_left: "cost_ok a \<Longrightarrow> cost_ok b \<Longrightarrow> a \<le> add a b"
    and add_right: "cost_ok a \<Longrightarrow> cost_ok b \<Longrightarrow> b \<le> add a b"
    and add_mono: "cost_ok a \<Longrightarrow> cost_ok a' \<Longrightarrow> cost_ok b \<Longrightarrow> a \<le> a' \<Longrightarrow> add a b \<le> add a' b"
begin

lemma total_ok: "cost_ok a \<Longrightarrow> list_all cost_ok ws \<Longrightarrow> cost_ok (foldl add a ws)"
  by (induction ws arbitrary: a) (simp_all add: add_ok)

lemma total_ge: "cost_ok a \<Longrightarrow> list_all cost_ok ws \<Longrightarrow> a \<le> foldl add a ws"
  by (induction ws arbitrary: a) (auto intro: order_trans [OF add_left] simp: add_ok)

lemma total_mono: "cost_ok a \<Longrightarrow> cost_ok a' \<Longrightarrow> list_all cost_ok ws \<Longrightarrow> a \<le> a' \<Longrightarrow> foldl add a ws \<le> foldl add a' ws"
  by (induction ws arbitrary: a a') (simp_all add: add_ok add_mono)

end

interpretation fl: path_cost f64_add is_f64
proof
  fix a b a' :: rat
  assume a: "is_f64 a" and b: "is_f64 b"
  have p: "0 < a" "0 < b" using a b by (simp_all add: is_f64_pos)
  show "is_f64 (f64_add a b)" using p by (simp add: f64_add_def is_f64_round)
  show "a \<le> f64_add a b" using round_f64_mono [of a "a + b"] a p by (simp add: f64_add_def is_f64_def)
  show "b \<le> f64_add a b" using round_f64_mono [of b "a + b"] b p by (simp add: f64_add_def is_f64_def)
  show "f64_add a b \<le> f64_add a' b" if "a \<le> a'" using that p by (simp add: f64_add_def round_f64_mono)
qed

end
