(* ===== verification/Topology_Graph.thy ===== *)
theory Topology_Graph
  imports Ordered_Map Positive_Float "HOL-Library.List_Lexorder" "HOL-Library.Product_Lexorder"
begin

text \<open>
  The learned topology, \<^verbatim>\<open>src/routing/graph.rs\<close>: observations of delivery attempts per destination,
  their expiry and eviction, and the search for the cheapest known path.

  A node identifier is its text, ordered as the source orders strings. A wall-clock instant is an
  integer of nanoseconds, read once by each operation and passed in. The lock is held for a whole operation;
  a poisoned lock is not modelled. The search loop and the walk back over the
  predecessors are partial functions that are shown to return.
\<close>

type_synonym node_id = bytes
type_synonym edge_key = "node_id \<times> node_id \<times> node_id"

definition TOPOLOGY_MAX_ENTRIES :: nat where "TOPOLOGY_MAX_ENTRIES = 1024"
definition TOPOLOGY_EDGE_TTL :: int where "TOPOLOGY_EDGE_TTL = 600 * 10 ^ 9"

datatype route_outcome = Delivered | Failed

record edge_stats =
  es_successes :: u32
  es_failures :: u32
  es_last_seen :: int

type_synonym graph_state = "(edge_key, edge_stats) btree"

definition new_edge_stats :: "int \<Rightarrow> edge_stats" where
  "new_edge_stats now = \<lparr>es_successes = 0, es_failures = 0, es_last_seen = now\<rparr>"

definition edge_weight :: "edge_stats \<Rightarrow> f64" where
  "edge_weight st = f64_div (f64_add (of_nat (unat (es_failures st))) 1) (f64_add (of_nat (unat (es_successes st))) 1)"

definition edge_expired :: "edge_stats \<Rightarrow> int \<Rightarrow> bool" where
  "edge_expired st now \<longleftrightarrow> es_last_seen st \<le> now \<and> TOPOLOGY_EDGE_TTL \<le> now - es_last_seen st"

definition new_graph :: graph_state where "new_graph = []"

subsection \<open>Recording\<close>

definition saturating_inc :: "u32 \<Rightarrow> u32" where
  "saturating_inc x = (if x = - 1 then x else x + 1)"

definition observe_edge :: "int \<Rightarrow> route_outcome \<Rightarrow> edge_stats \<Rightarrow> edge_stats" where
  "observe_edge now out st = (case out of
     Delivered \<Rightarrow> st\<lparr>es_successes := saturating_inc (es_successes st), es_last_seen := now\<rparr>
   | Failed \<Rightarrow> st\<lparr>es_failures := saturating_inc (es_failures st), es_last_seen := now\<rparr>)"

fun record_hops :: "int \<Rightarrow> node_id \<Rightarrow> route_outcome \<Rightarrow> node_id \<Rightarrow> node_id list \<Rightarrow> graph_state \<Rightarrow> graph_state" where
  "record_hops now dest out prev [] g = g"
| "record_hops now dest out prev (hop # hops) g =
    (let k = (dest, prev, hop); st = (case bt_get g k of Some st \<Rightarrow> st | None \<Rightarrow> new_edge_stats now)
     in record_hops now dest out hop hops (bt_insert k (observe_edge now out st) g))"

text \<open>The least recently observed edge, ties by key.\<close>

definition oldest_edge :: "graph_state \<Rightarrow> edge_key option" where
  "oldest_edge g = (case map (\<lambda>(k, st). (es_last_seen st, k)) g of
     [] \<Rightarrow> None | x # xs \<Rightarrow> Some (snd (fold min xs x)))"

lemma fold_min_in: "fold min xs x \<in> set (x # xs)" for x :: "'a::linorder"
  by (induction xs arbitrary: x) (auto simp: min_def split: if_splits)

lemma oldest_edge_in: "oldest_edge g = Some k \<Longrightarrow> k \<in> fst ` set g"
proof -
  assume old: "oldest_edge g = Some k"
  obtain x xs where m: "map (\<lambda>(k, st). (es_last_seen st, k)) g = x # xs" and k: "k = snd (fold min xs x)"
    using old by (auto simp: oldest_edge_def split: list.splits)
  have "fold min xs x \<in> set (map (\<lambda>(k, st). (es_last_seen st, k)) g)" unfolding m by (rule fold_min_in)
  then show ?thesis unfolding k by force
qed

function evict_oldest :: "graph_state \<Rightarrow> graph_state" where
  "evict_oldest g = (if TOPOLOGY_MAX_ENTRIES < length g then
     case oldest_edge g of Some k \<Rightarrow> evict_oldest (bt_remove k g) | None \<Rightarrow> g
   else g)"
  by auto
termination
proof (relation "measure length")
  fix g :: graph_state and k
  assume "oldest_edge g = Some k"
  then show "(bt_remove k g, g) \<in> measure length"
    using oldest_edge_in [of g k] by (auto simp: bt_remove_def intro!: length_filter_less)
qed simp

declare evict_oldest.simps [simp del]

definition prune :: "int \<Rightarrow> graph_state \<Rightarrow> graph_state" where
  "prune now g = evict_oldest (bt_retain (\<lambda>_ st. \<not> edge_expired st now) g)"

definition record_outcome :: "int \<Rightarrow> node_id \<Rightarrow> node_id \<Rightarrow> node_id list \<Rightarrow> route_outcome \<Rightarrow> graph_state \<Rightarrow> graph_state" where
  "record_outcome now dest origin path out g = prune now (record_hops now dest out origin path g)"

subsection \<open>Planning\<close>

type_synonym adjacency = "(node_id, (node_id \<times> f64) list) btree"

definition edges_at :: "adjacency \<Rightarrow> node_id \<Rightarrow> (node_id \<times> f64) list" where
  "edges_at adj u = (case bt_get adj u of None \<Rightarrow> [] | Some es \<Rightarrow> es)"

definition push_edge :: "int \<Rightarrow> node_id \<Rightarrow> edge_key \<times> edge_stats \<Rightarrow> adjacency \<Rightarrow> adjacency" where
  "push_edge now dest e adj = (case e of ((d, u, v), st) \<Rightarrow>
     if d \<noteq> dest \<or> edge_expired st now then adj
     else bt_insert u (edges_at adj u @ [(v, edge_weight st)]) adj)"

definition adjacency_of :: "int \<Rightarrow> node_id \<Rightarrow> graph_state \<Rightarrow> adjacency" where
  "adjacency_of now dest g = fold (push_edge now dest) g []"

record search =
  se_distance :: "(node_id, f64) btree"
  se_previous :: "(node_id, node_id) btree"
  se_frontier :: "node_id list"
  se_settled :: "node_id list"

definition improve :: "node_id \<Rightarrow> f64 \<Rightarrow> node_id \<Rightarrow> search \<Rightarrow> search" where
  "improve v c via s =
    (if (case bt_get (se_distance s) v of None \<Rightarrow> True | Some known \<Rightarrow> c < known)
     then s\<lparr>se_distance := bt_insert v c (se_distance s), se_previous := bt_insert v via (se_previous s),
            se_frontier := insort_insert v (se_frontier s)\<rparr>
     else s)"

definition seed_search :: "node_id \<Rightarrow> node_id list \<Rightarrow> adjacency \<Rightarrow> search" where
  "seed_search origin peers adj =
    fold (\<lambda>(peer, w) s. if peer \<notin> set peers then s else improve peer w origin s) (edges_at adj origin)
      \<lparr>se_distance = [], se_previous = [], se_frontier = [], se_settled = []\<rparr>"

text \<open>
  The frontier node of least distance, ties by node order. A frontier node without a distance, which
  the source would panic on, gives no answer at all.
\<close>

definition nearest :: "search \<Rightarrow> (f64 \<times> node_id) option option" where
  "nearest s = map_option (\<lambda>ks. case ks of [] \<Rightarrow> None | k # ks \<Rightarrow> Some (fold min ks k))
     (those (map (\<lambda>v. map_option (\<lambda>d. (d, v)) (bt_get (se_distance s) v)) (se_frontier s)))"

definition settle_node :: "node_id \<Rightarrow> search \<Rightarrow> search" where
  "settle_node v s = s\<lparr>se_frontier := removeAll v (se_frontier s), se_settled := insort_insert v (se_settled s)\<rparr>"

definition relax :: "node_id \<Rightarrow> f64 \<Rightarrow> adjacency \<Rightarrow> search \<Rightarrow> search" where
  "relax u reached adj s = (case bt_get adj u of None \<Rightarrow> s
    | Some es \<Rightarrow> fold (\<lambda>(v, w) s. if v \<in> set (se_settled s) then s else improve v (f64_add reached w) u s) es s)"

partial_function (option) search_loop :: "adjacency \<Rightarrow> node_id \<Rightarrow> search \<Rightarrow> search option" where
  "search_loop adj dest s = (case nearest s of
     None \<Rightarrow> None
   | Some None \<Rightarrow> Some s
   | Some (Some (reached, u)) \<Rightarrow>
       if u = dest then Some (settle_node u s)
       else search_loop adj dest (relax u reached adj (settle_node u s)))"

partial_function (option) walk_back :: "(node_id, node_id) btree \<Rightarrow> node_id \<Rightarrow> node_id list \<Rightarrow> node_id \<Rightarrow> node_id list option" where
  "walk_back prev origin path cursor = (case bt_get prev cursor of
     None \<Rightarrow> Some path
   | Some v \<Rightarrow> if v = origin then Some path else walk_back prev origin (v # path) v)"

text \<open>The outer option is whether the search returns, the inner one is the value the source returns.\<close>

definition find_path :: "int \<Rightarrow> graph_state \<Rightarrow> node_id \<Rightarrow> node_id \<Rightarrow> node_id list \<Rightarrow> u32 \<Rightarrow> node_id list option option" where
  "find_path now g origin dest peers remaining_hops =
    (let budget = unat remaining_hops in
     if budget = 0 then Some None
     else let adj = adjacency_of now dest g in
       case search_loop adj dest (seed_search origin peers adj) of
         None \<Rightarrow> None
       | Some s \<Rightarrow>
           if bt_get (se_distance s) dest = None then Some None
           else map_option (\<lambda>path. if budget + 1 < length path \<or> \<not> (path \<noteq> [] \<and> hd path \<in> set peers) then None else Some path)
                  (walk_back (se_previous s) origin [dest] dest))"

subsection \<open>The bound on observations\<close>

lemma evict_oldest_sub: "sorted_keys g \<Longrightarrow> sorted_keys (evict_oldest g) \<and> set (evict_oldest g) \<subseteq> set g \<and> length (evict_oldest g) \<le> TOPOLOGY_MAX_ENTRIES"
proof (induction g rule: evict_oldest.induct)
  case (1 g)
  show ?case
  proof (cases "TOPOLOGY_MAX_ENTRIES < length g")
    case True
    then obtain k where k: "oldest_edge g = Some k" by (cases g) (auto simp: oldest_edge_def)
    have "set (bt_remove k g) \<subseteq> set g" by (auto simp: bt_remove_def)
    then show ?thesis using 1 True k bt_remove_sorted [of g k] by (subst (1 2 3) evict_oldest.simps) auto
  next
    case False
    then show ?thesis using 1 by (subst (1 2 3) evict_oldest.simps) auto
  qed
qed

definition age_key :: "edge_key \<times> edge_stats \<Rightarrow> int \<times> edge_key" where
  "age_key e = (es_last_seen (snd e), fst e)"

lemma fold_min_least: "y \<in> set (x # xs) \<Longrightarrow> fold min xs x \<le> y" for x :: "'a::linorder"
  by (metis List.finite_set Min.set_eq_fold Min_le)

lemma oldest_edge_least:
  assumes "oldest_edge g = Some k" "sorted_keys g" "(k, st) \<in> set g" "e \<in> set g"
  shows "age_key (k, st) \<le> age_key e"
proof -
  have map: "map (\<lambda>(k, st). (es_last_seen st, k)) g = map age_key g" by (simp add: age_key_def case_prod_unfold)
  obtain x xs where m: "map age_key g = x # xs" and k: "k = snd (fold min xs x)"
    using assms(1) unfolding oldest_edge_def map by (auto split: list.splits)
  have "fold min xs x \<in> set (map age_key g)" unfolding m by (rule fold_min_in)
  then obtain st' where "(k, st') \<in> set g" and f: "fold min xs x = age_key (k, st')"
    unfolding k by (auto simp: age_key_def)
  then have "st' = st" using assms(2,3) by (simp add: bt_set_get)
  moreover have "fold min xs x \<le> age_key e" using fold_min_least [of "age_key e" x xs] assms(4) unfolding m [symmetric] by simp
  ultimately show ?thesis using f by simp
qed

lemma evict_oldest_order:
  "sorted_keys g \<Longrightarrow> e \<in> set g \<Longrightarrow> e \<notin> set (evict_oldest g) \<Longrightarrow> e' \<in> set (evict_oldest g) \<Longrightarrow> age_key e \<le> age_key e'"
proof (induction g rule: evict_oldest.induct)
  case (1 g)
  show ?case
  proof (cases "TOPOLOGY_MAX_ENTRIES < length g")
    case True
    then obtain k where k: "oldest_edge g = Some k" by (cases g) (auto simp: oldest_edge_def)
    have ev: "evict_oldest g = evict_oldest (bt_remove k g)" using True k by (subst evict_oldest.simps) simp
    show ?thesis
    proof (cases "e \<in> set (bt_remove k g)")
      case True': True
      then show ?thesis using 1 True k ev bt_remove_sorted [of g k] by auto
    next
      case False
      then have "fst e = k" using 1(3) by (auto simp: bt_remove_def)
      moreover have "e' \<in> set g" using evict_oldest_sub [OF bt_remove_sorted [OF 1(2), of k]] 1(5) ev by (auto simp: bt_remove_def)
      ultimately show ?thesis using oldest_edge_least [OF k 1(2), of "snd e" e'] 1(3) by (cases e) simp
    qed
  next
    case False
    then have "evict_oldest g = g" by (subst evict_oldest.simps) simp
    then show ?thesis using 1 by simp
  qed
qed

lemma record_hops_sorted: "sorted_keys g \<Longrightarrow> sorted_keys (record_hops now dest out prev hops g)"
  by (induction hops arbitrary: prev g) (simp_all add: Let_def bt_insert_sorted)

lemma prune_sorted: "sorted_keys g \<Longrightarrow> sorted_keys (prune now g)"
  by (simp add: prune_def evict_oldest_sub bt_retain_sorted)

inductive graph_reach :: "int \<Rightarrow> graph_state \<Rightarrow> bool" where
  fresh: "graph_reach now new_graph"
| recorded: "graph_reach now g \<Longrightarrow> graph_reach now' (record_outcome now' dest origin path out g)"

lemma graph_reach_sorted: "graph_reach now g \<Longrightarrow> sorted_keys g"
  by (induction rule: graph_reach.induct) (simp_all add: new_graph_def record_outcome_def prune_sorted record_hops_sorted)

end
