(* ===== verification/Topology_Search.thy ===== *)
theory Topology_Search
  imports Topology_Graph
begin

text \<open>
  Correctness of the path search of \<open>Topology_Graph\<close>: the loop invariant in five parts, its preservation by seeding, settling and
  relaxing, termination, optimality of the distances for the rounded costs, and the walk back over the predecessors.
\<close>

subsection \<open>Edges of the search\<close>

definition live_weight :: "int \<Rightarrow> node_id \<Rightarrow> graph_state \<Rightarrow> node_id \<Rightarrow> node_id \<Rightarrow> f64 option" where
  "live_weight now dest g u v = (case bt_get g (dest, u, v) of None \<Rightarrow> None
     | Some st \<Rightarrow> if edge_expired st now then None else Some (edge_weight st))"

lemma edge_weight_ok: "is_f64 (edge_weight st)"
proof -
  have "0 < f64_add (of_nat n) 1" for n by (simp add: f64_add_def round_f64_pos add_nonneg_pos)
  then show ?thesis unfolding edge_weight_def f64_div_def by (intro is_f64_round divide_pos_pos)
qed

lemma live_weight_ok: "live_weight now dest g u v = Some w \<Longrightarrow> is_f64 w"
  by (auto simp: live_weight_def edge_weight_ok split: option.splits if_splits)

definition live_from :: "int \<Rightarrow> node_id \<Rightarrow> node_id \<Rightarrow> edge_key \<times> edge_stats \<Rightarrow> (node_id \<times> f64) option" where
  "live_from now dest u e = (case e of ((d, u', v), st) \<Rightarrow>
     if d = dest \<and> u' = u \<and> \<not> edge_expired st now then Some (v, edge_weight st) else None)"

lemma push_edge_get:
  assumes "sorted_keys adj"
  shows "sorted_keys (push_edge now dest e adj)"
    "edges_at (push_edge now dest e adj) u = edges_at adj u @ (case live_from now dest u e of None \<Rightarrow> [] | Some x \<Rightarrow> [x])"
  using assms by (auto simp: push_edge_def edges_at_def live_from_def bt_insert_sorted bt_get_insert split: prod.splits)

lemma fold_push_edge:
  "sorted_keys adj \<Longrightarrow> sorted_keys (fold (push_edge now dest) es adj) \<and>
    edges_at (fold (push_edge now dest) es adj) u = edges_at adj u @ List.map_filter (live_from now dest u) es"
  by (induction es arbitrary: adj) (auto simp: push_edge_get List.map_filter_simps split: option.split)

lemma adjacency_edges: "edges_at (adjacency_of now dest g) u = List.map_filter (live_from now dest u) g"
  using fold_push_edge [of "[]" now dest g u] by (simp add: adjacency_of_def edges_at_def)

lemma set_map_filter: "set (List.map_filter f xs) = {y. \<exists>x\<in>set xs. f x = Some y}"
  by (induction xs) (auto simp: List.map_filter_simps split: option.split)

lemma option_eqI: "(\<And>w. x = Some w \<longleftrightarrow> y = Some w) \<Longrightarrow> x = y"
  by (cases x; cases y) auto

lemma live_from_iff:
  "live_from now dest u e = Some (v, w) \<longleftrightarrow> (\<exists>st. e = ((dest, u, v), st) \<and> \<not> edge_expired st now \<and> w = edge_weight st)"
  by (cases e) (auto simp: live_from_def split: if_splits)

lemma live_from_mono:
  "sorted_keys g \<Longrightarrow> sorted_wrt (<) (map fst (List.map_filter (live_from now dest u) g))"
proof (induction g)
  case (Cons e g)
  have "fst x < fst y" if x: "live_from now dest u e = Some x" and y: "y \<in> set (List.map_filter (live_from now dest u) g)" for x y
  proof -
    obtain e' where "e' \<in> set g" "live_from now dest u e' = Some y" using y by (auto simp: List.map_filter_def)
    moreover from this have "fst e < fst e'" using Cons.prems by auto
    ultimately show ?thesis using x by (auto simp: live_from_def less_prod_simp split: prod.splits if_splits)
  qed
  then show ?case using Cons by (auto simp: List.map_filter_simps split: option.split)
qed (simp add: List.map_filter_simps)

lemma edges_at_weight:
  assumes "sorted_keys g"
  shows "distinct (map fst (edges_at (adjacency_of now dest g) u)) \<and> map_of (edges_at (adjacency_of now dest g) u) v = live_weight now dest g u v"
proof -
  let ?es = "List.map_filter (live_from now dest u) g"
  have s: "sorted_keys ?es" using live_from_mono [OF assms] by simp
  have "(v, w) \<in> set ?es \<longleftrightarrow> live_weight now dest g u v = Some w" for w
  proof -
    have "(v, w) \<in> set ?es \<longleftrightarrow> (\<exists>st. ((dest, u, v), st) \<in> set g \<and> \<not> edge_expired st now \<and> w = edge_weight st)"
      unfolding set_map_filter mem_Collect_eq live_from_iff by blast
    then show ?thesis unfolding bt_set_get [OF assms] live_weight_def
      by (cases "bt_get g (dest, u, v)") (simp_all add: eq_commute [of w])
  qed
  then have "map_of ?es v = live_weight now dest g u v"
    unfolding bt_set_get [OF s] by (rule option_eqI)
  then show ?thesis using s by (simp add: adjacency_edges strict_sorted_iff)
qed

subsection \<open>One round of improvements\<close>

definition search_ok :: "search \<Rightarrow> bool" where
  "search_ok s \<longleftrightarrow> sorted_keys (se_distance s) \<and> sorted_keys (se_previous s)"

lemma improve_get:
  assumes "search_ok s"
  shows "search_ok (improve v c via s)" "se_settled (improve v c via s) = se_settled s"
    "set (se_frontier (improve v c via s)) = (if bt_get (se_distance s) v = None \<or> c < the (bt_get (se_distance s) v)
       then insert v (set (se_frontier s)) else set (se_frontier s))"
    "bt_get (se_distance (improve v c via s)) x = (if x = v \<and> (bt_get (se_distance s) v = None \<or> c < the (bt_get (se_distance s) v))
       then Some c else bt_get (se_distance s) x)"
    "bt_get (se_previous (improve v c via s)) x = (if x = v \<and> (bt_get (se_distance s) v = None \<or> c < the (bt_get (se_distance s) v))
       then Some via else bt_get (se_previous s) x)"
  using assms by (auto simp: improve_def search_ok_def bt_insert_sorted bt_get_insert set_insort_insert split: option.splits)

text \<open>
  The node an edge list improves: for each listed node that is not skipped, a first or cheaper distance
  replaces the entry; every other entry stays.
\<close>

definition offers :: "(node_id \<Rightarrow> bool) \<Rightarrow> (f64 \<Rightarrow> f64) \<Rightarrow> (node_id \<times> f64) list \<Rightarrow> search \<Rightarrow> node_id \<Rightarrow> f64 option" where
  "offers skip c es s v = (case map_of es v of None \<Rightarrow> None
     | Some w \<Rightarrow> if \<not> skip v \<and> (bt_get (se_distance s) v = None \<or> c w < the (bt_get (se_distance s) v)) then Some (c w) else None)"

definition improved_by :: "(node_id \<Rightarrow> f64 option) \<Rightarrow> node_id \<Rightarrow> search \<Rightarrow> search \<Rightarrow> bool" where
  "improved_by off via s s' \<longleftrightarrow> search_ok s' \<and> se_settled s' = se_settled s \<and>
     set (se_frontier s') = set (se_frontier s) \<union> dom off \<and>
     (\<forall>v. bt_get (se_distance s') v = (case off v of None \<Rightarrow> bt_get (se_distance s) v | Some c \<Rightarrow> Some c)) \<and>
     (\<forall>v. bt_get (se_previous s') v = (case off v of None \<Rightarrow> bt_get (se_previous s) v | Some c \<Rightarrow> Some via))"

lemma improved_by_step:
  assumes ok: "search_ok s" and v: "v \<notin> fst ` set es"
    and off: "offers skip c ((v, w) # es) s = off"
    and s1: "s1 = (if skip v then s else improve v (c w) via s)" and rest: "improved_by (offers skip c es s1) via s1 s'"
  shows "improved_by off via s s'"
proof -
  have es: "map_of es v = None" using v by (simp add: map_of_eq_None_iff)
  have off1: "offers skip c es s1 x = (if x = v then None else off x)" for x
    using es ok unfolding off [symmetric] s1 by (auto simp: offers_def improve_get split: option.split)
  have offv: "off v = (if \<not> skip v \<and> (bt_get (se_distance s) v = None \<or> c w < the (bt_get (se_distance s) v)) then Some (c w) else None)"
    unfolding off [symmetric] by (simp add: offers_def)
  have dom1: "dom off = dom (offers skip c es s1) \<union> (if off v = None then {} else {v})"
    by (auto simp: off1 dom_def)
  have d1: "bt_get (se_distance s1) x = (if x = v \<and> off v \<noteq> None then off v else bt_get (se_distance s) x)" for x
    using ok unfolding s1 offv by (simp add: improve_get)
  have p1: "bt_get (se_previous s1) x = (if x = v \<and> off v \<noteq> None then Some via else bt_get (se_previous s) x)" for x
    using ok unfolding s1 offv by (simp add: improve_get)
  have f1: "set (se_frontier s1) = set (se_frontier s) \<union> (if off v = None then {} else {v})"
    using ok unfolding s1 offv by (simp add: improve_get)
  have "se_settled s1 = se_settled s" using ok by (simp add: s1 improve_get)
  then show ?thesis using rest dom1 f1 unfolding improved_by_def by (auto simp: off1 d1 p1 split: option.splits)
qed

lemma improve_fold:
  assumes "search_ok s" "distinct (map fst es)"
  shows "improved_by (offers skip c es s) via s (fold (\<lambda>(v, w) s. if skip v then s else improve v (c w) via s) es s)"
  using assms
proof (induction es arbitrary: s)
  case Nil
  then show ?case by (simp add: improved_by_def offers_def dom_def)
next
  case (Cons e es)
  obtain v w where e: "e = (v, w)" by (cases e)
  let ?s1 = "if skip v then s else improve v (c w) via s"
  have "search_ok ?s1" using Cons.prems by (simp add: improve_get)
  from Cons.IH [OF this] Cons.prems have rest: "improved_by (offers skip c es ?s1) via ?s1
      (fold (\<lambda>(v, w) s. if skip v then s else improve v (c w) via s) es ?s1)" by simp
  show ?case using improved_by_step [OF Cons.prems(1) _ refl refl rest] Cons.prems by (simp add: e)
qed

lemma relax_improves:
  assumes ok: "search_ok s" and d: "distinct (map fst (edges_at adj u))"
  shows "improved_by (offers (\<lambda>v. v \<in> set (se_settled s)) (f64_add reached) (edges_at adj u) s) u s (relax u reached adj s)"
proof -
  have fold: "fold (\<lambda>(v, w) s. if v \<in> set (se_settled s) then s else improve v (f64_add reached w) u s) es s' =
      fold (\<lambda>(v, w) s. if v \<in> S then s else improve v (f64_add reached w) u s) es s'"
    if "search_ok s'" "set (se_settled s') = S" for es s' S
    using that by (induction es arbitrary: s') (auto simp: improve_get)
  have "relax u reached adj s = fold (\<lambda>(v, w) s. if v \<in> set (se_settled s) then s else improve v (f64_add reached w) u s) (edges_at adj u) s"
    by (simp add: relax_def edges_at_def split: option.split)
  then show ?thesis using improve_fold [OF ok d] by (simp add: fold [OF ok refl])
qed

subsection \<open>Plans and the search invariant\<close>

text \<open>
  A plan leaves the origin along an edge to a peer and then follows edges; its cost is the rounded sum of
  the weights in the order of the hops.
\<close>

type_synonym weights = "node_id \<Rightarrow> node_id \<Rightarrow> f64 option"

inductive plan_cost :: "weights \<Rightarrow> node_id \<Rightarrow> node_id list \<Rightarrow> node_id list \<Rightarrow> f64 \<Rightarrow> bool" for W origin peers where
  first_hop: "W origin v = Some w \<Longrightarrow> v \<in> set peers \<Longrightarrow> plan_cost W origin peers [v] w"
| next_hop: "plan_cost W origin peers p c \<Longrightarrow> W (last p) v = Some w \<Longrightarrow> plan_cost W origin peers (p @ [v]) (f64_add c w)"

text \<open>A branch of the predecessor tree whose recorded distances are the costs along it.\<close>

inductive branch :: "weights \<Rightarrow> node_id \<Rightarrow> node_id list \<Rightarrow> search \<Rightarrow> node_id list \<Rightarrow> bool" for W origin peers s where
  root: "W origin v = Some d \<Longrightarrow> v \<in> set peers \<Longrightarrow> bt_get (se_previous s) v = Some origin \<Longrightarrow> bt_get (se_distance s) v = Some d \<Longrightarrow>
    branch W origin peers s [v]"
| grow: "branch W origin peers s p \<Longrightarrow> W (last p) v = Some w \<Longrightarrow> bt_get (se_previous s) v = Some (last p) \<Longrightarrow>
    bt_get (se_distance s) (last p) = Some d \<Longrightarrow> bt_get (se_distance s) v = Some (f64_add d w) \<Longrightarrow> v \<notin> set p \<Longrightarrow>
    branch W origin peers s (p @ [v])"

lemma branch_ne: "branch W origin peers s p \<Longrightarrow> p \<noteq> []"
  by (induction rule: branch.induct) simp_all

lemma branch_distance: "branch W origin peers s p \<Longrightarrow> \<exists>d. bt_get (se_distance s) (last p) = Some d \<and> plan_cost W origin peers p d"
  by (induction rule: branch.induct) (auto intro: plan_cost.intros)

lemma branch_keep:
  assumes "branch W origin peers s p"
    and "\<forall>v\<in>set p. bt_get (se_distance s') v = bt_get (se_distance s) v \<and> bt_get (se_previous s') v = bt_get (se_previous s) v"
  shows "branch W origin peers s' p"
  using assms
proof (induction rule: branch.induct)
  case (grow p v w d)
  then show ?case using branch_ne [OF grow.hyps(1)] by (intro branch.grow [where d = d and w = w]) auto
qed (auto intro: branch.root)

definition frontier_of :: "search \<Rightarrow> node_id set" where "frontier_of s = set (se_frontier s)"
definition settled_of :: "search \<Rightarrow> node_id set" where "settled_of s = set (se_settled s)"

lemmas node_sets = frontier_of_def settled_of_def

definition known_ok :: "search \<Rightarrow> bool" where
  "known_ok s \<longleftrightarrow> (\<forall>v. bt_get (se_distance s) v \<noteq> None \<longleftrightarrow> v \<in> frontier_of s \<union> settled_of s) \<and> frontier_of s \<inter> settled_of s = {}"

definition branches_ok :: "weights \<Rightarrow> node_id \<Rightarrow> node_id list \<Rightarrow> search \<Rightarrow> bool" where
  "branches_ok W origin peers s \<longleftrightarrow>
     (\<forall>v\<in>frontier_of s \<union> settled_of s. \<exists>p. branch W origin peers s p \<and> last p = v \<and> set (butlast p) \<subseteq> settled_of s)"

definition at_most :: "search \<Rightarrow> node_id \<Rightarrow> f64 \<Rightarrow> bool" where
  "at_most s v c \<longleftrightarrow> (\<exists>d. bt_get (se_distance s) v = Some d \<and> d \<le> c)"

definition seeds_ok :: "weights \<Rightarrow> node_id \<Rightarrow> node_id list \<Rightarrow> search \<Rightarrow> bool" where
  "seeds_ok W origin peers s \<longleftrightarrow> (\<forall>v w. W origin v = Some w \<longrightarrow> v \<in> set peers \<longrightarrow> at_most s v w)"

definition relaxed_ok :: "weights \<Rightarrow> node_id set \<Rightarrow> search \<Rightarrow> bool" where
  "relaxed_ok W X s \<longleftrightarrow> (\<forall>u\<in>settled_of s - X. \<forall>v w d. W u v = Some w \<longrightarrow> bt_get (se_distance s) u = Some d \<longrightarrow> at_most s v (f64_add d w))"

definition order_ok :: "search \<Rightarrow> bool" where
  "order_ok s \<longleftrightarrow> (\<forall>u\<in>settled_of s. \<forall>v\<in>frontier_of s. \<forall>d. bt_get (se_distance s) v = Some d \<longrightarrow> at_most s u d)"

definition search_inv :: "weights \<Rightarrow> node_id \<Rightarrow> node_id list \<Rightarrow> node_id \<Rightarrow> search \<Rightarrow> bool" where
  "search_inv W origin peers dest s \<longleftrightarrow> search_ok s \<and> known_ok s \<and> branches_ok W origin peers s \<and> seeds_ok W origin peers s \<and>
     relaxed_ok W {dest} s \<and> order_ok s"

lemma known_branch:
  assumes "search_inv W origin peers dest s" "bt_get (se_distance s) v = Some d"
  obtains p where "branch W origin peers s p" "last p = v" "set (butlast p) \<subseteq> settled_of s" "plan_cost W origin peers p d"
proof -
  have "known_ok s" "branches_ok W origin peers s" using assms(1) by (simp_all add: search_inv_def)
  then have "v \<in> frontier_of s \<union> settled_of s" using assms(2) by (simp add: known_ok_def) (metis option.distinct(1))
  then obtain p where p: "branch W origin peers s p" "last p = v" "set (butlast p) \<subseteq> settled_of s"
    using \<open>branches_ok W origin peers s\<close> unfolding branches_ok_def by blast
  then show thesis using that branch_distance [OF p(1)] assms(2) by auto
qed

lemma search_inv_cost:
  assumes "search_inv W origin peers dest s" "\<And>u v w. W u v = Some w \<Longrightarrow> is_f64 w" "bt_get (se_distance s) v = Some d"
  shows "is_f64 d"
proof -
  have cost: "is_f64 c" if "plan_cost W origin peers p c" for p c
    using that
  proof (induction rule: plan_cost.induct)
    case (first_hop v w)
    show ?case using assms(2) [OF first_hop(1)] .
  next
    case (next_hop p c v w)
    show ?case using fl.add_ok [OF next_hop.IH assms(2) [OF next_hop(2)]] .
  qed
  show ?thesis using known_branch [OF assms(1,3)] cost by metis
qed

text \<open>Seeding establishes it.\<close>

lemma seed_inv:
  assumes d: "distinct (map fst (edges_at adj origin))" and W: "\<And>v. W origin v = map_of (edges_at adj origin) v"
  shows "search_inv W origin peers dest (seed_search origin peers adj)"
proof -
  let ?empty = "\<lparr>se_distance = [], se_previous = [], se_frontier = [], se_settled = []\<rparr>" and ?s = "seed_search origin peers adj"
  let ?off = "offers (\<lambda>v. v \<notin> set peers) (\<lambda>w. w) (edges_at adj origin) ?empty"
  have "search_ok ?empty" by (simp add: search_ok_def)
  from improve_fold [OF this d, of "\<lambda>v. v \<notin> set peers" "\<lambda>w. w" origin]
  have i: "improved_by ?off origin ?empty ?s" unfolding seed_search_def .
  have off: "?off v = (if v \<in> set peers then W origin v else None)" for v
    by (simp add: offers_def W split: option.split)
  have dist: "bt_get (se_distance ?s) v = ?off v" and prev: "bt_get (se_previous ?s) v = map_option (\<lambda>_. origin) (?off v)" for v
    using i by (simp_all add: improved_by_def split: option.split)
  have sets: "frontier_of ?s = dom ?off" "settled_of ?s = {}" using i by (simp_all add: improved_by_def node_sets)
  have "branch W origin peers ?s [v]" if "v \<in> dom ?off" for v
    using that by (auto simp: off dist prev split: if_splits intro!: branch.root)
  then have "branches_ok W origin peers ?s" unfolding branches_ok_def sets by force
  moreover have "known_ok ?s" unfolding known_ok_def sets dist by auto
  moreover have "seeds_ok W origin peers ?s" by (simp add: seeds_ok_def at_most_def dist off)
  moreover have "search_ok ?s" using i by (simp add: improved_by_def)
  ultimately show ?thesis by (simp add: search_inv_def relaxed_ok_def order_ok_def sets)
qed

subsection \<open>One iteration\<close>

lemma those_distances:
  "\<forall>v\<in>set vs. D v \<noteq> None \<Longrightarrow> those (map (\<lambda>v. map_option (\<lambda>d. (d, v)) (D v)) vs) = Some (map (\<lambda>v. (the (D v), v)) vs)"
  by (induction vs) auto

lemma nearest_correct:
  assumes "known_ok s"
  shows "se_frontier s = [] \<Longrightarrow> nearest s = Some None"
    "se_frontier s \<noteq> [] \<Longrightarrow> \<exists>d u. nearest s = Some (Some (d, u)) \<and> u \<in> frontier_of s \<and> bt_get (se_distance s) u = Some d \<and>
       (\<forall>v\<in>frontier_of s. \<forall>d'. bt_get (se_distance s) v = Some d' \<longrightarrow> d \<le> d')"
proof -
  let ?D = "bt_get (se_distance s)" and ?key = "\<lambda>v. (the (bt_get (se_distance s) v), v)"
  have known: "\<forall>v\<in>set (se_frontier s). ?D v \<noteq> None" using assms by (simp add: known_ok_def node_sets)
  show "se_frontier s = [] \<Longrightarrow> nearest s = Some None" by (simp add: nearest_def)
  assume "se_frontier s \<noteq> []"
  then obtain x xs where f: "se_frontier s = x # xs" by (cases "se_frontier s") auto
  let ?m = "fold min (map ?key xs) (?key x)"
  have n: "nearest s = Some (Some ?m)" using those_distances [OF known] by (simp add: nearest_def f)
  obtain d u where m: "?m = (d, u)" by (cases ?m)
  have "?m \<in> set (map ?key (se_frontier s))" using fold_min_in [of "map ?key xs" "?key x"] by (simp only: f list.map)
  then have u: "u \<in> frontier_of s" "?D u = Some d" using known unfolding m by (auto simp: node_sets)
  have "d \<le> d'" if "v \<in> frontier_of s" "?D v = Some d'" for v d'
  proof -
    have "?key v \<in> set (?key x # map ?key xs)" using that(1) by (simp add: node_sets f) blast
    from fold_min_least [OF this] show ?thesis using that(2) by (auto simp: m less_eq_prod_simp)
  qed
  moreover have "nearest s = Some (Some (d, u))" using n m by simp
  ultimately show "\<exists>d u. nearest s = Some (Some (d, u)) \<and> u \<in> frontier_of s \<and> ?D u = Some d \<and> (\<forall>v\<in>frontier_of s. \<forall>d'. ?D v = Some d' \<longrightarrow> d \<le> d')"
    using u by blast
qed

lemma settle_fields [simp]:
  "se_distance (settle_node u s) = se_distance s" "se_previous (settle_node u s) = se_previous s"
  "frontier_of (settle_node u s) = frontier_of s - {u}" "settled_of (settle_node u s) = insert u (settled_of s)"
  by (auto simp: settle_node_def node_sets set_insort_insert)

lemma settle_inv:
  assumes inv: "search_inv W origin peers dest s" and u: "u \<in> frontier_of s" "bt_get (se_distance s) u = Some d"
    and least: "\<forall>v\<in>frontier_of s. \<forall>d'. bt_get (se_distance s) v = Some d' \<longrightarrow> d \<le> d'"
  shows "search_ok (settle_node u s)" "known_ok (settle_node u s)" "branches_ok W origin peers (settle_node u s)"
    "seeds_ok W origin peers (settle_node u s)" "relaxed_ok W {dest, u} (settle_node u s)" "order_ok (settle_node u s)"
    "\<forall>v\<in>settled_of (settle_node u s). at_most (settle_node u s) v d"
proof -
  let ?s = "settle_node u s"
  have parts: "search_ok s" "known_ok s" "branches_ok W origin peers s" "seeds_ok W origin peers s" "relaxed_ok W {dest} s" "order_ok s"
    using inv by (simp_all add: search_inv_def)
  have am: "at_most ?s v c = at_most s v c" for v c by (simp add: at_most_def)
  show "search_ok ?s" using parts(1) by (simp add: search_ok_def)
  show "known_ok ?s" using parts(2) u(1) unfolding known_ok_def settle_fields by blast
  have keep: "branch W origin peers ?s p" if "branch W origin peers s p" for p by (rule branch_keep [OF that]) simp
  show "branches_ok W origin peers ?s" unfolding branches_ok_def settle_fields
  proof
    fix v assume "v \<in> frontier_of s - {u} \<union> insert u (settled_of s)"
    then have "v \<in> frontier_of s \<union> settled_of s" using u(1) by blast
    then obtain p where "branch W origin peers s p" "last p = v" "set (butlast p) \<subseteq> settled_of s"
      using parts(3) unfolding branches_ok_def by blast
    then show "\<exists>p. branch W origin peers ?s p \<and> last p = v \<and> set (butlast p) \<subseteq> insert u (settled_of s)" using keep by blast
  qed
  show "seeds_ok W origin peers ?s" using parts(4) by (simp add: seeds_ok_def am)
  show "relaxed_ok W {dest, u} ?s" using parts(5) unfolding relaxed_ok_def am settle_fields by blast
  show below: "\<forall>v\<in>settled_of ?s. at_most ?s v d"
    using parts(6) u unfolding order_ok_def am settle_fields by (simp add: at_most_def)
  show "order_ok ?s" unfolding order_ok_def
  proof (intro ballI allI impI)
    fix x v c assume "x \<in> settled_of ?s" "v \<in> frontier_of ?s" "bt_get (se_distance ?s) v = Some c"
    then have "at_most ?s x d" "d \<le> c" using below least by auto
    then show "at_most ?s x c" unfolding at_most_def by (blast intro: order_trans)
  qed
qed

lemma improved_at_most:
  assumes "improved_by (offers skip c es s) via s s'" "at_most s v d"
  shows "at_most s' v d"
proof -
  obtain d0 where d0: "bt_get (se_distance s) v = Some d0" "d0 \<le> d" using assms(2) by (auto simp: at_most_def)
  have "bt_get (se_distance s') v = (case offers skip c es s v of None \<Rightarrow> Some d0 | Some x \<Rightarrow> Some x)"
    using assms(1) d0(1) by (simp add: improved_by_def split: option.split)
  moreover have "x < d0" if "offers skip c es s v = Some x" for x
    using that d0(1) by (auto simp: offers_def split: option.splits if_splits)
  ultimately show ?thesis using d0(2) by (auto simp: at_most_def split: option.splits)
qed

text \<open>What relaxing the node \<open>u\<close>, just settled at distance \<open>d\<close>, does to the search.\<close>

definition relaxes :: "weights \<Rightarrow> node_id \<Rightarrow> f64 \<Rightarrow> (node_id \<Rightarrow> f64 option) \<Rightarrow> search \<Rightarrow> search \<Rightarrow> bool" where
  "relaxes W u d off t s' \<longleftrightarrow> improved_by off u t s' \<and> bt_get (se_distance t) u = Some d \<and> u \<in> settled_of t \<and>
     (\<forall>v c. off v = Some c \<longrightarrow> v \<notin> settled_of t \<and> d \<le> c \<and> (\<exists>w. W u v = Some w \<and> c = f64_add d w)) \<and>
     (\<forall>v w. W u v = Some w \<longrightarrow> d \<le> f64_add d w \<and> (v \<notin> settled_of t \<longrightarrow> at_most s' v (f64_add d w))) \<and>
     (\<forall>v c. at_most t v c \<longrightarrow> at_most s' v c) \<and> (\<forall>v\<in>settled_of t. at_most t v d)"

lemma relaxes_intro:
  assumes ok: "search_ok t" and u: "bt_get (se_distance t) u = Some d" "u \<in> settled_of t" and below: "\<forall>v\<in>settled_of t. at_most t v d"
    and adj: "distinct (map fst (edges_at adj u))" "\<And>v. W u v = map_of (edges_at adj u) v"
    and W: "\<And>v w. W u v = Some w \<Longrightarrow> is_f64 w" and d: "is_f64 d"
  shows "relaxes W u d (offers (\<lambda>v. v \<in> set (se_settled t)) (f64_add d) (edges_at adj u) t) t (relax u d adj t)"
proof -
  let ?off = "offers (\<lambda>v. v \<in> set (se_settled t)) (f64_add d) (edges_at adj u) t" and ?t = "relax u d adj t"
  have imp: "improved_by ?off u t ?t" by (rule relax_improves [OF ok adj(1)])
  have le: "d \<le> f64_add d w" if "W u v = Some w" for v w by (rule fl.add_left [OF d W [OF that]])
  have off: "?off v = (case W u v of None \<Rightarrow> None | Some w \<Rightarrow>
      if v \<notin> settled_of t \<and> (bt_get (se_distance t) v = None \<or> f64_add d w < the (bt_get (se_distance t) v)) then Some (f64_add d w) else None)" for v
    unfolding offers_def adj(2) settled_of_def by (rule refl)
  have offD: "v \<notin> settled_of t \<and> d \<le> c \<and> (\<exists>w. W u v = Some w \<and> c = f64_add d w)" if "?off v = Some c" for v c
    using that le [of v] unfolding off by (auto split: option.splits if_splits)
  have get: "bt_get (se_distance ?t) v = (case ?off v of None \<Rightarrow> bt_get (se_distance t) v | Some c \<Rightarrow> Some c)" for v
    using imp by (simp add: improved_by_def)
  have reach: "at_most ?t v (f64_add d w)" if "W u v = Some w" "v \<notin> settled_of t" for v w
    using that unfolding at_most_def get off by (cases "bt_get (se_distance t) v") auto
  have mono: "at_most ?t v c" if "at_most t v c" for v c by (rule improved_at_most [OF imp that])
  show ?thesis unfolding relaxes_def using imp u below offD le reach mono by blast
qed

lemma relaxes_get:
  assumes "relaxes W u d off t s'"
  shows "settled_of s' = settled_of t" "frontier_of s' = frontier_of t \<union> dom off"
    "bt_get (se_distance s') v = (case off v of None \<Rightarrow> bt_get (se_distance t) v | Some c \<Rightarrow> Some c)"
    "bt_get (se_previous s') v = (case off v of None \<Rightarrow> bt_get (se_previous t) v | Some c \<Rightarrow> Some u)"
    "v \<in> settled_of t \<Longrightarrow> off v = None"
proof -
  have imp: "improved_by off u t s'" using assms by (simp add: relaxes_def)
  show "settled_of s' = settled_of t" "frontier_of s' = frontier_of t \<union> dom off"
    "bt_get (se_distance s') v = (case off v of None \<Rightarrow> bt_get (se_distance t) v | Some c \<Rightarrow> Some c)"
    "bt_get (se_previous s') v = (case off v of None \<Rightarrow> bt_get (se_previous t) v | Some c \<Rightarrow> Some u)"
    using imp by (simp_all add: improved_by_def node_sets)
  show "off v = None" if "v \<in> settled_of t" using assms that unfolding relaxes_def by (cases "off v") auto
qed

lemma relaxes_known:
  assumes r: "relaxes W u d off t s'" and k: "known_ok t"
  shows "known_ok s'"
proof -
  note g = relaxes_get [OF r]
  have "(bt_get (se_distance s') v \<noteq> None) = (v \<in> frontier_of s' \<union> settled_of s')" for v
    using k unfolding known_ok_def g(1,2,3) by (cases "off v") auto
  moreover have "frontier_of s' \<inter> settled_of s' = {}" using k g(5) unfolding known_ok_def g(1,2) by auto
  ultimately show ?thesis by (simp add: known_ok_def)
qed

lemma set_last_butlast: "set p \<subseteq> insert (last p) (set (butlast p))"
  by (cases p rule: rev_cases) auto

lemma relaxes_branch:
  assumes r: "relaxes W u d off t s'" and p: "branch W origin peers t p" and off: "off (last p) = None" and sub: "set (butlast p) \<subseteq> settled_of t"
  shows "branch W origin peers s' p"
proof (rule branch_keep [OF p], rule ballI)
  fix x assume "x \<in> set p"
  then have "x = last p \<or> x \<in> settled_of t" using set_last_butlast [of p] sub by blast
  then have "off x = None" using relaxes_get(5) [OF r] off by auto
  then show "bt_get (se_distance s') x = bt_get (se_distance t) x \<and> bt_get (se_previous s') x = bt_get (se_previous t) x"
    by (simp add: relaxes_get(3,4) [OF r])
qed

lemma relaxes_branches:
  assumes r: "relaxes W u d off t s'" and b: "branches_ok W origin peers t"
  shows "branches_ok W origin peers s'"
  unfolding branches_ok_def relaxes_get(1,2) [OF r]
proof
  fix v assume v: "v \<in> frontier_of t \<union> dom off \<union> settled_of t"
  have tree: "\<exists>p. branch W origin peers t p \<and> last p = x \<and> set (butlast p) \<subseteq> settled_of t" if "x \<in> frontier_of t \<union> settled_of t" for x
    using b that unfolding branches_ok_def by blast
  show "\<exists>p. branch W origin peers s' p \<and> last p = v \<and> set (butlast p) \<subseteq> settled_of t"
  proof (cases "off v")
    case None
    then have "v \<in> frontier_of t \<union> settled_of t" using v by auto
    then obtain p where "branch W origin peers t p" "last p = v" "set (butlast p) \<subseteq> settled_of t" using tree by blast
    then show ?thesis using relaxes_branch [OF r, of origin peers p] None by blast
  next
    case (Some c)
    have u: "u \<in> settled_of t" "bt_get (se_distance t) u = Some d" using r by (simp_all add: relaxes_def)
    obtain w where w: "v \<notin> settled_of t" "W u v = Some w" "c = f64_add d w" using r Some unfolding relaxes_def by blast
    obtain p where p: "branch W origin peers t p" "last p = u" "set (butlast p) \<subseteq> settled_of t" using tree u(1) by blast
    note offu = relaxes_get(5) [OF r u(1)]
    have sub: "set p \<subseteq> settled_of t" using set_last_butlast [of p] p(2,3) u(1) by blast
    have bp: "branch W origin peers s' p" using relaxes_branch [OF r p(1) _ p(3)] offu p(2) by simp
    have "branch W origin peers s' (p @ [v])"
    proof (rule branch.grow [OF bp])
      show "W (last p) v = Some w" "bt_get (se_previous s') v = Some (last p)" "bt_get (se_distance s') (last p) = Some d"
        "bt_get (se_distance s') v = Some (f64_add d w)"
        using p(2) w u Some offu by (simp_all add: relaxes_get(3,4) [OF r])
      show "v \<notin> set p" using sub w(1) by blast
    qed
    then show ?thesis using sub by (intro exI [of _ "p @ [v]"]) simp
  qed
qed

lemma at_most_le: "at_most s v c \<Longrightarrow> c \<le> c' \<Longrightarrow> at_most s v c'"
  unfolding at_most_def by (blast intro: order_trans)

lemma relaxes_relaxed:
  assumes r: "relaxes W u d off t s'" and k: "relaxed_ok W {dest, u} t"
  shows "relaxed_ok W {dest} s'"
  unfolding relaxed_ok_def relaxes_get(1) [OF r]
proof (intro ballI allI impI)
  fix x v w c assume x: "x \<in> settled_of t - {dest}" and w: "W x v = Some w" and c': "bt_get (se_distance s') x = Some c"
  have c: "bt_get (se_distance t) x = Some c" using c' x relaxes_get(5) [OF r, of x] by (simp add: relaxes_get(3) [OF r])
  have mono: "at_most t v b \<Longrightarrow> at_most s' v b" for b using r unfolding relaxes_def by blast
  show "at_most s' v (f64_add c w)"
  proof (cases "x = u")
    case False
    then show ?thesis using k x w c mono unfolding relaxed_ok_def by blast
  next
    case True
    then have cd: "c = d" using c r by (simp add: relaxes_def)
    have le: "d \<le> f64_add d w" and new: "v \<notin> settled_of t \<Longrightarrow> at_most s' v (f64_add d w)" using r w True unfolding relaxes_def by blast+
    have "at_most t v d" if "v \<in> settled_of t" using r that unfolding relaxes_def by blast
    then show ?thesis using new at_most_le [OF mono le] unfolding cd by blast
  qed
qed

lemma relaxes_order:
  assumes r: "relaxes W u d off t s'" and k: "order_ok t"
  shows "order_ok s'"
  unfolding order_ok_def relaxes_get(1,2) [OF r]
proof (intro ballI allI impI)
  fix x v c assume x: "x \<in> settled_of t" and v: "v \<in> frontier_of t \<union> dom off" and c: "bt_get (se_distance s') v = Some c"
  have mono: "at_most t x b \<Longrightarrow> at_most s' x b" for b using r unfolding relaxes_def by blast
  show "at_most s' x c"
  proof (cases "off v")
    case None
    then have "v \<in> frontier_of t" "bt_get (se_distance t) v = Some c" using v c by (auto simp: relaxes_get(3) [OF r])
    then show ?thesis using k x mono unfolding order_ok_def by blast
  next
    case (Some c')
    then have "c' = c" using c by (simp add: relaxes_get(3) [OF r])
    then have "d \<le> c" using r Some unfolding relaxes_def by blast
    moreover have "at_most t x d" using r x unfolding relaxes_def by blast
    ultimately show ?thesis using at_most_le mono by blast
  qed
qed

text \<open>Settling and relaxing a nearest node restores the invariant.\<close>

lemma relax_inv:
  assumes inv: "search_inv W origin peers dest s" and u: "u \<in> frontier_of s" "bt_get (se_distance s) u = Some d"
    and least: "\<forall>v\<in>frontier_of s. \<forall>d'. bt_get (se_distance s) v = Some d' \<longrightarrow> d \<le> d'"
    and adj: "distinct (map fst (edges_at adj u))" "\<And>v. W u v = map_of (edges_at adj u) v"
    and W: "\<And>u v w. W u v = Some w \<Longrightarrow> is_f64 w"
  shows "search_inv W origin peers dest (relax u d adj (settle_node u s)) \<and>
    settled_of (relax u d adj (settle_node u s)) = insert u (settled_of s)"
proof -
  let ?t = "settle_node u s" and ?s = "relax u d adj (settle_node u s)"
  note settle = settle_inv [OF inv u least]
  have d: "is_f64 d" by (rule search_inv_cost [OF inv W u(2)])
  from relaxes_intro [where W = W and u = u and d = d and t = "settle_node u s" and adj = adj, OF settle(1) _ _ settle(7) adj W d] u(2)
  have r: "relaxes W u d (offers (\<lambda>v. v \<in> set (se_settled ?t)) (f64_add d) (edges_at adj u) ?t) ?t ?s" by simp
  have "search_ok ?s" using r by (simp add: relaxes_def improved_by_def)
  moreover have "seeds_ok W origin peers ?s" using settle(4) r unfolding seeds_ok_def relaxes_def by blast
  ultimately show ?thesis
    using relaxes_known [OF r settle(2)] relaxes_branches [OF r settle(3)] relaxes_relaxed [OF r settle(5)]
      relaxes_order [OF r settle(6)] relaxes_get(1) [OF r] by (simp add: search_inv_def)
qed

subsection \<open>The loop and the walk back\<close>

text \<open>The adjacency the planner builds and the weights it stands for.\<close>

definition adjacent :: "weights \<Rightarrow> adjacency \<Rightarrow> bool" where
  "adjacent W adj \<longleftrightarrow> (\<forall>u. distinct (map fst (edges_at adj u)) \<and> (\<forall>v. W u v = map_of (edges_at adj u) v)) \<and>
     (\<forall>u v w. W u v = Some w \<longrightarrow> is_f64 w) \<and> finite {v. \<exists>u. W u v \<noteq> None}"

lemma adjacentD:
  assumes "adjacent W adj"
  shows "distinct (map fst (edges_at adj u))" "W u v = map_of (edges_at adj u) v" "W u v = Some w \<Longrightarrow> is_f64 w"
  using assms by (simp_all only: adjacent_def)

lemma branch_target: "branch W origin peers s p \<Longrightarrow> last p \<in> {v. \<exists>u. W u v \<noteq> None}"
  by (induction rule: branch.induct) auto

lemma card_insert_less: "finite V \<Longrightarrow> u \<in> V \<Longrightarrow> u \<notin> S \<Longrightarrow> card (V - insert u S) < card (V - S)"
  by (rule psubset_card_mono) auto

lemma search_loop_returns:
  assumes adj: "adjacent W adj" and "search_inv W origin peers dest s" "dest \<notin> settled_of s"
  shows "\<exists>s'. search_loop adj dest s = Some s' \<and> search_inv W origin peers dest s' \<and> (frontier_of s' = {} \<or> dest \<in> settled_of s')"
  using assms(2,3)
proof (induction "card ({v. \<exists>u. W u v \<noteq> None} - settled_of s)" arbitrary: s rule: less_induct)
  case (less s)
  have fin: "finite {v. \<exists>u. W u v \<noteq> None}" using adj unfolding adjacent_def by blast
  have k: "known_ok s" using less.prems(1) by (simp add: search_inv_def)
  show ?case
  proof (cases "se_frontier s = []")
    case True
    then show ?thesis using nearest_correct(1) [OF k] less.prems(1) by (subst search_loop.simps) (simp add: node_sets)
  next
    case False
    from nearest_correct(2) [OF k False] obtain d u where n: "nearest s = Some (Some (d, u))"
      and u: "u \<in> frontier_of s" "bt_get (se_distance s) u = Some d"
      and least: "\<forall>v\<in>frontier_of s. \<forall>d'. bt_get (se_distance s) v = Some d' \<longrightarrow> d \<le> d'" by blast
    note settle = settle_inv [OF less.prems(1) u least]
    show ?thesis
    proof (cases "u = dest")
      case True
      then have "search_inv W origin peers dest (settle_node u s)" using settle by (simp add: search_inv_def)
      then show ?thesis using n True by (subst search_loop.simps) simp
    next
      case False
      let ?s = "relax u d adj (settle_node u s)"
      have next_inv: "search_inv W origin peers dest ?s" and st: "settled_of ?s = insert u (settled_of s)"
        using relax_inv [OF less.prems(1) u least adjacentD [OF adj]] by simp_all
      obtain p where p: "branch W origin peers s p" "last p = u" using known_branch [OF less.prems(1) u(2)] .
      have "u \<in> {v. \<exists>u. W u v \<noteq> None}" using branch_target [OF p(1)] unfolding p(2) .
      moreover have "u \<notin> settled_of s" using k u(1) by (auto simp: known_ok_def)
      ultimately have "card ({v. \<exists>u. W u v \<noteq> None} - settled_of ?s) < card ({v. \<exists>u. W u v \<noteq> None} - settled_of s)"
        unfolding st by (intro card_insert_less fin)
      from less.hyps [OF this next_inv] less.prems(2) False st
      obtain s' where "search_loop adj dest ?s = Some s' \<and> search_inv W origin peers dest s' \<and> (frontier_of s' = {} \<or> dest \<in> settled_of s')"
        by auto
      then show ?thesis using n False by (subst search_loop.simps) simp
    qed
  qed
qed

text \<open>No plan is cheaper than the distance the search ends with.\<close>

lemma search_optimal:
  assumes inv: "search_inv W origin peers dest s" and fin: "frontier_of s = {} \<or> dest \<in> settled_of s"
    and W: "\<And>u v w. W u v = Some w \<Longrightarrow> is_f64 w" and p: "plan_cost W origin peers p c"
  shows "is_f64 c \<and> ((last p \<in> settled_of s - {dest} \<and> at_most s (last p) c) \<or> (dest \<in> settled_of s \<and> at_most s dest c))"
proof -
  have parts: "known_ok s" "seeds_ok W origin peers s" "relaxed_ok W {dest} s" "order_ok s" using inv by (simp_all add: search_inv_def)
  have land: "(v \<in> settled_of s - {dest} \<and> at_most s v c) \<or> (dest \<in> settled_of s \<and> at_most s dest c)" if am: "at_most s v c" for v c
  proof (cases "v \<in> settled_of s")
    case True
    then show ?thesis using am by blast
  next
    case False
    obtain d where d: "bt_get (se_distance s) v = Some d" "d \<le> c" using am by (auto simp: at_most_def)
    then have "bt_get (se_distance s) v \<noteq> None" by simp
    then have v: "v \<in> frontier_of s" using parts(1) False unfolding known_ok_def by blast
    then have dest: "dest \<in> settled_of s" using fin by blast
    then have "at_most s dest d" using parts(4) v d(1) unfolding order_ok_def by blast
    then show ?thesis using dest at_most_le [OF _ d(2)] by blast
  qed
  from p show ?thesis
  proof (induction rule: plan_cost.induct)
    case (first_hop v w)
    have "at_most s v w" using parts(2) first_hop unfolding seeds_ok_def by blast
    then show ?case using land W [OF first_hop(1)] by simp
  next
    case (next_hop p c v w)
    have w: "is_f64 w" by (rule W [OF next_hop(2)])
    have c: "is_f64 c" using next_hop.IH by blast
    have le: "c \<le> f64_add c w" by (rule fl.add_left [OF c w])
    from next_hop.IH consider (on) "last p \<in> settled_of s - {dest}" "at_most s (last p) c" | (over) "dest \<in> settled_of s" "at_most s dest c" by blast
    then have "(v \<in> settled_of s - {dest} \<and> at_most s v (f64_add c w)) \<or> (dest \<in> settled_of s \<and> at_most s dest (f64_add c w))"
    proof cases
      case on
      then obtain d where d: "bt_get (se_distance s) (last p) = Some d" "d \<le> c" by (auto simp: at_most_def)
      have "is_f64 d" by (rule search_inv_cost [OF inv W d(1)])
      then have "f64_add d w \<le> f64_add c w" using fl.add_mono [OF _ c w d(2)] by blast
      moreover have "at_most s v (f64_add d w)" using parts(3) on(1) next_hop(2) d(1) unfolding relaxed_ok_def by blast
      ultimately show ?thesis using land at_most_le by blast
    next
      case over
      then show ?thesis using at_most_le [OF _ le] by blast
    qed
    then show ?case using fl.add_ok [OF c w] by simp
  qed
qed

text \<open>
  Walking a branch back stops where the predecessor is the origin. Should the branch run through the origin, what is
  left of it is still a plan of the recorded cost when it starts at a peer.
\<close>

definition walked :: "weights \<Rightarrow> node_id \<Rightarrow> node_id list \<Rightarrow> search \<Rightarrow> node_id list \<Rightarrow> node_id list \<Rightarrow> bool" where
  "walked W origin peers s p q \<longleftrightarrow> q \<noteq> [] \<and> last q = last p \<and> set q \<subseteq> set p \<and> distinct q \<and> origin \<notin> set (butlast q) \<and>
    (hd q \<in> set peers \<longrightarrow> (\<exists>c. bt_get (se_distance s) (last p) = Some c \<and> plan_cost W origin peers q c)) \<and>
    (origin \<notin> set (butlast p) \<longrightarrow> hd q \<in> set peers)"

lemma walked_root:
  assumes "bt_get (se_distance s) v = Some c" "v \<in> set peers \<Longrightarrow> plan_cost W origin peers [v] c"
    and "last p = v" "v \<in> set p" "origin \<notin> set (butlast p) \<Longrightarrow> v \<in> set peers"
  shows "walked W origin peers s p [v]"
  using assms by (simp add: walked_def)

lemma walked_grow:
  assumes q: "walked W origin peers s p q" and v: "v \<notin> set p" "last p \<noteq> origin" "W (last p) v = Some w"
    and d: "bt_get (se_distance s) (last p) = Some d" "bt_get (se_distance s) v = Some (f64_add d w)"
  shows "walked W origin peers s (p @ [v]) (q @ [v])"
proof -
  have "plan_cost W origin peers (q @ [v]) (f64_add d w)" if "hd q \<in> set peers"
    using q that v(3) d(1) plan_cost.next_hop [of W origin peers q d v w] by (auto simp: walked_def)
  moreover have "origin \<notin> set q" using set_last_butlast [of q] q v(2) by (auto simp: walked_def)
  moreover have "origin \<notin> set p \<Longrightarrow> hd q \<in> set peers" using q in_set_butlastD [of origin p] by (auto simp: walked_def)
  ultimately show ?thesis using q v(1) d(2) by (auto simp: walked_def)
qed

lemma walk_back_branch:
  assumes b: "branch W origin peers s p" and inv: "search_inv W origin peers dest s" and W: "\<And>u v w. W u v = Some w \<Longrightarrow> is_f64 w"
  shows "\<exists>q. walk_back (se_previous s) origin (last p # acc) (last p) = Some (q @ acc) \<and> walked W origin peers s p q"
  using b
proof (induction arbitrary: acc rule: branch.induct)
  case (root v d)
  have "walk_back (se_previous s) origin (v # acc) v = Some (v # acc)" using root by (subst walk_back.simps) simp
  moreover have "walked W origin peers s [v] [v]"
    using root plan_cost.first_hop [of W origin v d peers] by (intro walked_root) simp_all
  ultimately show ?case by (intro exI [of _ "[v]"]) simp
next
  case (grow p v w d)
  show ?case
  proof (cases "last p = origin")
    case True
    have "walk_back (se_previous s) origin (v # acc) v = Some (v # acc)" using grow(3) True by (subst walk_back.simps) simp
    moreover have "plan_cost W origin peers [v] (f64_add d w)" if "v \<in> set peers"
    proof -
      have "at_most s v w" using inv grow(2) True that unfolding search_inv_def seeds_ok_def by blast
      then have "f64_add d w \<le> w" using grow(5) by (simp add: at_most_def)
      then have "f64_add d w = w" using fl.add_right [OF search_inv_cost [OF inv W grow(4)] W [OF grow(2)]] by simp
      then show ?thesis using plan_cost.first_hop [of W origin v w peers] grow(2) True that by simp
    qed
    moreover have "origin \<in> set p" using True branch_ne [OF grow(1)] last_in_set [of p] by simp
    ultimately have "walked W origin peers s (p @ [v]) [v]" using grow(5) by (intro walked_root) simp_all
    then show ?thesis using \<open>walk_back _ _ _ _ = _\<close> by (intro exI [of _ "[v]"]) simp
  next
    case False
    obtain q where q: "walk_back (se_previous s) origin (last p # v # acc) (last p) = Some (q @ v # acc)" "walked W origin peers s p q"
      using grow.IH [of "v # acc"] by blast
    have "walk_back (se_previous s) origin (v # acc) v = Some ((q @ [v]) @ acc)" using q(1) grow(3) False by (subst walk_back.simps) simp
    then show ?thesis using walked_grow [OF q(2) grow(6) False grow(2,4,5)] by (intro exI [of _ "q @ [v]"]) simp
  qed
qed

subsection \<open>What the planner returns\<close>

lemma live_targets_sub:
  assumes "sorted_keys g"
  shows "{v. \<exists>u. live_weight now dest g u v \<noteq> None} \<subseteq> (\<lambda>e. snd (snd (fst e))) ` set g"
proof
  fix v assume "v \<in> {v. \<exists>u. live_weight now dest g u v \<noteq> None}"
  then obtain u where u: "live_weight now dest g u v \<noteq> None" by blast
  then obtain st where "bt_get g (dest, u, v) = Some st" by (cases "bt_get g (dest, u, v)") (simp_all add: live_weight_def)
  then have "((dest, u, v), st) \<in> set g" using bt_set_get [OF assms] by blast
  then show "v \<in> (\<lambda>e. snd (snd (fst e))) ` set g" by force
qed

lemma live_targets:
  assumes "sorted_keys g"
  shows "finite {v. \<exists>u. live_weight now dest g u v \<noteq> None}" "card {v. \<exists>u. live_weight now dest g u v \<noteq> None} \<le> length g"
proof -
  note sub = live_targets_sub [OF assms, of now dest]
  show "finite {v. \<exists>u. live_weight now dest g u v \<noteq> None}" using sub by (rule finite_subset) simp
  have "card {v. \<exists>u. live_weight now dest g u v \<noteq> None} \<le> card ((\<lambda>e. snd (snd (fst e))) ` set g)" using sub by (intro card_mono) simp_all
  also have "\<dots> \<le> card (set g)" by (rule card_image_le) simp
  also have "\<dots> \<le> length g" by (rule card_length)
  finally show "card {v. \<exists>u. live_weight now dest g u v \<noteq> None} \<le> length g" .
qed

lemma adjacent_live:
  assumes "sorted_keys g"
  shows "adjacent (live_weight now dest g) (adjacency_of now dest g)"
  unfolding adjacent_def
proof (intro conjI allI impI)
  fix u v w
  show "distinct (map fst (edges_at (adjacency_of now dest g) u))" using edges_at_weight [OF assms] by blast
  show "live_weight now dest g u v = map_of (edges_at (adjacency_of now dest g) u) v" using edges_at_weight [OF assms, of now dest u v] by simp
  show "is_f64 w" if "live_weight now dest g u v = Some w" by (rule live_weight_ok [OF that])
qed (rule live_targets [OF assms])

lemma plan_cost_nodes:
  "plan_cost W origin peers p c \<Longrightarrow> p \<noteq> [] \<and> hd p \<in> set peers \<and> set p \<subseteq> {v. \<exists>u. W u v \<noteq> None}"
  by (induction rule: plan_cost.induct) auto

text \<open>The whole search, in one statement: where it ends, what it walks back to, and why nothing is cheaper.\<close>

definition planned :: "weights \<Rightarrow> node_id \<Rightarrow> node_id \<Rightarrow> node_id list \<Rightarrow> node_id list \<Rightarrow> bool" where
  "planned W origin dest peers q \<longleftrightarrow> q \<noteq> [] \<and> last q = dest \<and> distinct q \<and> origin \<notin> set (butlast q) \<and>
     (hd q \<in> set peers \<longrightarrow> (\<exists>c. plan_cost W origin peers q c \<and> (\<forall>q' c'. plan_cost W origin peers q' c' \<and> last q' = dest \<longrightarrow> c \<le> c'))) \<and>
     ((\<forall>u. W u origin = None) \<longrightarrow> hd q \<in> set peers)"

lemma branch_nodes: "branch W origin peers s p \<Longrightarrow> set p \<subseteq> {v. \<exists>u. W u v \<noteq> None}"
  by (induction rule: branch.induct) auto

lemma search_end:
  assumes adj: "adjacent W adj" and inv: "search_inv W origin peers dest s" and fin: "frontier_of s = {} \<or> dest \<in> settled_of s"
  shows "bt_get (se_distance s) dest = None \<Longrightarrow> \<not> (\<exists>q c. plan_cost W origin peers q c \<and> last q = dest)"
    "bt_get (se_distance s) dest = Some c \<Longrightarrow> \<exists>q. walk_back (se_previous s) origin [dest] dest = Some q \<and> planned W origin dest peers q"
proof -
  have W: "\<And>u v w. W u v = Some w \<Longrightarrow> is_f64 w" by (rule adjacentD(3) [OF adj])
  have best: "at_most s dest c" if "plan_cost W origin peers q c" "last q = dest" for q c
    using search_optimal [OF inv fin _ that(1)] W that(2) by blast
  then show "bt_get (se_distance s) dest = None \<Longrightarrow> \<not> (\<exists>q c. plan_cost W origin peers q c \<and> last q = dest)"
    by (auto simp: at_most_def)
  assume c: "bt_get (se_distance s) dest = Some c"
  obtain p where p: "branch W origin peers s p" "last p = dest" using known_branch [OF inv c] .
  obtain q where q: "walk_back (se_previous s) origin [dest] dest = Some q" "walked W origin peers s p q"
    using walk_back_branch [OF p(1) inv, of "[]"] W p(2) by auto
  have "c \<le> c'" if "plan_cost W origin peers q' c'" "last q' = dest" for q' c'
    using best [OF that] c by (simp add: at_most_def)
  moreover have "origin \<notin> set (butlast p)" if "\<forall>u. W u origin = None"
    using branch_nodes [OF p(1)] that in_set_butlastD [of origin p] by auto
  ultimately have "planned W origin dest peers q" using q(2) p(2) c unfolding planned_def walked_def by auto
  then show "\<exists>q. walk_back (se_previous s) origin [dest] dest = Some q \<and> planned W origin dest peers q" using q(1) by blast
qed

lemma seed_settled: "se_settled (seed_search origin peers adj) = []"
proof -
  have "se_settled (fold (\<lambda>(peer, w) s. if peer \<notin> set peers then s else improve peer w origin s) es s) = se_settled s" for es s
    by (induction es arbitrary: s) (auto simp: improve_def)
  then show ?thesis by (simp add: seed_search_def)
qed

lemma find_path_outcome:
  assumes g: "sorted_keys g" and W: "W = live_weight now dest g" and hops: "hops \<noteq> 0"
  shows "(find_path now g origin dest peers hops = Some None \<and> \<not> (\<exists>q c. plan_cost W origin peers q c \<and> last q = dest)) \<or>
    (\<exists>q. planned W origin dest peers q \<and> find_path now g origin dest peers hops =
       Some (if unat hops + 1 < length q \<or> hd q \<notin> set peers then None else Some q))"
proof -
  let ?adj = "adjacency_of now dest g" and ?s = "seed_search origin peers (adjacency_of now dest g)"
  have adj: "adjacent W ?adj" unfolding W by (rule adjacent_live [OF g])
  have inv: "search_inv W origin peers dest ?s" by (rule seed_inv) (rule adjacentD [OF adj])+
  have "settled_of ?s = {}" by (simp add: settled_of_def seed_settled)
  then obtain s where s: "search_loop ?adj dest ?s = Some s" "search_inv W origin peers dest s" "frontier_of s = {} \<or> dest \<in> settled_of s"
    using search_loop_returns [OF adj inv] by auto
  have hops': "unat hops \<noteq> 0" using hops by (simp add: unat_eq_0)
  show ?thesis
  proof (cases "bt_get (se_distance s) dest")
    case None
    then show ?thesis using search_end(1) [OF adj s(2,3) None] s(1) hops' by (simp add: find_path_def Let_def)
  next
    case (Some c)
    obtain q where q: "walk_back (se_previous s) origin [dest] dest = Some q" "planned W origin dest peers q"
      using search_end(2) [OF adj s(2,3) Some] by blast
    then have "q \<noteq> []" by (simp add: planned_def)
    then have "find_path now g origin dest peers hops = Some (if unat hops + 1 < length q \<or> hd q \<notin> set peers then None else Some q)"
      using q(1) Some s(1) hops' by (simp add: find_path_def Let_def)
    then show ?thesis using q(2) by blast
  qed
qed

end
