(* ===== verification/Topology_Plan.thy ===== *)
theory Topology_Plan
  imports Topology_Search
begin

text \<open>
  What the learned topology promises: cheapest simple plans, found when there is one, over a bounded set of recent observations; and
  the case in which a usable plan is not found.
\<close>

subsection \<open>Properties\<close>

text \<open>
  C11: A path the planner returns is a plan over live observed edges toward the destination: it leaves along a session this node
  holds, never repeats a node, never comes back to the origin, ends at the destination within the relay budget, and no plan
  over live edges costs less, costs being rounded double-precision sums in hop order.
\<close>

theorem path_cheapest:
  assumes "graph_reach t g" "find_path now g origin dest peers hops = Some (Some p)"
  shows "hd p \<in> set peers \<and> last p = dest \<and> distinct p \<and> origin \<notin> set (butlast p) \<and> length p \<le> unat hops + 1 \<and>
    (\<exists>c. plan_cost (live_weight now dest g) origin peers p c \<and>
      (\<forall>q c'. plan_cost (live_weight now dest g) origin peers q c' \<and> last q = dest \<longrightarrow> c \<le> c'))"
proof -
  have "hops \<noteq> 0" using assms(2) by (auto simp: find_path_def Let_def)
  from find_path_outcome [where now = now and dest = dest and origin = origin and peers = peers, OF graph_reach_sorted [OF assms(1)] refl this] assms(2)
  obtain q where "planned (live_weight now dest g) origin dest peers q" "Some p = (if unat hops + 1 < length q \<or> hd q \<notin> set peers then None else Some q)"
    by auto
  then show ?thesis by (auto simp: planned_def split: if_splits)
qed

text \<open>
  C12: Planning always returns. With a budget for as many relays as there are observations, and no observed edge leading
  back into the origin, it finds a path exactly when the live edges hold a plan at all.
\<close>

theorem path_found:
  assumes "graph_reach t g" "hops \<noteq> 0" "length g \<le> unat hops + 1" "\<forall>u. live_weight now dest g u origin = None"
  shows "\<exists>r. find_path now g origin dest peers hops = Some r \<and>
    (r \<noteq> None \<longleftrightarrow> (\<exists>q c. plan_cost (live_weight now dest g) origin peers q c \<and> last q = dest))"
proof -
  let ?W = "live_weight now dest g"
  note g = graph_reach_sorted [OF assms(1)]
  from find_path_outcome [where now = now and dest = dest and origin = origin and peers = peers, OF g refl assms(2)] show ?thesis
  proof (elim disjE exE conjE)
    fix q
    assume q: "planned ?W origin dest peers q" and f: "find_path now g origin dest peers hops = Some (if unat hops + 1 < length q \<or> hd q \<notin> set peers then None else Some q)"
    have hd: "hd q \<in> set peers" using q assms(4) by (simp add: planned_def)
    then obtain c where c: "plan_cost ?W origin peers q c" using q by (auto simp: planned_def)
    have "length q = card (set q)" using q distinct_card [of q] by (simp add: planned_def)
    also have "\<dots> \<le> length g"
      using plan_cost_nodes [OF c] live_targets [OF g, of now dest] card_mono [of "{v. \<exists>u. ?W u v \<noteq> None}" "set q"] by linarith
    finally have "find_path now g origin dest peers hops = Some (Some q)" using f hd assms(3) by simp
    then show ?thesis using c q unfolding planned_def by blast
  qed simp
qed

text \<open>
  C24: After any history of recorded outcomes the graph holds at most 1,024 observations, none expired at the last recording, and
  each recording keeps the edges it touched unless they leave as the least recent: an unexpired edge that was dropped is
  no more recent than any edge kept.
\<close>

theorem topology_bounded:
  assumes "graph_reach t g"
  shows "let g' = record_outcome now dest origin path out g; h = record_hops now dest out origin path g in
    length g' \<le> 1024 \<and> set g' \<subseteq> set h \<and> (\<forall>e\<in>set g'. \<not> edge_expired (snd e) now) \<and>
    (\<forall>e\<in>set h. \<forall>e'\<in>set g'. e \<notin> set g' \<and> \<not> edge_expired (snd e) now \<longrightarrow> es_last_seen (snd e) \<le> es_last_seen (snd e'))"
proof -
  let ?h = "record_hops now dest out origin path g" and ?r = "bt_retain (\<lambda>_ st. \<not> edge_expired st now) (record_hops now dest out origin path g)"
  have h: "sorted_keys ?r" using graph_reach_sorted [OF assms] by (simp add: record_hops_sorted bt_retain_sorted)
  have r: "set ?r = {e \<in> set ?h. \<not> edge_expired (snd e) now}" by (auto simp: bt_retain_def)
  have rec: "record_outcome now dest origin path out g = evict_oldest ?r" by (simp add: record_outcome_def prune_def)
  have "es_last_seen (snd e) \<le> es_last_seen (snd e')" if "e \<in> set ?r" "e \<notin> set (evict_oldest ?r)" "e' \<in> set (evict_oldest ?r)" for e e'
    using evict_oldest_order [OF h that] by (auto simp: age_key_def less_eq_prod_simp)
  then show ?thesis using evict_oldest_sub [OF h] r unfolding rec Let_def TOPOLOGY_MAX_ENTRIES_def by blast
qed

subsection \<open>Witnesses\<close>

lemma round_half: "round_f64 (1 / 2) = 1 / 2"
proof (rule round_f64_multiple)
  have e: "binary_exponent (1 / 2) = - 1" by (rule binary_exponent_eqI) (simp_all add: power_int_minus)
  have "(2::rat) powi (- 53) = inverse (2 ^ 53)" by (simp add: power_int_minus)
  then show "1 / 2 = of_int (2 ^ 52) * (2::rat) powi (binary_exponent (1 / 2) - 52)" by (simp add: e)
qed

lemma small_sums: "round_f64 1 = 1" "round_f64 2 = 2"
  using is_f64_of_nat [of 1] is_f64_of_nat [of 2] by (simp_all add: is_f64_def)

lemma delivered_once: "edge_weight \<lparr>es_successes = 1, es_failures = 0, es_last_seen = t\<rparr> = 1 / 2"
  by (simp add: edge_weight_def f64_div_def f64_add_def small_sums round_half)

definition learned :: graph_state where
  "learned = record_outcome 3 [9] [1] [[2], [9]] Delivered new_graph"

lemma learned_reach: "graph_reach 3 learned"
  unfolding learned_def by (rule recorded, rule fresh)

lemma learned_edges: "learned = [(([9], [1], [2]), \<lparr>es_successes = 1, es_failures = 0, es_last_seen = 3\<rparr>),
    (([9], [2], [9]), \<lparr>es_successes = 1, es_failures = 0, es_last_seen = 3\<rparr>)]"
  by (simp add: learned_def record_outcome_def new_graph_def new_edge_stats_def observe_edge_def saturating_inc_def prune_def bt_retain_def
      edge_expired_def TOPOLOGY_EDGE_TTL_def evict_oldest.simps TOPOLOGY_MAX_ENTRIES_def)

lemma learned_path: "find_path 7 learned [1] [9] [[2]] 4 = Some (Some [[2], [9]])"
proof -
  have adj: "adjacency_of 7 [9] learned = [([1], [([2], 1 / 2)]), ([2], [([9], 1 / 2)])]"
    by (simp add: adjacency_of_def learned_edges push_edge_def edges_at_def edge_expired_def TOPOLOGY_EDGE_TTL_def delivered_once)
  have sum: "f64_add (1 / 2) (1 / 2) = 1" by (simp add: f64_add_def small_sums)
  let ?adj = "[([1], [([2], 1 / 2)]), ([2], [([9], 1 / 2)])] :: adjacency"
  have seed: "seed_search [1] [[2]] ?adj = \<lparr>se_distance = [([2], 1 / 2)], se_previous = [([2], [1])], se_frontier = [[2]], se_settled = []\<rparr>"
    by (simp add: seed_search_def edges_at_def improve_def insort_insert_key_def)
  have loop: "search_loop ?adj [9] (seed_search [1] [[2]] ?adj) = Some \<lparr>se_distance = [([2], 1 / 2), ([9], 1)],
      se_previous = [([2], [1]), ([9], [2])], se_frontier = [], se_settled = [[2], [9]]\<rparr>"
    unfolding seed by (subst search_loop.simps, simp add: nearest_def settle_node_def relax_def improve_def sum insort_insert_key_def)
      (subst search_loop.simps, simp add: nearest_def settle_node_def insort_insert_key_def)
  have walk: "walk_back [([2], [1]), ([9], [2])] [1] [[9]] [9] = Some [[2], [9]]"
    by (subst walk_back.simps, simp) (subst walk_back.simps, simp)
  show ?thesis by (simp add: find_path_def adj loop walk)
qed

theorem path_cheapest_witness:
  "find_path 7 learned [1] [9] [[2]] 4 = Some (Some [[2], [9]]) \<and> (\<exists>c. plan_cost (live_weight 7 [9] learned) [1] [[2]] [[2], [9]] c)"
  using path_cheapest [OF learned_reach learned_path] learned_path by blast

theorem path_found_witness:
  "\<exists>r. find_path 7 learned [1] [9] [[2]] 4 = Some r \<and> (r \<noteq> None \<longleftrightarrow> (\<exists>q c. plan_cost (live_weight 7 [9] learned) [1] [[2]] q c \<and> last q = [9]))"
  using path_found [where now = 7 and dest = "[9]" and origin = "[1]" and peers = "[[2]]" and hops = 4, OF learned_reach] by (simp add: learned_edges live_weight_def)

theorem topology_bounded_witness: "length (record_outcome 7 [9] [1] [[2], [9]] Failed learned) \<le> 1024"
  using topology_bounded [where now = 7 and dest = "[9]" and origin = "[1]" and path = "[[2], [9]]" and out = Failed, OF learned_reach] by (simp add: Let_def)

text \<open>
  An observed edge back into the origin can hide a usable plan: the cheapest chain of predecessors then runs through the origin, what
  is walked back starts at a node that is no peer, and the answer is that nothing is known, although a plan to the destination over live edges
  starts at a peer and fits the budget.
\<close>

definition detour :: graph_state where
  "detour = record_outcome 5 [9] [1] [[2], [9]] Failed (record_outcome 3 [9] [1] [[2], [1], [3], [9]] Delivered new_graph)"

lemma detour_edges: "detour = [(([9], [1], [2]), \<lparr>es_successes = 1, es_failures = 1, es_last_seen = 5\<rparr>),
    (([9], [1], [3]), \<lparr>es_successes = 1, es_failures = 0, es_last_seen = 3\<rparr>),
    (([9], [2], [1]), \<lparr>es_successes = 1, es_failures = 0, es_last_seen = 3\<rparr>),
    (([9], [2], [9]), \<lparr>es_successes = 0, es_failures = 1, es_last_seen = 5\<rparr>),
    (([9], [3], [9]), \<lparr>es_successes = 1, es_failures = 0, es_last_seen = 3\<rparr>)]"
  by code_simp

lemma half_sums: "round_f64 (n / 2) = n / 2" if "n \<in> {1, 2, 3, 4, 5, 6}"
proof -
  have "is_f64 1" "is_f64 2" "is_f64 3" "is_f64 4" "is_f64 5" "is_f64 6"
    using is_f64_of_nat [of 1] is_f64_of_nat [of 2] is_f64_of_nat [of 3] is_f64_of_nat [of 4] is_f64_of_nat [of 5] is_f64_of_nat [of 6] by simp_all
  then have "is_f64 n" using that by auto
  then show ?thesis using is_f64_half [of n] by (simp add: is_f64_def)
qed

lemma path_lost_through_origin:
  "graph_reach 5 detour" "find_path 7 detour [1] [9] [[2]] 4 = Some None" "plan_cost (live_weight 7 [9] detour) [1] [[2]] [[2], [9]] 3"
proof -
  note half = half_sums [of 1, simplified] half_sums [of 2, simplified] half_sums [of 3, simplified] half_sums [of 4, simplified]
    half_sums [of 5, simplified] half_sums [of 6, simplified]
  have w: "edge_weight \<lparr>es_successes = 1, es_failures = 1, es_last_seen = t\<rparr> = 1" "edge_weight \<lparr>es_successes = 0, es_failures = 1, es_last_seen = t\<rparr> = 2"
    "edge_weight \<lparr>es_successes = 1, es_failures = 0, es_last_seen = t\<rparr> = 1 / 2" for t
    by (simp_all add: edge_weight_def f64_div_def f64_add_def half)
  have sum: "f64_add 1 (1 / 2) = 3 / 2" "f64_add 1 2 = 3" "f64_add (3 / 2) (1 / 2) = 2" "f64_add 2 (1 / 2) = 5 / 2" "f64_add (3 / 2) 1 = 5 / 2"
    by (simp_all add: f64_add_def half)
  let ?adj = "[([1], [([2], 1), ([3], 1 / 2)]), ([2], [([1], 1 / 2), ([9], 2)]), ([3], [([9], 1 / 2)])] :: adjacency"
  have adj: "adjacency_of 7 [9] detour = ?adj"
    by (simp add: adjacency_of_def detour_edges push_edge_def edges_at_def edge_expired_def TOPOLOGY_EDGE_TTL_def w)
  have seed: "seed_search [1] [[2]] ?adj = \<lparr>se_distance = [([2], 1)], se_previous = [([2], [1])], se_frontier = [[2]], se_settled = []\<rparr>"
    by (simp add: seed_search_def edges_at_def improve_def insort_insert_key_def)
  note step = nearest_def settle_node_def relax_def improve_def sum insort_insert_key_def min_def less_eq_prod_simp
  have loop: "search_loop ?adj [9] (seed_search [1] [[2]] ?adj) = Some \<lparr>se_distance = [([1], 3 / 2), ([2], 1), ([3], 2), ([9], 5 / 2)],
      se_previous = [([1], [2]), ([2], [1]), ([3], [1]), ([9], [3])], se_frontier = [], se_settled = [[1], [2], [3], [9]]\<rparr>"
    unfolding seed by (subst search_loop.simps, simp add: step) (subst search_loop.simps, simp add: step,
      subst search_loop.simps, simp add: step, subst search_loop.simps, simp add: step)
  have walk: "walk_back [([1], [2]), ([2], [1]), ([3], [1]), ([9], [3])] [1] [[9]] [9] = Some [[3], [9]]"
    by (subst walk_back.simps, simp) (subst walk_back.simps, simp)
  show "find_path 7 detour [1] [9] [[2]] 4 = Some None" by (simp add: find_path_def adj loop walk)
  show "graph_reach 5 detour" unfolding detour_def by (rule recorded, rule recorded, rule fresh)
  have "plan_cost (live_weight 7 [9] detour) [1] [[2]] ([[2]] @ [[9]]) (f64_add 1 2)"
    by (intro plan_cost.intros) (simp_all add: live_weight_def detour_edges edge_expired_def TOPOLOGY_EDGE_TTL_def w)
  then show "plan_cost (live_weight 7 [9] detour) [1] [[2]] [[2], [9]] 3" by (simp add: sum)
qed

end
