(* ===== verification/Route_Walk.thy ===== *)
theory Route_Walk
  imports Topology_Plan
begin

text \<open>
  Routed delivery, the second part of \<^verbatim>\<open>src/routing.rs\<close> with the planning of \<^verbatim>\<open>src/routing/forward.rs\<close>: the envelope a packet carries
  from hop to hop, its validation at every receiver, plans and their shape, the built-in next-hop policy over the learned
  topology, and the walk all of these compose to.

  A next-hop policy is caller code behind the \<^verbatim>\<open>RouteNextHop\<close> trait, so it is an argument. So is the hash that ranks relays
  in the built-in policy. Poisoned locks are not modelled: a lock always grants its table.
\<close>

type_synonym trace_id = bytes

definition not_trusted :: "string \<Rightarrow> error" where [result_simps]: "not_trusted c = Error NotTrusted c"
definition unsupported :: "string \<Rightarrow> error" where [result_simps]: "unsupported c = Error Unsupported c"
definition route_unavailable :: "string \<Rightarrow> error" where [result_simps]: "route_unavailable c = Error RouteUnavailable c"
definition caller_error :: "string \<Rightarrow> error" where [result_simps]: "caller_error c = Error CallerError c"

subsection \<open>The envelope\<close>

record hop_state =
  hs_current :: node_id
  hs_visited :: "node_id list"
  hs_remaining_hops :: u32
  hs_path :: "node_id list"

record route_context =
  rc_trace_id :: trace_id
  rc_source :: node_id
  rc_destination :: node_id
  rc_hop :: hop_state

datatype route_progress = Arrive | Continue node_id route_context

definition new_context :: "trace_id \<Rightarrow> node_id \<Rightarrow> node_id \<Rightarrow> node_id list \<Rightarrow> u32 \<Rightarrow> route_context" where
  "new_context trace source destination path max_hops = \<lparr>rc_trace_id = trace, rc_source = source, rc_destination = destination,
     rc_hop = \<lparr>hs_current = source, hs_visited = [], hs_remaining_hops = max_hops, hs_path = path\<rparr>\<rparr>"

definition replanned :: "route_context \<Rightarrow> route_context" where
  "replanned c = c\<lparr>rc_hop := (rc_hop c)\<lparr>hs_path := []\<rparr>\<rparr>"

definition from_frame :: "trace_id \<Rightarrow> node_id \<Rightarrow> node_id \<Rightarrow> hop_state option \<Rightarrow> route_context" where
  "from_frame trace source destination route = (case route of
     Some hop \<Rightarrow> \<lparr>rc_trace_id = trace, rc_source = source, rc_destination = destination, rc_hop = hop\<rparr>
   | None \<Rightarrow> new_context trace source destination [] 1)"

definition dispatch_route :: "route_context \<Rightarrow> (node_id \<times> route_context) result" where
  "dispatch_route c = (case hs_path (rc_hop c) of
     [] \<Rightarrow> Inl (invalid_input ''route path'')
   | next_hop # hops \<Rightarrow> Inr (next_hop, c\<lparr>rc_hop := (rc_hop c)\<lparr>hs_path := hops\<rparr>\<rparr>))"

subsection \<open>The shape of a path\<close>

definition path_duplicate_free :: "node_id list \<Rightarrow> bool" where
  "path_duplicate_free path \<longleftrightarrow> card (set path) = length path"

definition path_entry_bound :: "u32 \<Rightarrow> nat" where
  "path_entry_bound max_hops = unat max_hops + 1"

definition validate_path_shape :: "node_id list \<Rightarrow> nat \<Rightarrow> string \<Rightarrow> unit result" where
  "validate_path_shape path max_entries ctx =
    (if path = [] then Inl (invalid_input ctx)
     else if max_entries < length path then Inl (resource_exhausted ctx)
     else if \<not> path_duplicate_free path then Inl (invalid_input ctx)
     else Inr ())"

definition validate_planned_path :: "node_id list \<Rightarrow> u32 \<Rightarrow> unit result" where
  "validate_planned_path path remaining_hops = validate_path_shape path (path_entry_bound remaining_hops) ''route path''"

text \<open>The path a caller names for a stream, from \<^verbatim>\<open>src/packet/mod.rs\<close>.\<close>

definition STREAM_PATH_MAX_HOPS :: nat where "STREAM_PATH_MAX_HOPS = 64"

definition validate_caller_path :: "node_id \<Rightarrow> node_id list \<Rightarrow> u32 \<Rightarrow> unit result" where
  "validate_caller_path destination path max_hops =
     rbind (validate_path_shape path (min STREAM_PATH_MAX_HOPS (path_entry_bound max_hops)) ''stream path'') (\<lambda>_.
       if path \<noteq> [] \<and> last path = destination then Inr () else Inl (invalid_input ''stream path''))"

subsection \<open>Receiving\<close>

definition forward :: "route_context \<Rightarrow> node_id \<Rightarrow> node_id list \<Rightarrow> route_context" where
  "forward c self remaining = (let h = rc_hop c in c\<lparr>rc_hop := h\<lparr>hs_current := self, hs_visited := hs_visited h @ [hs_current h],
     hs_path := remaining, hs_remaining_hops := (if hs_remaining_hops h = 0 then 0 else hs_remaining_hops h - 1)\<rparr>\<rparr>)"

definition receive :: "route_context \<Rightarrow> node_id \<Rightarrow> node_id \<Rightarrow> (route_context \<Rightarrow> node_id list result) \<Rightarrow> route_progress result" where
  "receive c self peer plan =
    (if hs_current (rc_hop c) \<noteq> peer then Inl (not_trusted ''route holder'')
     else if rc_destination c = self then Inr Arrive
     else if hs_remaining_hops (rc_hop c) = 0 then Inl (resource_exhausted ''route hops'')
     else rbind (if hs_path (rc_hop c) = [] then rbind (plan c) (\<lambda>planned. rbind (validate_planned_path planned (hs_remaining_hops (rc_hop c))) (\<lambda>_. Inr planned))
                 else Inr (hs_path (rc_hop c)))
       (\<lambda>path. case path of [] \<Rightarrow> Inl (invalid_input ''route path'')
         | next_hop # remaining \<Rightarrow> Inr (Continue next_hop (forward c self remaining))))"

definition receive_open_envelope :: "trace_id \<Rightarrow> node_id \<Rightarrow> node_id \<Rightarrow> hop_state option \<Rightarrow> node_id \<Rightarrow> node_id \<Rightarrow> route_progress result" where
  "receive_open_envelope trace source destination route self peer =
     receive (from_frame trace source destination route) self peer (\<lambda>_. Inl (unsupported ''route forwarding''))"

subsection \<open>Planning\<close>

record next_hop_view =
  nv_trace :: trace_id
  nv_destination :: node_id
  nv_local :: node_id
  nv_peers :: "node_id list"
  nv_remaining_hops :: u32

type_synonym next_hop_policy = "next_hop_view \<Rightarrow> node_id list option result"

definition resolve_plan :: "(bytes \<Rightarrow> next_hop_policy option) \<Rightarrow> bytes \<Rightarrow> next_hop_view \<Rightarrow> node_id list option result" where
  "resolve_plan registry tag view = (case registry tag of None \<Rightarrow> Inr None | Some policy \<Rightarrow> policy view)"

definition loop_free_candidates :: "node_id \<Rightarrow> node_id \<Rightarrow> node_id list \<Rightarrow> node_id list \<Rightarrow> node_id list" where
  "loop_free_candidates source current visited peers = filter (\<lambda>p. p \<noteq> current \<and> p \<noteq> source \<and> p \<notin> set visited) peers"

definition plan_path :: "(bytes \<Rightarrow> next_hop_policy option) \<Rightarrow> bytes \<Rightarrow> next_hop_view \<Rightarrow> node_id list result" where
  "plan_path registry route_policy view =
    (if nv_destination view \<in> set (nv_peers view) then Inr [nv_destination view]
     else rbind (resolve_plan registry route_policy view) (\<lambda>r. case r of
         None \<Rightarrow> Inl (route_unavailable ''route policy'')
       | Some path \<Rightarrow> rbind (validate_planned_path path (nv_remaining_hops view)) (\<lambda>_.
           if path \<noteq> [] \<and> hd path \<in> set (nv_peers view) then Inr path else Inl (route_unavailable ''route hop''))))"

text \<open>
  The built-in policy. The search of the learned topology is a loop, so the value is \<open>None\<close> where it would not return;
  \<open>min_by_key\<close> keeps the first of equally ranked peers.
\<close>

definition default_next_hop_plan :: "(trace_id \<Rightarrow> node_id \<Rightarrow> u64) \<Rightarrow> int \<Rightarrow> graph_state option \<Rightarrow> next_hop_view \<Rightarrow> node_id list option result option" where
  "default_next_hop_plan rank now graph view =
    (if nv_destination view \<in> set (nv_peers view) then Some (Inr (Some [nv_destination view]))
     else case (case graph of None \<Rightarrow> Some None
           | Some g \<Rightarrow> find_path now g (nv_local view) (nv_destination view) (nv_peers view) (nv_remaining_hops view)) of
       None \<Rightarrow> None
     | Some (Some path) \<Rightarrow> Some (Inr (Some path))
     | Some None \<Rightarrow> Some (case nv_peers view of
           [] \<Rightarrow> Inl (caller_error ''no live peer to relay through'')
         | p # ps \<Rightarrow> Inr (Some [fold (\<lambda>q best. if rank (nv_trace view) q < rank (nv_trace view) best then q else best) ps p])))"

subsection \<open>The walk\<close>

lemma receive_Continue:
  "receive c self peer plan = Inr (Continue n c') \<longleftrightarrow>
    hs_current (rc_hop c) = peer \<and> rc_destination c \<noteq> self \<and> hs_remaining_hops (rc_hop c) \<noteq> 0 \<and>
    (\<exists>rest. c' = forward c self rest \<and> (hs_path (rc_hop c) = n # rest \<or>
      hs_path (rc_hop c) = [] \<and> plan c = Inr (n # rest) \<and> validate_planned_path (n # rest) (hs_remaining_hops (rc_hop c)) = Inr ()))"
  by (auto simp: receive_def neq_Nil_conv split: list.splits)

lemma receive_Arrive: "receive c self peer plan = Inr Arrive \<longleftrightarrow> hs_current (rc_hop c) = peer \<and> rc_destination c = self"
  by (auto simp: receive_def neq_Nil_conv split: list.splits)

lemma forward_simps [simp]:
  "rc_destination (forward c self rest) = rc_destination c" "rc_source (forward c self rest) = rc_source c"
  "hs_current (rc_hop (forward c self rest)) = self" "hs_path (rc_hop (forward c self rest)) = rest"
  "hs_visited (rc_hop (forward c self rest)) = hs_visited (rc_hop c) @ [hs_current (rc_hop c)]"
  by (simp_all add: forward_def Let_def)

lemma unat_minus_one_word: "(w :: u32) \<noteq> 0 \<Longrightarrow> unat (w - 1) = unat w - 1"
  by (simp add: unat_minus_one)

lemma forward_remaining [simp]: "unat (hs_remaining_hops (rc_hop (forward c self rest))) = unat (hs_remaining_hops (rc_hop c)) - 1"
  by (simp add: forward_def Let_def unat_minus_one)

text \<open>
  What the hops of one packet compose to: each receiver checks the envelope against the session it came over, and forwards the
  advanced envelope to the next hop, which sees this node as its peer. The value lists the nodes that held the packet after
  the first sender, and how it ended.
\<close>

function route_walk :: "(node_id \<Rightarrow> route_context \<Rightarrow> node_id list result) \<Rightarrow> node_id \<Rightarrow> node_id \<Rightarrow> route_context \<Rightarrow> node_id list \<times> unit result" where
  "route_walk plan peer node c = (case receive c node peer (plan node) of
     Inl e \<Rightarrow> ([node], Inl e)
   | Inr Arrive \<Rightarrow> ([node], Inr ())
   | Inr (Continue next_hop c') \<Rightarrow> map_prod ((#) node) id (route_walk plan node next_hop c'))"
  by pat_completeness auto
termination
proof (relation "measure (\<lambda>(_, _, _, c). unat (hs_remaining_hops (rc_hop c)))")
  fix plan :: "node_id \<Rightarrow> route_context \<Rightarrow> node_id list result" and peer node c p n c'
  assume "receive c node peer (plan node) = Inr p" "p = Continue n c'"
  then have "hs_remaining_hops (rc_hop c) \<noteq> 0" "unat (hs_remaining_hops (rc_hop c')) = unat (hs_remaining_hops (rc_hop c)) - 1"
    by (auto simp: receive_Continue)
  then show "((plan, node, n, c'), plan, peer, node, c) \<in> measure (\<lambda>(_, _, _, c). unat (hs_remaining_hops (rc_hop c)))"
    by (simp add: unat_gt_0)
qed simp

declare route_walk.simps [simp del]

subsection \<open>Walks along a carried path\<close>

lemma path_duplicate_free_distinct: "path_duplicate_free path \<longleftrightarrow> distinct path"
  by (auto simp: path_duplicate_free_def distinct_card card_distinct)

lemma validate_planned_path_ok: "validate_planned_path path hops = Inr u \<longleftrightarrow> path \<noteq> [] \<and> length path \<le> unat hops + 1 \<and> distinct path"
  by (auto simp: validate_planned_path_def validate_path_shape_def path_entry_bound_def path_duplicate_free_distinct)

lemma distinct_last_butlast: "distinct xs \<Longrightarrow> xs \<noteq> [] \<Longrightarrow> last xs \<notin> set (butlast xs)"
  by (induction xs rule: rev_induct) simp_all

text \<open>The carried path is followed without planning, to its end or to the end of the budget.\<close>

lemma walk_carried:
  assumes "hs_current (rc_hop c) = peer" "hs_path (rc_hop c) = rest" "last (node # rest) = rc_destination c"
    "rc_destination c \<notin> set (butlast (node # rest))"
  shows "route_walk plan peer node c = (let r = unat (hs_remaining_hops (rc_hop c)) in
    if length rest \<le> r then (node # rest, Inr ()) else (take (r + 1) (node # rest), Inl (resource_exhausted ''route hops'')))"
  using assms
proof (induction rest arbitrary: peer node c)
  case Nil
  then show ?case by (simp add: route_walk.simps receive_def)
next
  case (Cons n rest)
  let ?r = "hs_remaining_hops (rc_hop c)"
  have dst: "rc_destination c \<noteq> node" using Cons.prems(4) by auto
  show ?case
  proof (cases "?r = 0")
    case True
    then show ?thesis using Cons.prems dst by (simp add: route_walk.simps receive_def)
  next
    case False
    let ?c = "forward c node rest"
    have "receive c node peer (plan node) = Inr (Continue n ?c)" using Cons.prems dst False by (simp add: receive_Continue)
    then have "route_walk plan peer node c = map_prod ((#) node) id (route_walk plan node n ?c)" by (simp add: route_walk.simps [of plan peer])
    moreover have "rc_destination ?c \<notin> set (butlast (n # rest))" using Cons.prems(4) by simp
    ultimately show ?thesis
      using Cons.IH [of ?c node n] Cons.prems(3) False by (cases "unat ?r") (auto simp: Let_def unat_eq_0)
  qed
qed

text \<open>Whatever the nodes on the way plan.\<close>

lemma walk_bounded:
  assumes "hs_current (rc_hop c) = peer"
  shows "(case route_walk plan peer node c of (nodes, out) \<Rightarrow>
    nodes \<noteq> [] \<and> hd nodes = node \<and> length nodes \<le> unat (hs_remaining_hops (rc_hop c)) + 1 \<and>
    rc_destination c \<notin> set (butlast nodes) \<and> (out = Inr () \<longleftrightarrow> last nodes = rc_destination c))"
  using assms
proof (induction plan peer node c rule: route_walk.induct)
  case (1 plan peer node c)
  show ?case
  proof (cases "receive c node peer (plan node)")
    case (Inl e)
    then have "rc_destination c \<noteq> node" using "1.prems" by (auto simp: receive_def)
    then show ?thesis using Inl by (simp add: route_walk.simps [of plan peer])
  next
    case (Inr p)
    show ?thesis
    proof (cases p)
      case Arrive
      then have "rc_destination c = node" using Inr by (simp add: receive_Arrive)
      then show ?thesis using Inr Arrive by (simp add: route_walk.simps [of plan peer])
    next
      case (Continue n c')
      have c': "rc_destination c' = rc_destination c" "rc_destination c \<noteq> node" "hs_remaining_hops (rc_hop c) \<noteq> 0" "hs_current (rc_hop c') = node"
        "unat (hs_remaining_hops (rc_hop c')) = unat (hs_remaining_hops (rc_hop c)) - 1"
        using Inr Continue by (auto simp: receive_Continue)
      moreover have "route_walk plan peer node c = map_prod ((#) node) id (route_walk plan node n c')"
        using Inr Continue by (simp add: route_walk.simps [of plan peer])
      ultimately show ?thesis using "1.IH" [OF Inr Continue c'(4)]
        by (cases "unat (hs_remaining_hops (rc_hop c))") (auto simp: unat_eq_0 split: prod.splits)
    qed
  qed
qed

text \<open>The built-in policy always answers, with a plan that leaves along a live peer and passes the shape check.\<close>

lemma fold_pick: "fold (\<lambda>q best. if P q best then q else best) ps p \<in> set (p # ps)"
  by (induction ps arbitrary: p) auto

lemma default_plan_answers:
  assumes "graph_reach t g" "nv_peers view \<noteq> []"
  obtains path where "default_next_hop_plan rank now (Some g) view = Some (Inr (Some path))" "hd path \<in> set (nv_peers view)"
    "validate_planned_path path (nv_remaining_hops view) = Inr ()"
proof (cases "nv_destination view \<in> set (nv_peers view)")
  case True
  then show thesis by (intro that [of "[nv_destination view]"]) (simp_all add: default_next_hop_plan_def validate_planned_path_ok)
next
  case far: False
  obtain r where r: "find_path now g (nv_local view) (nv_destination view) (nv_peers view) (nv_remaining_hops view) = Some r"
    and path: "\<And>path. r = Some path \<Longrightarrow> hd path \<in> set (nv_peers view) \<and> validate_planned_path path (nv_remaining_hops view) = Inr ()"
  proof (cases "nv_remaining_hops view = 0")
    case True
    then show thesis by (intro that [of None]) (simp_all add: find_path_def)
  next
    case False
    from find_path_outcome [where now = now and dest = "nv_destination view" and origin = "nv_local view" and peers = "nv_peers view",
        OF graph_reach_sorted [OF assms(1)] refl False]
    show thesis by (elim disjE exE conjE) (auto intro!: that simp: planned_def validate_planned_path_ok split: if_splits)
  qed
  obtain p ps where peers: "nv_peers view = p # ps" using assms(2) by (cases "nv_peers view") auto
  show thesis
  proof (cases r)
    case None
    then show thesis using far r peers fold_pick [of "\<lambda>q best. rank (nv_trace view) q < rank (nv_trace view) best" ps p]
      by (intro that) (auto simp: default_next_hop_plan_def validate_planned_path_ok)
  next
    case (Some path)
    then show thesis using far r path by (intro that [of path]) (simp_all add: default_next_hop_plan_def)
  qed
qed

subsection \<open>Properties\<close>




text \<open>
  C16: The built-in policy composes with the planning boundary. On a node with a live peer it returns a plan over any learned topology, and the
  boundary carries that plan unchanged: no check on its shape, its length or its first hop refuses it.
\<close>

theorem builtin_plan_carried:
  assumes "graph_reach t g" "nv_peers view \<noteq> []"
  shows "\<exists>path. default_next_hop_plan rank now (Some g) view = Some (Inr (Some path)) \<and>
    plan_path (\<lambda>tag. Some (\<lambda>v. the (default_next_hop_plan rank now (Some g) v))) policy_tag view = Inr path"
proof -
  obtain path where path: "default_next_hop_plan rank now (Some g) view = Some (Inr (Some path))" "hd path \<in> set (nv_peers view)"
    "validate_planned_path path (nv_remaining_hops view) = Inr ()" using default_plan_answers [OF assms] .
  then have "path \<noteq> []" by (simp add: validate_planned_path_ok)
  moreover have "path = [nv_destination view]" if "nv_destination view \<in> set (nv_peers view)" using path(1) that by (simp add: default_next_hop_plan_def)
  ultimately show ?thesis using path by (auto simp: plan_path_def resolve_plan_def)
qed

text \<open>
  Local admission: an open frame is admitted exactly when it is addressed to this node and the authenticated peer is its claimed
  holder, which for a frame without route state is its source.
\<close>

theorem open_admission_exact:
  "receive_open_envelope trace source dest route self peer = Inr Arrive \<longleftrightarrow>
    dest = self \<and> peer = (case route of None \<Rightarrow> source | Some h \<Rightarrow> hs_current h)"
  by (auto simp: receive_open_envelope_def receive_Arrive from_frame_def new_context_def split: option.split)

subsection \<open>Witnesses\<close>




theorem builtin_plan_carried_witness:
  "\<exists>path. plan_path (\<lambda>tag. Some (\<lambda>v. the (default_next_hop_plan (\<lambda>_ _. 0) 7 (Some learned) v))) []
    \<lparr>nv_trace = [0], nv_destination = [9], nv_local = [1], nv_peers = [[2]], nv_remaining_hops = 4\<rparr> = Inr path"
  using builtin_plan_carried [OF learned_reach, of "\<lparr>nv_trace = [0], nv_destination = [9], nv_local = [1], nv_peers = [[2]], nv_remaining_hops = 4\<rparr>"]
  by fastforce

end
