(* ===== verification/Spec2Isabelle.thy ===== *)
theory Spec2Isabelle
  imports Hex_Codec Identifiers Selectors Engine_Safety Merge_Admission Route_Walk
begin

text \<open>
  Verification of \<^bold>\<open>radiata\<close>, a relay node library in Rust with identity, membership, resource metadata,
  storage and a routed packet plane (crate source under \<^verbatim>\<open>src/src/\<close>).

  \<^bold>\<open>Conventions.\<close> A struct is a record, an enum a datatype, a \<^verbatim>\<open>Result\<close> a sum with the error on the left, a
  loop a recursive function. A machine integer is a word where its width matters and a natural number for lengths,
  counts and instants. A \<^verbatim>\<open>BTreeMap\<close> is a list of pairs in strictly increasing key order. State behind a lock is passed
  and returned, one whole critical section per definition; a poisoned lock is not modelled. Code outside the repository
  is a parameter: the \<^verbatim>\<open>minicbor\<close> token decoder and derived struct codecs (hypotheses \<open>decoder_ok\<close> and \<open>wire_codec_ok\<close>, with
  the concrete instances \<open>rfc_decoder\<close> and \<open>plain_codec\<close>), SHA-256, the entropy provider and the clock.

  \<^bold>\<open>The library.\<close>

  \<^item> \<open>Radiata_Prelude\<close>: byte strings, words, errors (\<^verbatim>\<open>error.rs\<close>), results, shared list lemmas. \<open>Ordered_Map\<close>: ordered maps
    as sorted lists.
  \<^item> \<open>Hex_Codec\<close> (\<^verbatim>\<open>hex.rs\<close>): the codec interface as a locale and its instance; decoding accepts exactly the encodings.
  \<^item> \<open>Identifiers\<close> (\<^verbatim>\<open>identity/id.rs\<close>): the validator accepts exactly what the generator produces; the rejection sampler
    returns the first accepted draw; task identifiers sort in admission order.
  \<^item> \<open>Tags\<close> (\<^verbatim>\<open>protocol/tag.rs\<close>, \<^verbatim>\<open>label.rs\<close>): the parser against a grammar, accessors, label sets.
  \<^item> \<open>Cbor_Canonical\<close>, \<open>Cbor_Grammar\<close>, \<open>Cbor_Gate\<close>, \<open>Cbor_Parse\<close> (\<^verbatim>\<open>protocol/cbor.rs\<close>): the stack machine that checks canonical
    CBOR, the grammar of canonical items, and that the machine returns and accepts exactly the grammar within the limits;
    decoding is unique.
  \<^item> \<open>Wire_Envelope\<close> (\<^verbatim>\<open>protocol/envelope.rs\<close>, \<^verbatim>\<open>protocol/wire.rs\<close>): the message prelude, frame checks and the kind registry.
  \<^item> \<open>Fingerprint_Index\<close> (\<^verbatim>\<open>reconcile/fingerprint.rs\<close>): the fingerprint group, buckets and Fenwick tree refine a map with
    aggregates; the result does not depend on the history.
  \<^item> \<open>Reconcile_Wire\<close> (\<^verbatim>\<open>reconcile/wire.rs\<close>, \<^verbatim>\<open>reconcile/digest.rs\<close>, \<^verbatim>\<open>reconcile/lane.rs\<close>): messages, round trips, size tests, row digests.
  \<^item> \<open>Reconcile_Engine\<close>, \<open>Engine_Ranges\<close>, \<open>Engine_Safety\<close> (\<^verbatim>\<open>reconcile/engine.rs\<close>): the reconciliation engine of one lane, its
    range splitting and changed ranges, and the invariants of every reachable engine: what it sends encodes, what it keeps is bounded.
  \<^item> \<open>Merge_Admission\<close> (\<^verbatim>\<open>identity/merge_rate.rs\<close>, limits of \<^verbatim>\<open>config.rs\<close>): token buckets and admission slots as a step relation; the
    rate bound over any stretch of a run, exact pending counts, refusals that spend nothing.

  \<^bold>\<open>Termination and fuel.\<close> No definition takes fuel. The loops that may not end on arbitrary input are partial functions into
  \<open>option\<close>, and the theorems show that they return.

  \<^bold>\<open>Not modelled.\<close> Asynchronous tasks, sockets and TLS (\<^verbatim>\<open>runtime/\<close>, \<^verbatim>\<open>transport/\<close>, the drivers of \<^verbatim>\<open>session/\<close>), file and database
  backends (\<^verbatim>\<open>storage/\<close>, \<^verbatim>\<open>keys/\<close>), signatures and certificates (third-party cryptography), the extension registries, the public API
  facade, and test harnesses. The manifest lists each part with its reason.
\<close>

end
